(* ===== verification/Prelude.thy ===== *)
theory Prelude
  imports Main "HOL-Library.Word" "HOL-Library.AList"
begin

text \<open>
  Shared vocabulary of the development: the Go types the broker computes with (bytes, strings,
  big-endian 16-bit integers), the errors it returns as values, the error monad in which its
  \<^verbatim>\<open>if err != nil { return err }\<close> chains are written, and the generic lemmas on lists, words
  and association lists that the component theories use.
\<close>

unbundle bit_operations_syntax

named_theorems result_iff \<open>when a computation in the error monad succeeds\<close>
named_theorems framing \<open>closure of the byte-stream contract under the reader combinators\<close>

section \<open>Go values\<close>

type_synonym byte = "8 word"
type_synonym u16 = "16 word"
type_synonym u64 = "64 word"

text \<open>
  A Go string is a byte sequence; \<open>string\<close> is a list of 8-bit characters, so the conversions
  \<^verbatim>\<open>string(buf)\<close> and \<^verbatim>\<open>[]byte(s)\<close> are the two bijections below.
\<close>

definition bytes_of_string :: "string \<Rightarrow> byte list" where
  "bytes_of_string s = map (\<lambda>c. of_nat (of_char c)) s"

definition string_of_bytes :: "byte list \<Rightarrow> string" where
  "string_of_bytes bs = map (\<lambda>b. char_of (unat b)) bs"

lemma of_char_less_256: "(of_char c :: nat) < 256"
proof -
  have "(of_char c :: nat) mod 256 < 256" by (rule mod_less_divisor) simp
  then show ?thesis by simp
qed

lemma unat_of_char [simp]: "unat (of_nat (of_char c) :: byte) = of_char c"
  using of_char_less_256 [of c] by (simp only: unsigned_of_nat take_bit_eq_mod) simp

lemma unat_byte_less: "unat (b :: byte) < 256"
  using unsigned_less [of b, where ?'a = nat] by simp

lemma of_char_char_of_unat [simp]: "of_nat (of_char (char_of (unat b) :: char)) = (b :: byte)"
  using unat_byte_less [of b] by simp

lemma string_of_bytes_of_string [simp]: "string_of_bytes (bytes_of_string s) = s"
  by (simp add: string_of_bytes_def bytes_of_string_def comp_def)

lemma bytes_of_string_of_bytes [simp]: "bytes_of_string (string_of_bytes bs) = bs"
  by (simp add: string_of_bytes_def bytes_of_string_def comp_def del: of_char_of)

lemma length_bytes_of_string [simp]: "length (bytes_of_string s) = length s"
  by (simp add: bytes_of_string_def)

lemma length_string_of_bytes [simp]: "length (string_of_bytes bs) = length bs"
  by (simp add: string_of_bytes_def)

text \<open>\<^verbatim>\<open>binary.BigEndian\<close> on \<^verbatim>\<open>uint16\<close>.\<close>

definition be16 :: "byte \<Rightarrow> byte \<Rightarrow> u16" where
  "be16 hi lo = push_bit 8 (ucast hi) OR ucast lo"

definition put16 :: "u16 \<Rightarrow> byte list" where
  "put16 w = [ucast (drop_bit 8 w), ucast w]"

lemma be16_put16 [simp]: "be16 (ucast (drop_bit 8 w)) (ucast w) = w"
  unfolding be16_def by (rule bit_word_eqI) (auto simp: bit_simps)

lemma length_put16 [simp]: "length (put16 w) = 2"
  by (simp add: put16_def)

section \<open>Errors as values\<close>

text \<open>
  Sentinel errors of the code (compared by identity) are constructors of their own; every other
  error is \<^verbatim>\<open>errors.New(msg)\<close>, represented by its message.
\<close>

datatype error =
    EOF | ErrUnexpectedEOF | ErrShortWrite | ErrClosed | ErrTimeout
  | ErrContext
  | ErrPacketTooLarge | ErrUnsupportedPacket
  | ErrRetainedLimit
  | ErrSessionOwner | ErrSessionLimit | ErrSubscriptionLimit | ErrFilterLimit
  | ErrClientQueueFull
  | ErrBusy | ErrCredentials
  | ErrDisconnect
  | New string

type_synonym 'a result = "error + 'a"

definition bindE :: "'a result \<Rightarrow> ('a \<Rightarrow> 'b result) \<Rightarrow> 'b result" where
  "bindE m f = (case m of Inl e \<Rightarrow> Inl e | Inr x \<Rightarrow> f x)"

text \<open>A call returning only \<^verbatim>\<open>error\<close>: \<^verbatim>\<open>None\<close> is \<^verbatim>\<open>nil\<close>.\<close>

definition checkE :: "error option \<Rightarrow> unit result" where
  "checkE v = (case v of None \<Rightarrow> Inr () | Some e \<Rightarrow> Inl e)"

lemma bindE_simps [simp]: "bindE (Inl e) f = Inl e" "bindE (Inr x) f = f x"
  by (simp_all add: bindE_def)

lemma bindE_Inr_iff [result_iff]: "bindE m f = Inr y \<longleftrightarrow> (\<exists>x. m = Inr x \<and> f x = Inr y)"
  by (cases m) auto

lemma checkE_simps [simp]: "checkE None = Inr ()" "checkE (Some e) = Inl e"
  by (simp_all add: checkE_def)

lemma checkE_Inr_iff [result_iff]: "checkE v = Inr u \<longleftrightarrow> v = None"
  by (cases v) auto

section \<open>Lists and association lists\<close>

text \<open>
  A Go map is an association list with distinct keys: the list order is the (unspecified)
  iteration order of \<^verbatim>\<open>range\<close>, so a statement about every such list covers every order.
\<close>

abbreviation wf_map :: "('k \<times> 'v) list \<Rightarrow> bool" where
  "wf_map m \<equiv> distinct (map fst m)"

lemma map_of_update_iff: "map_of (AList.update k v m) = (map_of m)(k \<mapsto> v)"
  by (rule update_conv')

lemma map_of_delete_iff: "map_of (AList.delete k m) = (map_of m)(k := None)"
  by (rule delete_conv')

lemma sum_list_map_remove1:
  fixes f :: "'a \<Rightarrow> int"
  assumes "x \<in> set xs"
  shows "sum_list (map f (remove1 x xs)) = sum_list (map f xs) - f x"
  using assms by (induction xs) auto

lemma sum_list_update_alist:
  fixes f :: "'v \<Rightarrow> int"
  assumes "wf_map m"
  shows "(\<Sum>(k', v') \<leftarrow> AList.update k v m. f v') =
    (\<Sum>(k', v') \<leftarrow> m. f v') + f v - (case map_of m k of None \<Rightarrow> 0 | Some w \<Rightarrow> f w)"
  using assms by (induction m) (auto split: option.splits simp: rev_image_eqI)

lemma sum_list_delete_alist:
  fixes f :: "'v \<Rightarrow> int"
  assumes "wf_map m"
  shows "(\<Sum>(k', v') \<leftarrow> AList.delete k m. f v') =
    (\<Sum>(k', v') \<leftarrow> m. f v') - (case map_of m k of None \<Rightarrow> 0 | Some w \<Rightarrow> f w)"
  using assms
proof (induction m)
  case (Cons a m)
  obtain k' v' where a: "a = (k', v')" by (cases a)
  show ?case
  proof (cases "k' = k")
    case True
    with Cons.prems a have "map_of m k = None"
      by (auto simp: map_of_eq_None_iff image_iff)
    then show ?thesis using Cons a True by simp
  next
    case False
    then show ?thesis using Cons a by simp
  qed
qed simp

lemma in_keys: "(k, v) \<in> set m \<Longrightarrow> k \<in> fst ` set m"
  by force

lemma set_update_alist:
  "wf_map m \<Longrightarrow> set (AList.update k v m) = insert (k, v) {p \<in> set m. fst p \<noteq> k}"
  by (induction m) (auto simp: rev_image_eqI)

lemma set_delete_alist: "set (AList.delete k m) = {p \<in> set m. fst p \<noteq> k}"
  by (auto simp: AList.delete_eq)

lemma wf_map_update: "wf_map m \<Longrightarrow> wf_map (AList.update k v m)"
  by (rule distinct_update)

lemma wf_map_delete: "wf_map m \<Longrightarrow> wf_map (AList.delete k m)"
  by (rule distinct_delete)

lemma wf_map_filter: "wf_map m \<Longrightarrow> wf_map (filter P m)"
  by (rule distinct_map_filter)

lemma length_update_alist:
  "wf_map m \<Longrightarrow> length (AList.update k v m) = (if map_of m k = None then Suc (length m) else length m)"
  by (induction m) (auto simp: map_of_eq_None_iff dest: in_keys)

lemma length_delete_alist:
  "wf_map m \<Longrightarrow> length (AList.delete k m) = (if map_of m k = None then length m else length m - 1)"
proof (induction m)
  case (Cons a m)
  have "map_of m k = None \<Longrightarrow> AList.delete k m = m"
    by (simp add: delete_idem map_of_eq_None_iff)
  with Cons show ?case
    by (cases a) (auto simp: map_of_eq_None_iff Suc_diff_1 dest: in_keys map_of_SomeD length_pos_if_in_set)
qed simp

lemma length_delete_present:
  "wf_map m \<Longrightarrow> map_of m k = Some v \<Longrightarrow> int (length (AList.delete k m)) = int (length m) - 1"
  using length_delete_alist [of m k] by (cases m) (auto simp del: delete_simps)

lemma map_of_in_set: "map_of m k = Some v \<Longrightarrow> (k, v) \<in> set m"
  by (rule map_of_SomeD)

end
