(* ===== verification/Wire.thy ===== *)
theory Wire
  imports Prelude
begin

text \<open>
  The wire layer (\<^verbatim>\<open>internal/protocol/wire.go\<close>): byte readers with the exact error behaviour
  of \<^verbatim>\<open>io.ReadFull\<close>, \<^verbatim>\<open>io.LimitedReader\<close> and \<^verbatim>\<open>binary.Read\<close>, length-prefixed fields, and
  the UTF-8, topic-name and topic-filter checks. The locale \<open>wire_reader\<close> is the contract every
  reader keeps: it consumes a prefix of the stream, never more than its limit, and its result does
  not depend on the bytes behind what it consumed.
\<close>

section \<open>Byte streams\<close>

text \<open>
  A connection's input: the bytes the peer delivers, then the error every later read reports
  (\<^verbatim>\<open>EOF\<close>, a timeout, a closed connection). \<open>rN\<close> is the field \<^verbatim>\<open>N\<close> of an enclosing
  \<^verbatim>\<open>io.LimitedReader\<close>, \<open>None\<close> when the reader is not limited.
\<close>

record reader =
  rbuf :: "byte list"
  rfin :: error
  rN :: "nat option"

type_synonym 'a parser = "reader \<Rightarrow> ('a \<times> reader) result"

definition avail :: "reader \<Rightarrow> nat" where
  "avail r = (case rN r of None \<Rightarrow> length (rbuf r) | Some n \<Rightarrow> min n (length (rbuf r)))"

definition remaining :: "reader \<Rightarrow> nat" where
  "remaining r = (case rN r of None \<Rightarrow> 0 | Some n \<Rightarrow> n)"

definition advance :: "nat \<Rightarrow> reader \<Rightarrow> reader" where
  "advance k r = r\<lparr>rbuf := drop k (rbuf r), rN := map_option (\<lambda>n. n - k) (rN r)\<rparr>"

text \<open>
  \<^verbatim>\<open>io.ReadFull\<close> into a buffer of \<open>k\<close> bytes: \<^verbatim>\<open>EOF\<close> when nothing was read,
  \<^verbatim>\<open>ErrUnexpectedEOF\<close> after a partial read that hit \<^verbatim>\<open>EOF\<close>, any other error unchanged.
\<close>

definition readFull :: "nat \<Rightarrow> byte list parser" where
  "readFull k r =
     (if k \<le> avail r then Inr (take k (rbuf r), advance k r)
      else let e = (case rN r of Some n \<Rightarrow> if n \<le> length (rbuf r) then EOF else rfin r
                               | None \<Rightarrow> rfin r)
           in Inl (if 0 < avail r \<and> e = EOF then ErrUnexpectedEOF else e))"

definition readByte :: "byte parser" where
  "readByte r = (case rbuf r of [] \<Rightarrow> Inl (rfin r) | b # _ \<Rightarrow> Inr (b, advance 1 r))"

text \<open>Sequencing of reads with early return on error.\<close>

definition returnP :: "'a \<Rightarrow> 'a parser" where
  "returnP x r = Inr (x, r)"

definition failP :: "error \<Rightarrow> 'a parser" where
  "failP e r = Inl e"

definition bindP :: "'a parser \<Rightarrow> ('a \<Rightarrow> 'b parser) \<Rightarrow> 'b parser" where
  "bindP p f r = (case p r of Inl e \<Rightarrow> Inl e | Inr (x, r') \<Rightarrow> f x r')"

definition checkP :: "error option \<Rightarrow> unit parser" where
  "checkP v = (case v of None \<Rightarrow> returnP () | Some e \<Rightarrow> failP e)"

definition remainingP :: "nat parser" where
  "remainingP r = Inr (remaining r, r)"

text \<open>
  \<^verbatim>\<open>lr := &io.LimitedReader{R: r, N: n}\<close> for the duration of a decoder; the underlying reader is
  what the caller keeps afterwards.
\<close>

definition limitP :: "nat \<Rightarrow> 'a parser \<Rightarrow> 'a parser" where
  "limitP n p r =
     (case p (r\<lparr>rN := Some n\<rparr>) of
        Inl e \<Rightarrow> Inl e
      | Inr (x, r') \<Rightarrow> Inr (x, r'\<lparr>rN := rN r\<rparr>))"

text \<open>\<^verbatim>\<open>binary.Read(r, binary.BigEndian, &uint16)\<close>.\<close>

definition readUint16 :: "u16 parser" where
  "readUint16 = bindP (readFull 2) (\<lambda>bs. returnP (be16 (bs ! 0) (bs ! 1)))"

section \<open>Length-prefixed fields\<close>

definition readBinaryData :: "byte list parser" where
  "readBinaryData = bindP readUint16 (\<lambda>length. readFull (unat length))"

text \<open>
  \<^verbatim>\<open>utf8.ValidString\<close> of the Go standard library: the byte ranges of well-formed UTF-8, so that
  overlong forms, surrogates and code points above U+10FFFF are rejected.
\<close>

definition cont :: "nat \<Rightarrow> nat \<Rightarrow> nat \<Rightarrow> bool" where
  "cont lo hi b \<longleftrightarrow> lo \<le> b \<and> b \<le> hi"

fun utf8_valid :: "nat list \<Rightarrow> bool" where
  "utf8_valid [] = True"
| "utf8_valid (b # bs) =
     (if b < 0x80 then utf8_valid bs
      else if cont 0xC2 0xDF b then
        (case bs of c1 # r \<Rightarrow> cont 0x80 0xBF c1 \<and> utf8_valid r | [] \<Rightarrow> False)
      else if cont 0xE0 0xEF b then
        (case bs of c1 # c2 # r \<Rightarrow>
           cont (if b = 0xE0 then 0xA0 else 0x80) (if b = 0xED then 0x9F else 0xBF) c1
           \<and> cont 0x80 0xBF c2 \<and> utf8_valid r
         | _ \<Rightarrow> False)
      else if cont 0xF0 0xF4 b then
        (case bs of c1 # c2 # c3 # r \<Rightarrow>
           cont (if b = 0xF0 then 0x90 else 0x80) (if b = 0xF4 then 0x8F else 0xBF) c1
           \<and> cont 0x80 0xBF c2 \<and> cont 0x80 0xBF c3 \<and> utf8_valid r
         | _ \<Rightarrow> False)
      else False)"

definition ValidString :: "string \<Rightarrow> bool" where
  "ValidString s = utf8_valid (map of_char s)"

text \<open>\<^verbatim>\<open>strings.ContainsRune(s, 0)\<close> and \<^verbatim>\<open>strings.ContainsAny(s, "+#")\<close>: ASCII, hence bytewise.\<close>

definition containsNUL :: "string \<Rightarrow> bool" where
  "containsNUL s = list_ex (\<lambda>c. (of_char c :: nat) = 0) s"

definition containsWildcard :: "string \<Rightarrow> bool" where
  "containsWildcard s = list_ex (\<lambda>c. c = CHR ''+'' \<or> c = CHR ''#'') s"

definition validateUTF8String :: "string \<Rightarrow> error option" where
  "validateUTF8String v =
     (if length v > 65535 \<or> \<not> ValidString v \<or> containsNUL v
      then Some (New ''invalid mqtt utf-8 string'') else None)"

definition readUTF8String :: "string parser" where
  "readUTF8String =
     bindP readUint16 (\<lambda>length.
     bindP (readFull (unat length)) (\<lambda>buf.
     let value = string_of_bytes buf in
     bindP (checkP (validateUTF8String value)) (\<lambda>_.
     returnP value)))"

section \<open>Topic names and filters\<close>

definition validateTopicName :: "string \<Rightarrow> error option" where
  "validateTopicName v =
     (case validateUTF8String v of
        Some e \<Rightarrow> Some e
      | None \<Rightarrow> if v = '''' \<or> containsWildcard v then Some (New ''invalid topic name'') else None)"

text \<open>The body of the loop over the bytes of a filter: \<open>True\<close> when it does not return an error.\<close>

definition filterByteOk :: "string \<Rightarrow> nat \<Rightarrow> bool" where
  "filterByteOk v i =
     (if v ! i = CHR ''+'' then
        \<not> ((i > 0 \<and> v ! (i - 1) \<noteq> CHR ''/'') \<or> (i + 1 < length v \<and> v ! (i + 1) \<noteq> CHR ''/''))
      else if v ! i = CHR ''#'' then
        \<not> ((i > 0 \<and> v ! (i - 1) \<noteq> CHR ''/'') \<or> i \<noteq> length v - 1)
      else True)"

definition ValidateTopicFilter :: "string \<Rightarrow> error option" where
  "ValidateTopicFilter v =
     (case validateUTF8String v of
        Some e \<Rightarrow> Some e
      | None \<Rightarrow>
          if v = '''' then Some (New ''invalid topic filter'')
          else if list_all (filterByteOk v) [0..<length v] then None
          else Some (New ''invalid topic filter''))"

section \<open>The stream contract\<close>

text \<open>
  \<open>followed_by ys r\<close> is the same stream with further bytes \<open>ys\<close> behind it. A reader that keeps the
  contract consumes exactly a prefix, accounts for it in \<^verbatim>\<open>N\<close>, and is blind to later bytes.
\<close>

definition followed_by :: "byte list \<Rightarrow> reader \<Rightarrow> reader" where
  "followed_by ys r = r\<lparr>rbuf := rbuf r @ ys\<rparr>"

definition consumed :: "nat \<Rightarrow> reader \<Rightarrow> reader \<Rightarrow> bool" where
  "consumed k r r' \<longleftrightarrow> k \<le> avail r \<and> r' = advance k r"

locale wire_reader =
  fixes p :: "'a parser"
  assumes consumes: "p r = Inr (x, r') \<Longrightarrow> \<exists>k. consumed k r r'"
    and blind: "p r = Inr (x, r') \<Longrightarrow> p (followed_by ys r) = Inr (x, followed_by ys r')"
begin

lemma not_longer: "p r = Inr (x, r') \<Longrightarrow> length (rbuf r') \<le> length (rbuf r)"
  by (auto dest!: consumes simp: consumed_def advance_def)

lemma within_limit: "p r = Inr (x, r') \<Longrightarrow> remaining r' \<le> remaining r"
  by (auto dest!: consumes simp: consumed_def advance_def remaining_def split: option.splits)

lemma accounts:
  assumes "p r = Inr (x, r')"
  shows "length (rbuf r) - length (rbuf r') = (case rN r of Some n \<Rightarrow> n - remaining r' | None \<Rightarrow>
    length (rbuf r) - length (rbuf r'))"
  using consumes [OF assms]
  by (auto simp: consumed_def advance_def remaining_def avail_def split: option.splits)

lemma keeps_fin: "p r = Inr (x, r') \<Longrightarrow> rfin r' = rfin r"
  by (auto dest!: consumes simp: consumed_def advance_def)

end

text \<open>
  The same contract for whole-stream readers, which are only run on an unlimited reader.
\<close>

locale stream_reader =
  fixes q :: "'a parser"
  assumes s_consumes: "rN r = None \<Longrightarrow> q r = Inr (x, r') \<Longrightarrow> \<exists>k. consumed k r r'"
    and s_blind: "rN r = None \<Longrightarrow> q r = Inr (x, r') \<Longrightarrow> q (followed_by ys r) = Inr (x, followed_by ys r')"
begin

lemma s_unlimited: "rN r = None \<Longrightarrow> q r = Inr (x, r') \<Longrightarrow> rN r' = None"
  using s_consumes [of r x r'] by (auto simp: consumed_def advance_def)

lemma s_prefix:
  "rN r = None \<Longrightarrow> q r = Inr (x, r') \<Longrightarrow> \<exists>bs. rbuf r = bs @ rbuf r' \<and> rfin r' = rfin r"
  using s_consumes [of r x r']
  by (auto simp: consumed_def advance_def) (metis append_take_drop_id)

end

sublocale wire_reader \<subseteq> stream_reader p
  by unfold_locales (auto dest: consumes blind)

subsection \<open>Closure of the contract\<close>

lemma followed_by_simps [simp]:
  "rN (followed_by ys r) = rN r" "rfin (followed_by ys r) = rfin r" "rbuf (followed_by ys r) = rbuf r @ ys"
  "remaining (followed_by ys r) = remaining r"
  by (simp_all add: followed_by_def remaining_def)

lemma avail_followed_by: "avail r \<le> avail (followed_by ys r)"
  by (auto simp: avail_def min_def split: option.splits)

lemma avail_le: "avail r \<le> length (rbuf r)"
  by (simp add: avail_def split: option.splits)

lemma advance_followed_by: "k \<le> avail r \<Longrightarrow> advance k (followed_by ys r) = followed_by ys (advance k r)"
  using avail_le [of r] by (simp add: advance_def followed_by_def)

lemma consumed_0 [simp]: "consumed 0 r r"
  by (simp add: consumed_def advance_def option.map_ident)

lemma consumed_trans: "consumed j r r' \<Longrightarrow> consumed k r' r'' \<Longrightarrow> consumed (j + k) r r''"
  by (cases "rN r")
    (auto simp: consumed_def advance_def avail_def option.map_comp comp_def add.commute)

lemma wire_reader_returnP [framing]: "wire_reader (returnP x)"
  by unfold_locales (auto simp: returnP_def intro: exI [of _ 0])

lemma wire_reader_failP [framing]: "wire_reader (failP e)"
  by unfold_locales (auto simp: failP_def)

lemma wire_reader_checkP [framing]: "wire_reader (checkP v)"
  by (cases v) (simp_all add: checkP_def framing)

lemma wire_reader_remainingP [framing]: "wire_reader remainingP"
  by unfold_locales (auto simp: remainingP_def intro: exI [of _ 0])

lemma wire_reader_readFull [framing]: "wire_reader (readFull k)"
proof
  fix r x r' ys
  assume "readFull k r = Inr (x, r')"
  then have k: "k \<le> avail r" and x: "x = take k (rbuf r)" and r': "r' = advance k r"
    by (auto simp: readFull_def Let_def split: if_splits)
  from k r' show "\<exists>k. consumed k r r'" by (auto simp: consumed_def)
  from k have "k \<le> avail (followed_by ys r)" using avail_followed_by le_trans by blast
  moreover have "take k (rbuf (followed_by ys r)) = x"
    using k x avail_le [of r] by simp
  ultimately show "readFull k (followed_by ys r) = Inr (x, followed_by ys r')"
    using k r' by (simp add: readFull_def advance_followed_by)
qed

lemma wire_reader_bindP [framing]:
  assumes p: "wire_reader p" and f: "\<And>x. wire_reader (f x)"
  shows "wire_reader (bindP p f)"
proof
  fix r x r' ys
  assume "bindP p f r = Inr (x, r')"
  then obtain y r1 where 1: "p r = Inr (y, r1)" and 2: "f y r1 = Inr (x, r')"
    by (auto simp: bindP_def split: sum.splits prod.splits)
  from wire_reader.consumes [OF p 1] wire_reader.consumes [OF f 2]
  show "\<exists>k. consumed k r r'" by (blast intro: consumed_trans)
  from wire_reader.blind [OF p 1] wire_reader.blind [OF f 2]
  show "bindP p f (followed_by ys r) = Inr (x, followed_by ys r')" by (simp add: bindP_def)
qed

lemma wire_reader_if [framing]:
  "wire_reader p \<Longrightarrow> wire_reader q \<Longrightarrow> wire_reader (if b then p else q)"
  by simp

lemma wire_reader_readUint16 [framing]: "wire_reader readUint16"
  unfolding readUint16_def by (intro framing)

lemma wire_reader_readBinaryData [framing]: "wire_reader readBinaryData"
  unfolding readBinaryData_def by (intro framing)

lemma wire_reader_readUTF8String [framing]: "wire_reader readUTF8String"
  unfolding readUTF8String_def Let_def by (intro framing)

lemma stream_reader_readByte [framing]: "stream_reader readByte"
  by unfold_locales
    (auto simp: readByte_def consumed_def avail_def advance_followed_by split: list.splits
      intro!: exI [of _ 1])

lemma wire_imp_stream [framing]: "wire_reader p \<Longrightarrow> stream_reader p"
  unfolding stream_reader_def wire_reader_def by blast

lemma stream_reader_bindP [framing]:
  assumes p: "stream_reader p" and f: "\<And>x. stream_reader (f x)"
  shows "stream_reader (bindP p f)"
proof
  fix r x r' ys
  assume r: "rN r = None" and "bindP p f r = Inr (x, r')"
  then obtain y r1 where 1: "p r = Inr (y, r1)" and 2: "f y r1 = Inr (x, r')"
    by (auto simp: bindP_def split: sum.splits prod.splits)
  note r1 = stream_reader.s_unlimited [OF p r 1]
  from stream_reader.s_consumes [OF p r 1] stream_reader.s_consumes [OF f r1 2]
  show "\<exists>k. consumed k r r'" by (blast intro: consumed_trans)
  from stream_reader.s_blind [OF p r 1] stream_reader.s_blind [OF f r1 2]
  show "bindP p f (followed_by ys r) = Inr (x, followed_by ys r')" by (simp add: bindP_def)
qed

lemma limit_followed_by: "followed_by ys (r\<lparr>rN := n\<rparr>) = (followed_by ys r)\<lparr>rN := n\<rparr>"
  by (simp add: followed_by_def)

lemma consumed_limit:
  "rN r = None \<Longrightarrow> consumed k (r\<lparr>rN := Some n\<rparr>) r' \<Longrightarrow> consumed k r (r'\<lparr>rN := None\<rparr>)"
  by (auto simp: consumed_def advance_def avail_def)

lemma stream_reader_limitP [framing]:
  assumes p: "wire_reader p"
  shows "stream_reader (limitP n p)"
proof
  fix r x r' ys
  assume r: "rN r = None" and "limitP n p r = Inr (x, r')"
  then obtain r1 where 1: "p (r\<lparr>rN := Some n\<rparr>) = Inr (x, r1)" and r': "r' = r1\<lparr>rN := None\<rparr>"
    by (auto simp: limitP_def split: sum.splits prod.splits)
  from wire_reader.consumes [OF p 1] show "\<exists>k. consumed k r r'"
    unfolding r' using consumed_limit [OF r] by blast
  from wire_reader.blind [OF p 1, of ys] show "limitP n p (followed_by ys r) = Inr (x, followed_by ys r')"
    using r by (simp add: limitP_def limit_followed_by r')
qed

interpretation wr16: wire_reader readUint16 by (rule framing)
interpretation wrbin: wire_reader readBinaryData by (rule framing)
interpretation wrstr: wire_reader readUTF8String by (rule framing)

end
