(* ===== verification/Packet.thy ===== *)
theory Packet
  imports Prelude
begin

text \<open>
  The packets of \<^verbatim>\<open>internal/protocol/packet.go\<close>: one record per packet struct, and the interface
  \<^verbatim>\<open>Packet\<close> as the datatype of the structs that implement it.
\<close>

datatype packet_type =
    PacketTypeConnect | PacketTypeConnAck | PacketTypePublish | PacketTypePubAck
  | PacketTypeSubscribe | PacketTypeSubAck | PacketTypeUnsubscribe | PacketTypeUnsubAck
  | PacketTypePingReq | PacketTypePingResp | PacketTypeDisconnect

fun packet_type_code :: "packet_type \<Rightarrow> byte" where
  "packet_type_code PacketTypeConnect = 1"
| "packet_type_code PacketTypeConnAck = 2"
| "packet_type_code PacketTypePublish = 3"
| "packet_type_code PacketTypePubAck = 4"
| "packet_type_code PacketTypeSubscribe = 8"
| "packet_type_code PacketTypeSubAck = 9"
| "packet_type_code PacketTypeUnsubscribe = 10"
| "packet_type_code PacketTypeUnsubAck = 11"
| "packet_type_code PacketTypePingReq = 12"
| "packet_type_code PacketTypePingResp = 13"
| "packet_type_code PacketTypeDisconnect = 14"

record will_message =
  wTopic :: string
  wPayload :: "byte list"
  wQoS :: byte
  wRetain :: bool

record connect_packet =
  cProtocolName :: string
  cProtocolLevel :: byte
  cCleanSession :: bool
  cKeepAlive :: u16
  cClientID :: string
  cWill :: "will_message option"
  cUsername :: "string option"
  cPassword :: "string option"

datatype connack_code =
    ConnAckAccepted | ConnAckServerUnavailable | ConnAckBadCredentials | ConnAckNotAuthorized

fun connack_code_byte :: "connack_code \<Rightarrow> byte" where
  "connack_code_byte ConnAckAccepted = 0x00"
| "connack_code_byte ConnAckServerUnavailable = 0x03"
| "connack_code_byte ConnAckBadCredentials = 0x04"
| "connack_code_byte ConnAckNotAuthorized = 0x05"

record connack_packet =
  caSessionPresent :: bool
  caReturnCode :: connack_code

record publish_packet =
  pTopic :: string
  pPayload :: "byte list"
  pRetain :: bool
  pDUP :: bool
  pQoS :: byte
  pPacketID :: u16

record wire_subscription =
  sTopic :: string
  sQoS :: byte

record subscribe_packet =
  spPacketID :: u16
  spSubscriptions :: "wire_subscription list"

record suback_packet =
  saPacketID :: u16
  saReturnCodes :: "byte list"

record unsubscribe_packet =
  upPacketID :: u16
  upTopics :: "string list"

datatype packet =
    ConnectPacket connect_packet
  | ConnAckPacket connack_packet
  | PublishPacket publish_packet
  | PubAckPacket u16
  | SubscribePacket subscribe_packet
  | SubAckPacket suback_packet
  | UnsubscribePacket unsubscribe_packet
  | UnsubAckPacket u16
  | PingReqPacket
  | PingRespPacket
  | DisconnectPacket

fun packet_Type :: "packet \<Rightarrow> packet_type" where
  "packet_Type (ConnectPacket _) = PacketTypeConnect"
| "packet_Type (ConnAckPacket _) = PacketTypeConnAck"
| "packet_Type (PublishPacket _) = PacketTypePublish"
| "packet_Type (PubAckPacket _) = PacketTypePubAck"
| "packet_Type (SubscribePacket _) = PacketTypeSubscribe"
| "packet_Type (SubAckPacket _) = PacketTypeSubAck"
| "packet_Type (UnsubscribePacket _) = PacketTypeUnsubscribe"
| "packet_Type (UnsubAckPacket _) = PacketTypeUnsubAck"
| "packet_Type PingReqPacket = PacketTypePingReq"
| "packet_Type PingRespPacket = PacketTypePingResp"
| "packet_Type DisconnectPacket = PacketTypeDisconnect"

lemma packet_type_code_inj: "packet_type_code a = packet_type_code b \<longleftrightarrow> a = b"
  by (cases a; cases b) simp_all

end
