(* ===== verification/Decoder.thy ===== *)
theory Decoder
  imports Wire Packet
begin

text \<open>
  The packet decoder (\<^verbatim>\<open>internal/protocol/decoder.go\<close>). Every function below is written with the
  checks of the source in their order; \<open>bindP\<close> is the early return on error. The body of a packet is
  read through \<open>limitP\<close>, the \<^verbatim>\<open>io.LimitedReader\<close> of the source.
\<close>

section \<open>Fixed header\<close>

definition MaxRemainingLength :: nat where
  "MaxRemainingLength = 268435455"

definition MaxPacketSize :: nat where
  "MaxPacketSize = MaxRemainingLength + 5"

text \<open>The loop \<^verbatim>\<open>for i := range 4\<close>; \<open>fuel\<close> counts the iterations left, so it is \<open>4 - i\<close>.\<close>

fun decodeRemainingLoop :: "nat \<Rightarrow> nat \<Rightarrow> nat \<Rightarrow> nat \<Rightarrow> (nat \<times> nat) parser" where
  "decodeRemainingLoop 0 i multiplier v = failP ErrUnexpectedEOF"
| "decodeRemainingLoop (Suc fuel) i multiplier v =
     bindP (readFull 1) (\<lambda>bs.
     let digit = bs ! 0;
         v' = v + unat (digit AND 127) * multiplier
     in if digit AND 128 = 0 then returnP (v', i + 1)
        else decodeRemainingLoop fuel (i + 1) (multiplier * 128) v')"

definition decodeRemainingLength :: "(nat \<times> nat) parser" where
  "decodeRemainingLength = decodeRemainingLoop 4 0 1 0"

section \<open>CONNECT\<close>

record connect_flags =
  cleanSession :: bool
  willFlag :: bool
  willQoS :: byte
  willRetain :: bool
  usernameFlag :: bool
  passwordFlag :: bool

definition decodeConnectFlags :: "byte \<Rightarrow> connect_flags result" where
  "decodeConnectFlags b =
     (if b AND 0x01 \<noteq> 0 then Inl (New ''reserved connect flag must be 0'')
      else let f = \<lparr>cleanSession = (b AND 0x02 \<noteq> 0), willFlag = (b AND 0x04 \<noteq> 0),
                    willQoS = drop_bit 3 b AND 0x03, willRetain = (b AND 0x20 \<noteq> 0),
                    usernameFlag = (b AND 0x80 \<noteq> 0), passwordFlag = (b AND 0x40 \<noteq> 0)\<rparr>
           in if \<not> willFlag f \<and> (willQoS f \<noteq> 0 \<or> willRetain f)
              then Inl (New ''will QoS and retain must be 0 when will flag is not set'')
              else if passwordFlag f \<and> \<not> usernameFlag f
              then Inl (New ''password flag requires username flag'')
              else Inr f)"

definition liftP :: "'a result \<Rightarrow> 'a parser" where
  "liftP m = (case m of Inl e \<Rightarrow> failP e | Inr x \<Rightarrow> returnP x)"

definition decodeWill :: "byte \<Rightarrow> bool \<Rightarrow> will_message parser" where
  "decodeWill qos retain =
     bindP readUTF8String (\<lambda>topic.
     bindP (checkP (validateTopicName topic)) (\<lambda>_.
     bindP readBinaryData (\<lambda>payload.
     returnP \<lparr>wTopic = topic, wPayload = payload, wQoS = qos, wRetain = retain\<rparr>)))"

text \<open>An optional field: \<^verbatim>\<open>nil\<close> unless its flag is set.\<close>

definition optionalP :: "bool \<Rightarrow> 'a parser \<Rightarrow> 'a option parser" where
  "optionalP b p = (if b then bindP p (\<lambda>x. returnP (Some x)) else returnP None)"

definition decodeConnectBody :: "connect_packet parser" where
  "decodeConnectBody =
     bindP readUTF8String (\<lambda>protoName.
     bindP (checkP (if protoName \<noteq> ''MQTT'' then Some (New ''invalid protocol name'') else None)) (\<lambda>_.
     bindP (readFull 1) (\<lambda>level.
     bindP (checkP (if level ! 0 \<noteq> 0x04 then Some (New ''unsupported protocol level'') else None)) (\<lambda>_.
     bindP (readFull 1) (\<lambda>flagsByte.
     bindP (liftP (decodeConnectFlags (flagsByte ! 0))) (\<lambda>flags.
     bindP readUint16 (\<lambda>keepAlive.
     bindP readUTF8String (\<lambda>clientID.
     bindP (checkP (if clientID = '''' \<and> \<not> cleanSession flags
                    then Some (New ''clientID must be present if clean session is false'') else None)) (\<lambda>_.
     bindP (optionalP (willFlag flags) (decodeWill (willQoS flags) (willRetain flags))) (\<lambda>will.
     bindP (optionalP (usernameFlag flags) readUTF8String) (\<lambda>username.
     bindP (optionalP (passwordFlag flags)
              (bindP readBinaryData (\<lambda>data. returnP (string_of_bytes data)))) (\<lambda>password.
     bindP remainingP (\<lambda>n.
     bindP (checkP (if n \<noteq> 0 then Some (New ''malformed CONNECT packet: extra bytes'') else None)) (\<lambda>_.
     returnP \<lparr>cProtocolName = protoName, cProtocolLevel = level ! 0,
              cCleanSession = cleanSession flags, cKeepAlive = keepAlive,
              cClientID = clientID, cWill = will,
              cUsername = username, cPassword = password\<rparr>))))))))))))))"

definition decodeConnect :: "nat \<Rightarrow> connect_packet parser" where
  "decodeConnect remainingLength = limitP remainingLength decodeConnectBody"

section \<open>PUBLISH and PUBACK\<close>

definition readPacketID :: "u16 parser" where
  "readPacketID =
     bindP readUint16 (\<lambda>packetID.
     if packetID = 0 then failP (New ''invalid packet identifier'') else returnP packetID)"

definition decodePublishBody :: "byte \<Rightarrow> bool \<Rightarrow> bool \<Rightarrow> publish_packet parser" where
  "decodePublishBody qos dup retain =
     bindP readUTF8String (\<lambda>topic.
     bindP (checkP (validateTopicName topic)) (\<lambda>_.
     bindP (if qos > 0 then readPacketID else returnP 0) (\<lambda>packetID.
     bindP remainingP (\<lambda>n.
     bindP (readFull n) (\<lambda>payload.
     returnP \<lparr>pTopic = topic, pPayload = payload, pRetain = retain,
              pDUP = dup, pQoS = qos, pPacketID = packetID\<rparr>)))))"

definition decodePublish :: "nat \<Rightarrow> byte \<Rightarrow> bool \<Rightarrow> bool \<Rightarrow> publish_packet parser" where
  "decodePublish remainingLength qos dup retain =
     limitP remainingLength (decodePublishBody qos dup retain)"

definition decodePubAck :: "nat \<Rightarrow> u16 parser" where
  "decodePubAck remainingLength =
     (if remainingLength \<noteq> 2 then failP (New ''invalid PUBACK packet'') else readPacketID)"

section \<open>SUBSCRIBE and UNSUBSCRIBE\<close>

lemma readFull_remaining:
  "readFull k r = Inr (x, r') \<Longrightarrow> remaining r' = remaining r - k"
  by (auto simp: readFull_def advance_def remaining_def Let_def split: if_splits option.splits)

lemma readUint16_remaining:
  "readUint16 r = Inr (x, r') \<Longrightarrow> remaining r' = remaining r - 2"
  by (auto simp: readUint16_def bindP_def returnP_def readFull_remaining
      split: sum.splits prod.splits)

lemma readUTF8String_remaining:
  assumes "readUTF8String r = Inr (x, r')" "0 < remaining r"
  shows "remaining r' < remaining r"
proof -
  from assms(1) obtain n r1 where n: "readUint16 r = Inr (n, r1)"
    and 2: "bindP (readFull (unat n)) (\<lambda>buf. bindP (checkP (validateUTF8String (string_of_bytes buf)))
      (\<lambda>_. returnP (string_of_bytes buf))) r1 = Inr (x, r')"
    by (auto simp: readUTF8String_def bindP_def [of readUint16] Let_def
        split: sum.splits prod.splits)
  have "wire_reader (bindP (readFull (unat n))
      (\<lambda>buf. bindP (checkP (validateUTF8String (string_of_bytes buf)))
      (\<lambda>_. returnP (string_of_bytes buf))))"
    by (intro framing)
  from wire_reader.within_limit [OF this 2] have "remaining r' \<le> remaining r1" .
  with readUint16_remaining [OF n] assms(2) show ?thesis by simp
qed

function decodeSubscriptions :: "wire_subscription list \<Rightarrow> wire_subscription list parser" where
  "decodeSubscriptions subs r =
     (if remaining r = 0 then Inr (subs, r)
      else case readUTF8String r of
        Inl e \<Rightarrow> Inl e
      | Inr (topic, r1) \<Rightarrow>
          (case ValidateTopicFilter topic of
             Some e \<Rightarrow> Inl e
           | None \<Rightarrow>
               (case readFull 1 r1 of
                  Inl e \<Rightarrow> Inl e
                | Inr (qos, r2) \<Rightarrow>
                    if qos ! 0 > 2 then Inl (New ''invalid QoS level'')
                    else decodeSubscriptions (subs @ [\<lparr>sTopic = topic, sQoS = qos ! 0\<rparr>]) r2)))"
  by pat_completeness auto
termination
  by (relation "measure (\<lambda>(subs, r). remaining r)")
    (auto dest!: readUTF8String_remaining readFull_remaining)

declare decodeSubscriptions.simps [simp del]

definition decodeSubscribeBody :: "subscribe_packet parser" where
  "decodeSubscribeBody =
     bindP readPacketID (\<lambda>packetID.
     bindP (decodeSubscriptions []) (\<lambda>subs.
     if length subs = 0 then failP (New ''subscribe must contain at least one topic'')
     else returnP \<lparr>spPacketID = packetID, spSubscriptions = subs\<rparr>))"

definition decodeSubscribe :: "nat \<Rightarrow> subscribe_packet parser" where
  "decodeSubscribe remainingLength = limitP remainingLength decodeSubscribeBody"

function decodeTopics :: "string list \<Rightarrow> string list parser" where
  "decodeTopics topics r =
     (if remaining r = 0 then Inr (topics, r)
      else case readUTF8String r of
        Inl e \<Rightarrow> Inl e
      | Inr (topic, r1) \<Rightarrow>
          (case ValidateTopicFilter topic of
             Some e \<Rightarrow> Inl e
           | None \<Rightarrow> decodeTopics (topics @ [topic]) r1))"
  by pat_completeness auto
termination
  by (relation "measure (\<lambda>(topics, r). remaining r)")
    (auto dest!: readUTF8String_remaining)

declare decodeTopics.simps [simp del]

definition decodeUnsubscribeBody :: "unsubscribe_packet parser" where
  "decodeUnsubscribeBody =
     bindP readPacketID (\<lambda>packetID.
     bindP (decodeTopics []) (\<lambda>topics.
     if length topics = 0 then failP (New ''unsubscribe must contain at least one topic'')
     else returnP \<lparr>upPacketID = packetID, upTopics = topics\<rparr>))"

definition decodeUnsubscribe :: "nat \<Rightarrow> unsubscribe_packet parser" where
  "decodeUnsubscribe remainingLength = limitP remainingLength decodeUnsubscribeBody"

section \<open>Decode\<close>

definition mapP :: "('a \<Rightarrow> 'b) \<Rightarrow> 'a parser \<Rightarrow> 'b parser" where
  "mapP f p = bindP p (\<lambda>x. returnP (f x))"

text \<open>The switch on the packet type, after the fixed header was read.\<close>

definition decodeBody :: "byte \<Rightarrow> byte \<Rightarrow> nat \<Rightarrow> packet parser" where
  "decodeBody packetType flags remainingLength =
     (if packetType = packet_type_code PacketTypeConnect then
        if flags \<noteq> 0 then failP (New ''invalid CONNECT flags'')
        else mapP ConnectPacket (decodeConnect remainingLength)
      else if packetType = packet_type_code PacketTypePingReq then
        if flags \<noteq> 0 \<or> remainingLength \<noteq> 0 then failP (New ''invalid PINGREQ packet'')
        else returnP PingReqPacket
      else if packetType = packet_type_code PacketTypePublish then
        let qos = drop_bit 1 flags AND 0x03; dup = (flags AND 0x08 \<noteq> 0);
            retain = (flags AND 0x01 \<noteq> 0)
        in if qos = 0x03 then failP (New ''invalid QoS level'')
           else if qos = 0 \<and> dup then failP (New ''invalid DUP flag for QoS 0'')
           else mapP PublishPacket (decodePublish remainingLength qos dup retain)
      else if packetType = packet_type_code PacketTypePubAck then
        if flags \<noteq> 0 then failP (New ''invalid PUBACK flags'')
        else mapP PubAckPacket (decodePubAck remainingLength)
      else if packetType = packet_type_code PacketTypeSubscribe then
        if flags \<noteq> 0x02 then failP (New ''invalid SUBSCRIBE flags'')
        else mapP SubscribePacket (decodeSubscribe remainingLength)
      else if packetType = packet_type_code PacketTypeUnsubscribe then
        if flags \<noteq> 0x02 then failP (New ''invalid UNSUBSCRIBE flags'')
        else mapP UnsubscribePacket (decodeUnsubscribe remainingLength)
      else if packetType = packet_type_code PacketTypeDisconnect then
        if flags \<noteq> 0 \<or> remainingLength \<noteq> 0 then failP (New ''invalid DISCONNECT packet'')
        else returnP DisconnectPacket
      else failP (New ''unsupported packet type''))"

definition DecodeWithLimit :: "int \<Rightarrow> packet parser" where
  "DecodeWithLimit maxPacketSize =
     (if maxPacketSize \<le> 0 \<or> maxPacketSize > int MaxPacketSize
      then failP (New ''invalid maximum packet size'')
      else
        bindP readByte (\<lambda>b1.
        bindP decodeRemainingLength (\<lambda>(remainingLength, lengthBytes).
        if int (1 + lengthBytes + remainingLength) > maxPacketSize then failP ErrPacketTooLarge
        else decodeBody (drop_bit 4 b1) (b1 AND 0x0F) remainingLength)))"

definition Decode :: "packet parser" where
  "Decode = DecodeWithLimit (int MaxPacketSize)"

section \<open>The decoders keep the stream contract\<close>

lemma bindP_Inr_iff [result_iff]:
  "bindP p f r = Inr z \<longleftrightarrow> (\<exists>x r1. p r = Inr (x, r1) \<and> f x r1 = Inr z)"
  by (auto simp: bindP_def split: sum.splits prod.splits)

lemma bindP_Inr [simp]: "p r = Inr (x, r1) \<Longrightarrow> bindP p f r = f x r1"
  by (simp add: bindP_def)

lemma returnP_Inr_iff [result_iff]: "returnP x r = Inr (y, r') \<longleftrightarrow> y = x \<and> r' = r"
  by (auto simp: returnP_def)

lemma failP_Inr_iff [result_iff]: "failP e r = Inr z \<longleftrightarrow> False"
  by (simp add: failP_def)

lemma checkP_Inr_iff [result_iff]: "checkP v r = Inr (u, r') \<longleftrightarrow> v = None \<and> r' = r"
  by (cases v) (auto simp: checkP_def result_iff)

lemma remainingP_Inr_iff [result_iff]:
  "remainingP r = Inr (n, r') \<longleftrightarrow> n = remaining r \<and> r' = r"
  by (auto simp: remainingP_def)

lemma liftP_Inr_iff [result_iff]: "liftP m r = Inr (x, r') \<longleftrightarrow> m = Inr x \<and> r' = r"
  by (cases m) (auto simp: liftP_def result_iff)

lemma mapP_Inr_iff [result_iff]: "mapP f p r = Inr (y, r') \<longleftrightarrow> (\<exists>x. p r = Inr (x, r') \<and> y = f x)"
  by (auto simp: mapP_def result_iff)

lemma wire_reader_liftP [framing]: "wire_reader (liftP m)"
  by (cases m) (simp_all add: liftP_def framing)

lemma wire_reader_optionalP [framing]: "wire_reader p \<Longrightarrow> wire_reader (optionalP b p)"
  by (simp add: optionalP_def framing)

lemma wire_reader_decodeWill [framing]: "wire_reader (decodeWill qos retain)"
  unfolding decodeWill_def by (intro framing)

lemma wire_reader_decodeConnectBody [framing]: "wire_reader decodeConnectBody"
  unfolding decodeConnectBody_def by (intro framing)

lemma wire_reader_readPacketID [framing]: "wire_reader readPacketID"
  unfolding readPacketID_def by (intro framing)

lemma wire_reader_decodePublishBody [framing]: "wire_reader (decodePublishBody qos dup retain)"
  unfolding decodePublishBody_def by (intro framing)

lemma wire_reader_decodePubAck [framing]: "wire_reader (decodePubAck n)"
  unfolding decodePubAck_def by (intro framing)

interpretation wrfull: wire_reader "readFull k" for k by (rule framing)

lemma decodeSubscriptions_done [simp]:
  "remaining r = 0 \<Longrightarrow> decodeSubscriptions subs r = Inr (subs, r)"
  by (subst decodeSubscriptions.simps) simp

lemma decodeTopics_done [simp]: "remaining r = 0 \<Longrightarrow> decodeTopics topics r = Inr (topics, r)"
  by (subst decodeTopics.simps) simp

lemma decodeSubscriptions_contract:
  "decodeSubscriptions subs r = Inr (x, r') \<Longrightarrow>
    (\<exists>k. consumed k r r') \<and> decodeSubscriptions subs (followed_by ys r) = Inr (x, followed_by ys r')
    \<and> remaining r' = 0"
proof (induction subs r rule: decodeSubscriptions.induct)
  case (1 subs r)
  show ?case
  proof (cases "remaining r = 0")
    case True
    with "1.prems" show ?thesis
      by (auto intro: exI [of _ 0])
  next
    case False
    with "1.prems" obtain topic r1 qos r2 where
      s: "readUTF8String r = Inr (topic, r1)" "ValidateTopicFilter topic = None"
         "readFull 1 r1 = Inr (qos, r2)" "\<not> qos ! 0 > 2"
      and rest: "decodeSubscriptions (subs @ [\<lparr>sTopic = topic, sQoS = qos ! 0\<rparr>]) r2 = Inr (x, r')"
      by (auto simp: decodeSubscriptions.simps [of subs r] split: sum.splits prod.splits option.splits if_splits)
    from "1.IH" [OF False s(1) _ s(2,3) _ s(4) rest] have IH:
      "\<exists>k. consumed k r2 r'" "remaining r' = 0"
      "decodeSubscriptions (subs @ [\<lparr>sTopic = topic, sQoS = qos ! 0\<rparr>]) (followed_by ys r2) = Inr (x, followed_by ys r')"
      by auto
    have b: "readUTF8String (followed_by ys r) = Inr (topic, followed_by ys r1)"
        "readFull 1 (followed_by ys r1) = Inr (qos, followed_by ys r2)"
      using s wrstr.blind wrfull.blind by blast+
    have "decodeSubscriptions subs (followed_by ys r) = Inr (x, followed_by ys r')"
      using False s b IH(3) by (simp add: decodeSubscriptions.simps [of subs "followed_by ys r"])
    moreover have "\<exists>k. consumed k r r'"
      using wrstr.consumes [OF s(1)] wrfull.consumes [OF s(3)] IH(1) by (blast intro: consumed_trans)
    ultimately show ?thesis using IH(2) by blast
  qed
qed

lemma decodeTopics_contract:
  "decodeTopics topics r = Inr (x, r') \<Longrightarrow>
    (\<exists>k. consumed k r r') \<and> decodeTopics topics (followed_by ys r) = Inr (x, followed_by ys r')
    \<and> remaining r' = 0"
proof (induction topics r rule: decodeTopics.induct)
  case (1 topics r)
  show ?case
  proof (cases "remaining r = 0")
    case True
    with "1.prems" show ?thesis
      by (auto intro: exI [of _ 0])
  next
    case False
    with "1.prems" obtain topic r1 where
      s: "readUTF8String r = Inr (topic, r1)" "ValidateTopicFilter topic = None"
      and rest: "decodeTopics (topics @ [topic]) r1 = Inr (x, r')"
      by (auto simp: decodeTopics.simps [of topics r] split: sum.splits prod.splits option.splits)
    from "1.IH" [OF False s(1) _ s(2) rest] have IH:
      "\<exists>k. consumed k r1 r'" "remaining r' = 0"
      "decodeTopics (topics @ [topic]) (followed_by ys r1) = Inr (x, followed_by ys r')"
      by auto
    have "decodeTopics topics (followed_by ys r) = Inr (x, followed_by ys r')"
      using False s wrstr.blind [OF s(1), of ys] IH(3)
      by (simp add: decodeTopics.simps [of topics "followed_by ys r"])
    moreover have "\<exists>k. consumed k r r'"
      using wrstr.consumes [OF s(1)] IH(1) by (blast intro: consumed_trans)
    ultimately show ?thesis using IH(2) by blast
  qed
qed

lemma wire_reader_decodeSubscriptions [framing]: "wire_reader (decodeSubscriptions subs)"
  by unfold_locales (use decodeSubscriptions_contract in blast)+

lemma wire_reader_decodeTopics [framing]: "wire_reader (decodeTopics topics)"
  by unfold_locales (use decodeTopics_contract in blast)+

lemma wire_reader_decodeSubscribeBody [framing]: "wire_reader decodeSubscribeBody"
  unfolding decodeSubscribeBody_def by (intro framing)

lemma wire_reader_decodeUnsubscribeBody [framing]: "wire_reader decodeUnsubscribeBody"
  unfolding decodeUnsubscribeBody_def by (intro framing)

lemma wire_reader_decodeRemainingLoop [framing]: "wire_reader (decodeRemainingLoop fuel i m v)"
proof (induction fuel arbitrary: i m v)
  case 0
  then show ?case by (simp add: framing)
next
  case (Suc fuel)
  then show ?case by (auto simp: Let_def intro!: framing)
qed

lemma wire_reader_decodeRemainingLength [framing]: "wire_reader decodeRemainingLength"
  unfolding decodeRemainingLength_def by (intro framing)

subsection \<open>A decoded body is used up\<close>

text \<open>
  Each body decoder that succeeds leaves \<^verbatim>\<open>lr.N = 0\<close>, so a decoded packet ends exactly where its
  remaining-length field says.
\<close>

lemma decodeConnectBody_exact: "decodeConnectBody r = Inr (x, r') \<Longrightarrow> remaining r' = 0"
  by (auto simp: decodeConnectBody_def result_iff split: if_splits)

lemma decodePublishBody_exact:
  "decodePublishBody qos dup retain r = Inr (x, r') \<Longrightarrow> remaining r' = 0"
  by (auto simp: decodePublishBody_def result_iff dest!: readFull_remaining simp del: bindP_Inr)

lemma decodeSubscribeBody_exact: "decodeSubscribeBody r = Inr (x, r') \<Longrightarrow> remaining r' = 0"
  by (auto simp: decodeSubscribeBody_def result_iff dest: decodeSubscriptions_contract
      split: if_splits)

lemma decodeUnsubscribeBody_exact: "decodeUnsubscribeBody r = Inr (x, r') \<Longrightarrow> remaining r' = 0"
  by (auto simp: decodeUnsubscribeBody_def result_iff dest: decodeTopics_contract split: if_splits)

lemma consumed_exact:
  assumes "rN r = None" "consumed k (r\<lparr>rN := Some n\<rparr>) r'" "remaining r' = 0"
  shows "consumed n r (r'\<lparr>rN := None\<rparr>)"
  using assms by (auto simp: consumed_def advance_def avail_def remaining_def)

lemma limitP_exact:
  assumes p: "wire_reader p" and e: "\<And>r x r'. p r = Inr (x, r') \<Longrightarrow> remaining r' = 0"
    and r: "rN r = None" and s: "limitP n p r = Inr (x, r')"
  shows "consumed n r r'"
proof -
  from r s obtain r1 where 1: "p (r\<lparr>rN := Some n\<rparr>) = Inr (x, r1)" and r': "r' = r1\<lparr>rN := None\<rparr>"
    by (auto simp: limitP_def split: sum.splits prod.splits)
  from wire_reader.consumes [OF p 1] e [OF 1] show ?thesis
    unfolding r' using consumed_exact [OF r] by blast
qed

lemmas exact_bodies =
  limitP_exact [OF wire_reader_decodeConnectBody decodeConnectBody_exact]
  limitP_exact [OF wire_reader_decodePublishBody decodePublishBody_exact]
  limitP_exact [OF wire_reader_decodeSubscribeBody decodeSubscribeBody_exact]
  limitP_exact [OF wire_reader_decodeUnsubscribeBody decodeUnsubscribeBody_exact]

lemma readFull_consumed: "readFull k r = Inr (x, r') \<Longrightarrow> consumed k r r'"
  by (auto simp: readFull_def consumed_def Let_def split: if_splits)

lemma readPacketID_consumed: "readPacketID r = Inr (x, r') \<Longrightarrow> consumed 2 r r'"
  by (auto simp: readPacketID_def readUint16_def result_iff dest!: readFull_consumed split: if_splits)

lemma decodeBody_exact:
  assumes "rN r = None" "decodeBody t flags n r = Inr (x, r')"
  shows "consumed n r r'"
  using assms
  by (auto simp: decodeBody_def decodeConnect_def decodePublish_def decodePubAck_def
      decodeSubscribe_def decodeUnsubscribe_def result_iff Let_def
      intro: exact_bodies dest: readPacketID_consumed split: if_splits)

lemma stream_reader_if [framing]:
  "stream_reader p \<Longrightarrow> stream_reader q \<Longrightarrow> stream_reader (if b then p else q)"
  by simp

lemma stream_reader_mapP [framing]: "stream_reader p \<Longrightarrow> stream_reader (mapP f p)"
  unfolding mapP_def by (intro stream_reader_bindP) (auto intro: framing)

lemma stream_reader_decodeBody [framing]: "stream_reader (decodeBody t flags n)"
  unfolding decodeBody_def decodeConnect_def decodePublish_def decodeSubscribe_def
    decodeUnsubscribe_def Let_def
  by (intro stream_reader_if stream_reader_mapP stream_reader_limitP) (auto intro: framing)

lemma decodeRemainingLoop_bounds:
  assumes "decodeRemainingLoop fuel i m v r = Inr ((n, lb), r')" "v < m"
  shows "n < m * 128 ^ fuel \<and> i < lb \<and> lb \<le> i + fuel \<and> consumed (lb - i) r r'"
  using assms
proof (induction fuel arbitrary: i m v r)
  case 0
  then show ?case by (simp add: result_iff)
next
  case (Suc fuel)
  from Suc.prems obtain bs r1 where 1: "readFull 1 r = Inr (bs, r1)"
    and 2: "(let digit = bs ! 0; v' = v + unat (digit AND 127) * m
       in if digit AND 128 = 0 then returnP (v', i + 1)
          else decodeRemainingLoop fuel (i + 1) (m * 128) v') r1 = Inr ((n, lb), r')"
    by (auto simp: result_iff)
  let ?v = "v + unat (bs ! 0 AND 127) * m"
  have "bs ! 0 AND 127 \<le> 127" by (rule word_and_le1)
  then have "unat (bs ! 0 AND 127) \<le> 127" by (simp add: word_le_nat_alt)
  then have "unat (bs ! 0 AND 127) * m \<le> 127 * m" by (rule mult_le_mono1)
  with Suc.prems(2) have v: "?v < m * 128" by linarith
  from readFull_consumed [OF 1] have c: "consumed 1 r r1" .
  show ?case
  proof (cases "bs ! 0 AND 128 = 0")
    case True
    with 2 have "n = ?v" "lb = i + 1" "r' = r1" by (auto simp: result_iff)
    moreover have "?v < m * 128 ^ Suc fuel"
      by (rule less_le_trans [OF v]) simp
    ultimately show ?thesis using c by auto
  next
    case False
    with 2 have "decodeRemainingLoop fuel (i + 1) (m * 128) ?v r1 = Inr ((n, lb), r')"
      by (simp add: Let_def)
    from Suc.IH [OF this v] have IH: "n < m * 128 * 128 ^ fuel" "i + 1 < lb" "lb \<le> i + 1 + fuel"
      "consumed (lb - (i + 1)) r1 r'" by auto
    from IH(2) have "1 + (lb - (i + 1)) = lb - i" by simp
    with consumed_trans [OF c IH(4)] have "consumed (lb - i) r r'" by simp
    with IH(1-3) show ?thesis by (simp add: mult.assoc)
  qed
qed

lemma decodeRemainingLength_bounds:
  assumes "decodeRemainingLength r = Inr ((n, lb), r')"
  shows "n \<le> MaxRemainingLength \<and> 1 \<le> lb \<and> lb \<le> 4 \<and> consumed lb r r'"
  using decodeRemainingLoop_bounds [OF assms [unfolded decodeRemainingLength_def]]
  by (simp add: MaxRemainingLength_def)

lemma stream_reader_DecodeWithLimit [framing]: "stream_reader (DecodeWithLimit m)"
  unfolding DecodeWithLimit_def
  by (intro stream_reader_if stream_reader_bindP) (auto intro: framing split: prod.splits)

interpretation dec: stream_reader "DecodeWithLimit m" for m
  by (rule framing)

lemma decodeRemainingLength_run:
  "decodeRemainingLength = decodeRemainingLoop (Suc (Suc (Suc (Suc 0)))) 0 1 0"
  by (simp add: decodeRemainingLength_def numeral_eq_Suc)

lemmas decoder_run = DecodeWithLimit_def MaxPacketSize_def MaxRemainingLength_def bindP_def
  readByte_def advance_def decodeRemainingLength_run readFull_def avail_def returnP_def failP_def
  decodeBody_def

text \<open>
  C17: a packet that \<^verbatim>\<open>DecodeWithLimit\<close> returns is exactly one frame: one type byte, the one to four
  bytes of the remaining length and as many body bytes as that length says; the whole frame is within
  the limit, and the bytes of the next packet are left untouched in the stream.
\<close>

theorem DecodeWithLimit_frame:
  assumes "rN r = None" and "DecodeWithLimit m r = Inr (p, r')"
  shows "\<exists>n lb r1. decodeRemainingLength (advance 1 r) = Inr ((n, lb), r1)
    \<and> 1 \<le> lb \<and> lb \<le> 4 \<and> int (1 + lb + n) \<le> m
    \<and> rbuf r = take (1 + lb + n) (rbuf r) @ rbuf r'
    \<and> length (rbuf r) = 1 + lb + n + length (rbuf r')"
proof -
  from assms(2) obtain b r0 n lb r1 where
    b: "readByte r = Inr (b, r0)" and l: "decodeRemainingLength r0 = Inr ((n, lb), r1)"
    and m: "int (1 + lb + n) \<le> m"
    and d: "decodeBody (drop_bit 4 b) (b AND 0x0F) n r1 = Inr (p, r')"
    by (auto simp: DecodeWithLimit_def result_iff split: if_splits)
  from b assms(1) have r0: "r0 = advance 1 r" and c0: "consumed 1 r r0"
    by (auto simp: readByte_def consumed_def avail_def split: list.splits)
  from decodeRemainingLength_bounds [OF l] have lb: "1 \<le> lb" "lb \<le> 4" and c1: "consumed lb r0 r1"
    by auto
  from assms(1) r0 c1 have "rN r1 = None" by (simp add: consumed_def advance_def)
  from decodeBody_exact [OF this d] have "consumed n r1 r'" .
  with c0 c1 have "consumed (1 + lb + n) r r'" by (blast intro: consumed_trans)
  then have "rbuf r = take (1 + lb + n) (rbuf r) @ rbuf r'"
    and "length (rbuf r) = 1 + lb + n + length (rbuf r')"
    using assms(1) by (auto simp: consumed_def advance_def avail_def)
  with l lb m r0 show ?thesis by blast
qed

theorem DecodeWithLimit_frame_witness:
  "DecodeWithLimit 100 \<lparr>rbuf = [0xC0, 0, 0xE0, 0], rfin = EOF, rN = None\<rparr> =
     Inr (PingReqPacket, \<lparr>rbuf = [0xE0, 0], rfin = EOF, rN = None\<rparr>)
   \<and> (\<exists>n lb r1. decodeRemainingLength
          (advance 1 \<lparr>rbuf = [0xC0, 0, 0xE0, 0], rfin = EOF, rN = None\<rparr>) = Inr ((n, lb), r1)
        \<and> int (1 + lb + n) \<le> 100)"
proof -
  let ?r = "\<lparr>rbuf = [0xC0, 0, 0xE0, 0 :: byte], rfin = EOF, rN = None\<rparr>"
  have d: "DecodeWithLimit 100 ?r =
     Inr (PingReqPacket, \<lparr>rbuf = [0xE0, 0], rfin = EOF, rN = None\<rparr>)"
    by (simp add: decoder_run)
  have "rN ?r = None" by simp
  from DecodeWithLimit_frame [OF this d] d show ?thesis by blast
qed

section \<open>What a decoded packet guarantees\<close>

definition will_wf :: "will_message \<Rightarrow> bool" where
  "will_wf w \<longleftrightarrow> validateTopicName (wTopic w) = None \<and> length (wPayload w) \<le> 65535"

definition connect_wf :: "connect_packet \<Rightarrow> bool" where
  "connect_wf c \<longleftrightarrow> cProtocolName c = ''MQTT'' \<and> cProtocolLevel c = 4
     \<and> validateUTF8String (cClientID c) = None
     \<and> (cClientID c = '''' \<longrightarrow> cCleanSession c)
     \<and> (case cWill c of None \<Rightarrow> True | Some w \<Rightarrow> will_wf w)
     \<and> (case cUsername c of None \<Rightarrow> cPassword c = None | Some u \<Rightarrow> validateUTF8String u = None)
     \<and> (case cPassword c of None \<Rightarrow> True | Some w \<Rightarrow> length w \<le> 65535)"

definition publish_wf :: "publish_packet \<Rightarrow> bool" where
  "publish_wf p \<longleftrightarrow> validateTopicName (pTopic p) = None \<and> pQoS p \<le> 2
     \<and> (if pQoS p = 0 then \<not> pDUP p \<and> pPacketID p = 0 else pPacketID p \<noteq> 0)"

definition subscription_wf :: "wire_subscription \<Rightarrow> bool" where
  "subscription_wf s \<longleftrightarrow> ValidateTopicFilter (sTopic s) = None \<and> sQoS s \<le> 2"

fun packet_wf :: "packet \<Rightarrow> bool" where
  "packet_wf (ConnectPacket c) = connect_wf c"
| "packet_wf (PublishPacket p) = publish_wf p"
| "packet_wf (PubAckPacket i) = (i \<noteq> 0)"
| "packet_wf (SubscribePacket s) = (spPacketID s \<noteq> 0 \<and> spSubscriptions s \<noteq> []
     \<and> list_all subscription_wf (spSubscriptions s))"
| "packet_wf (UnsubscribePacket u) = (upPacketID u \<noteq> 0 \<and> upTopics u \<noteq> []
     \<and> list_all (\<lambda>f. ValidateTopicFilter f = None) (upTopics u))"
| "packet_wf PingReqPacket = True"
| "packet_wf DisconnectPacket = True"
| "packet_wf _ = False"

lemma readUTF8String_valid: "readUTF8String r = Inr (s, r') \<Longrightarrow> validateUTF8String s = None"
  by (auto simp: readUTF8String_def result_iff Let_def)

lemma readFull_length: "readFull k r = Inr (bs, r') \<Longrightarrow> length bs = k"
  using avail_le [of r] by (auto simp: readFull_def Let_def split: if_splits)

lemma unat_u16_le: "unat (w :: u16) \<le> 65535"
  using unsigned_less [of w, where ?'a = nat] by simp

lemma readBinaryData_length: "readBinaryData r = Inr (bs, r') \<Longrightarrow> length bs \<le> 65535"
  by (auto simp: readBinaryData_def result_iff dest!: readFull_length intro: unat_u16_le)

lemma readPacketID_nonzero: "readPacketID r = Inr (i, r') \<Longrightarrow> i \<noteq> 0"
  by (auto simp: readPacketID_def result_iff split: if_splits)

lemma optionalP_Inr_iff [result_iff]:
  "optionalP b p r = Inr (v, r') \<longleftrightarrow>
     (if b then \<exists>x. p r = Inr (x, r') \<and> v = Some x else v = None \<and> r' = r)"
  by (auto simp: optionalP_def result_iff)

lemma decodeConnectFlags_password:
  "decodeConnectFlags b = Inr f \<Longrightarrow> passwordFlag f \<Longrightarrow> usernameFlag f"
  by (auto simp: decodeConnectFlags_def Let_def split: if_splits)

lemma decodeWill_wf: "decodeWill q t r = Inr (w, r') \<Longrightarrow> will_wf w"
  by (auto simp: decodeWill_def result_iff will_wf_def dest: readBinaryData_length)

lemma decodeConnectBody_wf:
  assumes "decodeConnectBody r = Inr (c, r')"
  shows "connect_wf c"
proof -
  from assms obtain flags r1 r2 r3 r4 r5 r6 keepAlive clientID will username password b where
    f: "decodeConnectFlags b = Inr flags"
    and i: "readUTF8String r1 = Inr (clientID, r2)" "\<not> (clientID = [] \<and> \<not> cleanSession flags)"
    and w: "optionalP (willFlag flags) (decodeWill (willQoS flags) (willRetain flags)) r2 = Inr (will, r3)"
    and u: "optionalP (usernameFlag flags) readUTF8String r3 = Inr (username, r4)"
    and p: "optionalP (passwordFlag flags)
      (bindP readBinaryData (\<lambda>data. returnP (string_of_bytes data))) r4 = Inr (password, r5)"
    and c: "c = \<lparr>cProtocolName = ''MQTT'', cProtocolLevel = 4,
      cCleanSession = cleanSession flags, cKeepAlive = keepAlive, cClientID = clientID,
      cWill = will, cUsername = username, cPassword = password\<rparr>"
    unfolding decodeConnectBody_def bindP_Inr_iff returnP_Inr_iff checkP_Inr_iff liftP_Inr_iff
      remainingP_Inr_iff
    by (force split: if_splits)
  have "will = None \<or> (\<exists>x. will = Some x \<and> will_wf x)"
    using w by (auto simp: optionalP_Inr_iff dest: decodeWill_wf split: if_splits)
  moreover have "username = None \<and> \<not> usernameFlag flags
      \<or> (\<exists>x. username = Some x \<and> validateUTF8String x = None)"
    using u by (auto simp: optionalP_Inr_iff dest: readUTF8String_valid split: if_splits)
  moreover have "password = None \<or> usernameFlag flags \<and> (\<exists>x. password = Some x \<and> length x \<le> 65535)"
    using p decodeConnectFlags_password [OF f]
    by (auto simp: optionalP_Inr_iff bindP_Inr_iff returnP_Inr_iff
        dest: readBinaryData_length split: if_splits)
  ultimately show ?thesis
    using i readUTF8String_valid [OF i(1)] unfolding c connect_wf_def by auto
qed

lemma decodePublishBody_wf:
  assumes "decodePublishBody qos dup retain r = Inr (p, r')" "qos \<le> 2" "qos = 0 \<Longrightarrow> \<not> dup"
  shows "publish_wf p"
  using assms word_gt_0 [of qos]
  by (auto simp: decodePublishBody_def publish_wf_def result_iff dest: readPacketID_nonzero
      split: if_splits)

lemma decodeSubscriptions_wf:
  "decodeSubscriptions subs r = Inr (x, r') \<Longrightarrow> list_all subscription_wf subs \<Longrightarrow>
   list_all subscription_wf x"
proof (induction subs r rule: decodeSubscriptions.induct)
  case (1 subs r)
  show ?case
  proof (cases "remaining r = 0")
    case False
    with "1.prems"(1) obtain topic r1 qos r2 where
      s: "readUTF8String r = Inr (topic, r1)" "ValidateTopicFilter topic = None"
         "readFull 1 r1 = Inr (qos, r2)" "\<not> qos ! 0 > 2"
      and rest: "decodeSubscriptions (subs @ [\<lparr>sTopic = topic, sQoS = qos ! 0\<rparr>]) r2 = Inr (x, r')"
      by (auto simp: decodeSubscriptions.simps [of subs r]
          split: sum.splits prod.splits option.splits if_splits)
    have "list_all subscription_wf (subs @ [\<lparr>sTopic = topic, sQoS = qos ! 0\<rparr>])"
      using "1.prems"(2) s by (simp add: subscription_wf_def [of "\<lparr>sTopic = topic, sQoS = qos ! 0\<rparr>"] not_less)
    from "1.IH" [OF False s(1) _ s(2,3) _ s(4) rest this] show ?thesis by simp
  qed (use "1.prems" in auto)
qed

lemma decodeTopics_wf:
  "decodeTopics topics r = Inr (x, r') \<Longrightarrow> list_all (\<lambda>f. ValidateTopicFilter f = None) topics \<Longrightarrow>
   list_all (\<lambda>f. ValidateTopicFilter f = None) x"
proof (induction topics r rule: decodeTopics.induct)
  case (1 topics r)
  show ?case
  proof (cases "remaining r = 0")
    case False
    with "1.prems"(1) obtain topic r1 where
      s: "readUTF8String r = Inr (topic, r1)" "ValidateTopicFilter topic = None"
      and rest: "decodeTopics (topics @ [topic]) r1 = Inr (x, r')"
      by (auto simp: decodeTopics.simps [of topics r] split: sum.splits prod.splits option.splits)
    with "1.prems"(2) have "list_all (\<lambda>f. ValidateTopicFilter f = None) (topics @ [topic])" by simp
    from "1.IH" [OF False s(1) _ s(2) rest this] show ?thesis by simp
  qed (use "1.prems" in auto)
qed

lemma limitP_Inr_iff [result_iff]:
  "limitP n p r = Inr (x, r') \<longleftrightarrow> (\<exists>r1. p (r\<lparr>rN := Some n\<rparr>) = Inr (x, r1) \<and> r' = r1\<lparr>rN := rN r\<rparr>)"
  by (auto simp: limitP_def split: sum.splits prod.splits)

lemma and_3_le: "q AND 3 \<noteq> 3 \<Longrightarrow> q AND 3 \<le> (2 :: byte)"
proof -
  assume "q AND 3 \<noteq> 3"
  moreover have "q AND 3 \<le> 3" by (rule word_and_le1)
  ultimately have "q AND 3 < 3" by simp
  then show ?thesis by (simp add: word_less_nat_alt word_le_nat_alt)
qed

lemma decodeSubscribeBody_wf: "decodeSubscribeBody r = Inr (s, r') \<Longrightarrow> packet_wf (SubscribePacket s)"
  by (auto simp: decodeSubscribeBody_def result_iff dest: readPacketID_nonzero decodeSubscriptions_wf
      split: if_splits)

lemma decodeUnsubscribeBody_wf:
  "decodeUnsubscribeBody r = Inr (u, r') \<Longrightarrow> packet_wf (UnsubscribePacket u)"
  by (auto simp: decodeUnsubscribeBody_def result_iff dest: readPacketID_nonzero decodeTopics_wf
      split: if_splits)

lemma decodeBody_wf: "decodeBody t flags n r = Inr (p, r') \<Longrightarrow> packet_wf p"
  unfolding decodeBody_def Let_def decodeConnect_def decodePublish_def decodePubAck_def
    decodeSubscribe_def decodeUnsubscribe_def
  by (auto simp: failP_Inr_iff returnP_Inr_iff mapP_Inr_iff limitP_Inr_iff
      simp del: packet_wf.simps(4,5)
      dest: decodeConnectBody_wf readPacketID_nonzero decodeSubscribeBody_wf decodeUnsubscribeBody_wf
      intro!: decodePublishBody_wf and_3_le split: if_splits)



text \<open>
  C19: decoding does not look past the packet: if a stream decodes to a packet, then the same stream
  with any bytes behind it decodes to the same packet and leaves those bytes for the next call. This is
  what makes one buffered reader deliver a sequence of packets.
\<close>

theorem DecodeWithLimit_stream:
  assumes "rN r = None" "DecodeWithLimit m r = Inr (p, r')"
  shows "DecodeWithLimit m (followed_by ys r) = Inr (p, followed_by ys r')"
  using assms by (rule dec.s_blind)

theorem DecodeWithLimit_stream_witness:
  "DecodeWithLimit 100 \<lparr>rbuf = [0xE0, 0, 0x40, 2], rfin = EOF, rN = None\<rparr> =
     Inr (DisconnectPacket, \<lparr>rbuf = [0x40, 2], rfin = EOF, rN = None\<rparr>)"
proof -
  have "rN \<lparr>rbuf = [0xE0, 0 :: byte], rfin = EOF, rN = None\<rparr> = None"
    "DecodeWithLimit 100 \<lparr>rbuf = [0xE0, 0], rfin = EOF, rN = None\<rparr> =
       Inr (DisconnectPacket, \<lparr>rbuf = [], rfin = EOF, rN = None\<rparr>)"
    by (simp_all add: decoder_run)
  from DecodeWithLimit_stream [OF this, of "[0x40, 2]"] show ?thesis
    by (simp add: followed_by_def)
qed

end
