(* ===== verification/Encoder.thy ===== *)
theory Encoder
  imports Decoder
begin

text \<open>
  The packet encoder (\<^verbatim>\<open>internal/protocol/encoder.go\<close>) and its agreement with the decoder. The
  broker only encodes into \<^verbatim>\<open>bytes.Buffer\<close>, whose writes cannot fail, so an encoder returns the
  bytes it wrote, or the error of a check.
\<close>

function encodeRemainingBytes :: "nat \<Rightarrow> byte list" where
  "encodeRemainingBytes n =
     (let encodedByte = n mod 128; rest = n div 128
      in if rest > 0 then of_nat (encodedByte OR 0x80) # encodeRemainingBytes rest
         else [of_nat encodedByte])"
  by pat_completeness auto
termination
  by (relation "measure id") auto

declare encodeRemainingBytes.simps [simp del]

definition encodeRemainingLength :: "int \<Rightarrow> byte list result" where
  "encodeRemainingLength n =
     (if n < 0 \<or> n > int MaxRemainingLength then Inl (New ''invalid remaining length'')
      else Inr (encodeRemainingBytes (nat n)))"

definition publishFlags :: "publish_packet \<Rightarrow> byte" where
  "publishFlags pkt =
     0x30 OR (if pDUP pkt then 0x08 else 0) OR push_bit 1 (pQoS pkt AND 0x03)
          OR (if pRetain pkt then 0x01 else 0)"

definition EncodePublish :: "publish_packet \<Rightarrow> byte list result" where
  "EncodePublish pkt =
     (if pQoS pkt > 1 then Inl (New ''unsupported QoS level'')
      else if pQoS pkt > 0 \<and> pPacketID pkt = 0 then Inl (New ''invalid packet identifier'')
      else if pQoS pkt = 0 \<and> pDUP pkt then Inl (New ''invalid DUP flag for QoS 0'')
      else bindE (checkE (validateTopicName (pTopic pkt))) (\<lambda>_.
        let remainingLength = 2 + length (pTopic pkt) + (if pQoS pkt > 0 then 2 else 0)
        in if int (length (pPayload pkt)) > int MaxRemainingLength - int remainingLength
           then Inl (New ''invalid remaining length'')
           else bindE (encodeRemainingLength (int (remainingLength + length (pPayload pkt)))) (\<lambda>rl.
             Inr ([publishFlags pkt] @ rl
                  @ put16 (of_nat (length (pTopic pkt))) @ bytes_of_string (pTopic pkt)
                  @ (if pQoS pkt > 0 then put16 (pPacketID pkt) else [])
                  @ pPayload pkt))))"

definition EncodeRetained :: "string \<Rightarrow> byte list \<Rightarrow> byte list" where
  "EncodeRetained topic payload =
     (case EncodePublish \<lparr>pTopic = topic, pPayload = payload, pRetain = True, pDUP = False,
                          pQoS = 0, pPacketID = 0\<rparr> of
        Inl _ \<Rightarrow> [] | Inr bs \<Rightarrow> bs)"

definition encodeConnAck :: "connack_packet \<Rightarrow> byte list result" where
  "encodeConnAck pkt =
     Inr ([0x20, 0x02] @ [if caSessionPresent pkt then 0x01 else 0, connack_code_byte (caReturnCode pkt)])"

definition encodePingResp :: "byte list result" where
  "encodePingResp = Inr [0xD0, 0x00]"

definition encodePubAck :: "u16 \<Rightarrow> byte list result" where
  "encodePubAck packetID =
     (if packetID = 0 then Inl (New ''invalid packet identifier'')
      else Inr ([0x40, 0x02] @ put16 packetID))"

definition encodeUnsubAck :: "u16 \<Rightarrow> byte list result" where
  "encodeUnsubAck packetID = Inr ([0xB0, 0x02] @ put16 packetID)"

definition encodeSubAck :: "suback_packet \<Rightarrow> byte list result" where
  "encodeSubAck pkt =
     (if int (length (saReturnCodes pkt)) > int MaxRemainingLength - 2
      then Inl (New ''invalid remaining length'')
      else bindE (encodeRemainingLength (int (2 + length (saReturnCodes pkt)))) (\<lambda>rl.
        Inr ([0x90] @ rl @ put16 (saPacketID pkt) @ saReturnCodes pkt)))"

fun Encode :: "packet \<Rightarrow> byte list result" where
  "Encode (ConnAckPacket pkt) = encodeConnAck pkt"
| "Encode PingRespPacket = encodePingResp"
| "Encode (PubAckPacket packetID) = encodePubAck packetID"
| "Encode (SubAckPacket pkt) = encodeSubAck pkt"
| "Encode (UnsubAckPacket packetID) = encodeUnsubAck packetID"
| "Encode _ = Inl ErrUnsupportedPacket"

section \<open>Round trips\<close>

text \<open>Reading back what was just written: the bytes are consumed and the rest of the stream remains.\<close>

lemma readFull_append:
  "length bs = k \<Longrightarrow> readFull k \<lparr>rbuf = bs @ ys, rfin = e, rN = None\<rparr> =
     Inr (bs, \<lparr>rbuf = ys, rfin = e, rN = None\<rparr>)"
  by (auto simp: readFull_def avail_def advance_def)

lemma readFull_append_limited:
  "length bs = k \<Longrightarrow> k \<le> n \<Longrightarrow> readFull k \<lparr>rbuf = bs @ ys, rfin = e, rN = Some n\<rparr> =
     Inr (bs, \<lparr>rbuf = ys, rfin = e, rN = Some (n - k)\<rparr>)"
  by (auto simp: readFull_def avail_def advance_def)

lemma readUint16_append:
  "2 \<le> n \<Longrightarrow> readUint16 \<lparr>rbuf = put16 w @ ys, rfin = e, rN = Some n\<rparr> =
     Inr (w, \<lparr>rbuf = ys, rfin = e, rN = Some (n - 2)\<rparr>)"
  "readUint16 \<lparr>rbuf = put16 w @ ys, rfin = e, rN = None\<rparr> =
     Inr (w, \<lparr>rbuf = ys, rfin = e, rN = None\<rparr>)"
  using readFull_append_limited [of "put16 w" 2 n ys e] readFull_append [of "put16 w" 2 ys e]
  by (simp_all add: readUint16_def returnP_def) (simp_all add: put16_def)

lemma readUTF8String_append:
  assumes "validateUTF8String s = None" "2 + length s \<le> n"
  shows "readUTF8String \<lparr>rbuf = put16 (of_nat (length s)) @ bytes_of_string s @ ys, rfin = e,
      rN = Some n\<rparr> = Inr (s, \<lparr>rbuf = ys, rfin = e, rN = Some (n - 2 - length s)\<rparr>)"
proof -
  from assms have "length s \<le> 65535"
    by (auto simp: validateUTF8String_def split: if_splits)
  then have "unat (of_nat (length s) :: u16) = length s"
    by (simp add: unsigned_of_nat take_bit_eq_mod)
  then show ?thesis
    unfolding readUTF8String_def using assms
    by (simp add: readUint16_append readFull_append_limited Let_def checkP_def returnP_def)
qed

lemma unat_and_127: "unat (b AND 127 :: byte) = unat b mod 128"
proof -
  have "b AND 127 = b mod 128"
    using take_bit_eq_mask [of 7 b] by (simp add: mask_eq_exp_minus_1 take_bit_eq_mod)
  then show ?thesis by (simp add: unat_mod_distrib)
qed

lemma and_128_iff: "(b AND 128 :: byte) = 0 \<longleftrightarrow> unat b < 128"
proof -
  have "b AND 2 ^ 7 = 0 \<longleftrightarrow> \<not> bit b 7" by (rule and_exp_eq_0_iff_not_bit)
  also have "bit b 7 \<longleftrightarrow> bit (unat b) 7" by (simp only: bit_unsigned_iff) simp
  also have "\<dots> \<longleftrightarrow> odd (unat b div 2 ^ 7)" by (rule bit_iff_odd)
  also have "\<not> \<dots> \<longleftrightarrow> unat b < 128"
  proof (cases "unat b < 128")
    case False
    with unat_byte_less [of b] have "unat b div 128 = 1" by (intro div_nat_eqI) auto
    with False show ?thesis by simp
  qed simp
  finally show ?thesis by simp
qed
lemma nat_or_128: "a < 128 \<Longrightarrow> a OR 128 = a + (128::nat)"
proof -
  assume "a < 128"
  then have "\<not> bit a 7" by (simp add: bit_iff_odd)
  then have "a AND 2 ^ 7 = 0" using and_exp_eq_0_iff_not_bit [of a 7] by blast
  then show ?thesis by (simp add: disjunctive_add_eq_or)
qed

lemma unat_of_nat_byte: "a < 256 \<Longrightarrow> unat (of_nat a :: byte) = a"
  by (simp add: unsigned_of_nat take_bit_eq_mod)

lemma length_encodeRemainingBytes: "0 < length (encodeRemainingBytes n)"
  by (subst encodeRemainingBytes.simps) (simp add: Let_def)

lemma decodeRemainingLoop_encode:
  "n < 128 ^ Suc fuel \<Longrightarrow>
   decodeRemainingLoop (Suc fuel) i m v \<lparr>rbuf = encodeRemainingBytes n @ ys, rfin = e, rN = None\<rparr> =
     Inr ((v + n * m, i + length (encodeRemainingBytes n)), \<lparr>rbuf = ys, rfin = e, rN = None\<rparr>)"
proof (induction fuel arbitrary: n i m v)
  case 0
  then have n: "n < 128" "n div 128 = 0" "n mod 128 = n" by auto
  have e: "encodeRemainingBytes n = [of_nat n]"
    by (subst encodeRemainingBytes.simps) (simp add: Let_def n)
  show ?case
    using n readFull_append [of "[of_nat n]" 1 ys e]
    by (simp add: e returnP_def Let_def and_128_iff unat_and_127 unat_of_nat_byte)
next
  case (Suc fuel)
  let ?d = "n mod 128" and ?q = "n div 128"
  have q: "?q < 128 ^ Suc fuel" using Suc.prems by (simp add: less_mult_imp_div_less mult.commute)
  show ?case
  proof (cases "?q = 0")
    case True
    then have n: "n < 128" "n mod 128 = n" by auto
    have e: "encodeRemainingBytes n = [of_nat n]"
      by (subst encodeRemainingBytes.simps) (simp add: Let_def n)
    show ?thesis
      using n readFull_append [of "[of_nat n]" 1 ys e]
      by (simp add: e returnP_def Let_def and_128_iff unat_and_127 unat_of_nat_byte)
  next
    case False
    have e: "encodeRemainingBytes n = of_nat (?d + 128) # encodeRemainingBytes ?q"
      using False by (subst encodeRemainingBytes.simps) (simp add: Let_def nat_or_128)
    let ?b = "of_nat (?d + 128) :: byte"
    have b: "unat ?b = ?d + 128" by (rule unat_of_nat_byte) simp
    have "x * m + y * (m * 128) = (x + y * 128) * m" for x y :: nat
      by (simp add: algebra_simps)
    from this [of ?d ?q] have v: "v + unat (?b AND 127) * m + ?q * (m * 128) = v + n * m"
      by (simp only: unat_and_127 b) simp
    have nz: "?b AND 128 \<noteq> 0" using b by (simp add: and_128_iff)
    have "decodeRemainingLoop (Suc (Suc fuel)) i m v
        \<lparr>rbuf = encodeRemainingBytes n @ ys, rfin = e, rN = None\<rparr> =
      decodeRemainingLoop (Suc fuel) (i + 1) (m * 128) (v + unat (?b AND 127) * m)
        \<lparr>rbuf = encodeRemainingBytes ?q @ ys, rfin = e, rN = None\<rparr>"
      using readFull_append [of "[?b]" 1 "encodeRemainingBytes ?q @ ys" e] nz
      by (subst decodeRemainingLoop.simps) (simp add: e Let_def)
    also have "\<dots> = Inr ((v + n * m, i + length (encodeRemainingBytes n)),
        \<lparr>rbuf = ys, rfin = e, rN = None\<rparr>)"
      unfolding Suc.IH [OF q] v by (simp add: e)
    finally show ?thesis .
  qed
qed

lemma decodeRemainingLength_encode:
  "n \<le> MaxRemainingLength \<Longrightarrow>
   decodeRemainingLength \<lparr>rbuf = encodeRemainingBytes n @ ys, rfin = e, rN = None\<rparr> =
     Inr ((n, length (encodeRemainingBytes n)), \<lparr>rbuf = ys, rfin = e, rN = None\<rparr>)"
  using decodeRemainingLoop_encode [of n "Suc (Suc (Suc 0))" 0 1 0 ys e]
  by (simp add: decodeRemainingLength_run MaxRemainingLength_def del: decodeRemainingLoop.simps)

lemma validateTopicName_utf8: "validateTopicName t = None \<Longrightarrow> validateUTF8String t = None"
  by (auto simp: validateTopicName_def split: option.splits)

lemma readPacketID_append:
  "2 \<le> n \<Longrightarrow> w \<noteq> 0 \<Longrightarrow> readPacketID \<lparr>rbuf = put16 w @ ys, rfin = e, rN = Some n\<rparr> =
     Inr (w, \<lparr>rbuf = ys, rfin = e, rN = Some (n - 2)\<rparr>)"
  by (simp add: readPacketID_def readUint16_append returnP_def)

lemma decodePublishBody_append:
  assumes t: "validateTopicName t = None" and i: "qos > 0 \<Longrightarrow> i \<noteq> 0"
  shows "decodePublishBody qos dup retain
     \<lparr>rbuf = put16 (of_nat (length t)) @ bytes_of_string t @ (if qos > 0 then put16 i else []) @ payload @ ys,
      rfin = e, rN = Some (2 + length t + (if qos > 0 then 2 else 0) + length payload)\<rparr> =
    Inr (\<lparr>pTopic = t, pPayload = payload, pRetain = retain, pDUP = dup, pQoS = qos,
          pPacketID = (if qos > 0 then i else 0)\<rparr>, \<lparr>rbuf = ys, rfin = e, rN = Some 0\<rparr>)"
  using t i
  by (cases "qos > 0")
    (simp_all add: decodePublishBody_def readUTF8String_append validateTopicName_utf8 checkP_def
      returnP_def readPacketID_append remainingP_def remaining_def readFull_append_limited)

lemma qos_cases: "\<not> 1 < (q :: byte) \<Longrightarrow> q = 0 \<or> q = 1"
  by (auto simp: not_less word_le_nat_alt) (metis One_nat_def le_antisym less_one linorder_not_le unat_1 unat_eq_zero word_unat_eq_iff)

lemma publishFlags_bits:
  assumes "pQoS p = 0 \<or> pQoS p = 1"
  shows "drop_bit 4 (publishFlags p) = 3"
    and "drop_bit 1 (publishFlags p AND 0x0F) AND 0x03 = pQoS p"
    and "((publishFlags p AND 0x0F) AND 0x08 \<noteq> 0) = pDUP p"
    and "((publishFlags p AND 0x0F) AND 0x01 \<noteq> 0) = pRetain p"
  using assms by (auto simp: publishFlags_def)

text \<open>The bytes of an encoded PUBLISH and the conditions under which it is encoded.\<close>

definition publishBodyLength :: "publish_packet \<Rightarrow> nat" where
  "publishBodyLength p = 2 + length (pTopic p) + (if pQoS p > 0 then 2 else 0) + length (pPayload p)"

lemma EncodePublish_Inr_iff:
  "EncodePublish p = Inr bs \<longleftrightarrow>
     (pQoS p = 0 \<and> \<not> pDUP p \<or> pQoS p = 1 \<and> pPacketID p \<noteq> 0)
     \<and> validateTopicName (pTopic p) = None
     \<and> publishBodyLength p \<le> MaxRemainingLength
     \<and> bs = [publishFlags p] @ encodeRemainingBytes (publishBodyLength p)
            @ put16 (of_nat (length (pTopic p))) @ bytes_of_string (pTopic p)
            @ (if pQoS p > 0 then put16 (pPacketID p) else []) @ pPayload p"
  (is "?l \<longleftrightarrow> ?r")
proof -
  let ?n = "2 + length (pTopic p) + (if pQoS p > 0 then 2 else 0)"
  have n: "?n + length (pPayload p) = publishBodyLength p" by (simp add: publishBodyLength_def)
  have g: "int (length (pPayload p)) > int MaxRemainingLength - int ?n
    \<longleftrightarrow> \<not> publishBodyLength p \<le> MaxRemainingLength"
    unfolding publishBodyLength_def by linarith
  have l: "encodeRemainingLength (int (publishBodyLength p)) =
      (if publishBodyLength p \<le> MaxRemainingLength then Inr (encodeRemainingBytes (publishBodyLength p))
       else Inl (New ''invalid remaining length''))"
    by (simp add: encodeRemainingLength_def)
  show ?thesis
  proof (cases "pQoS p > 1")
    case True
    then show ?thesis by (auto simp: EncodePublish_def)
  next
    case False
    then consider "pQoS p = 0" | "pQoS p = 1" using qos_cases by blast
    then show ?thesis
      unfolding EncodePublish_def Let_def n g l
      by cases (auto simp: result_iff split: if_splits)
  qed
qed

lemma DecodeWithLimit_header:
  assumes "n \<le> MaxRemainingLength" "int (1 + length (encodeRemainingBytes n) + n) \<le> m"
    "m \<le> int MaxPacketSize"
  shows "DecodeWithLimit m \<lparr>rbuf = [b] @ encodeRemainingBytes n @ ys, rfin = e, rN = None\<rparr> =
    decodeBody (drop_bit 4 b) (b AND 0x0F) n \<lparr>rbuf = ys, rfin = e, rN = None\<rparr>"
  using assms decodeRemainingLength_encode [OF assms(1), of ys e]
  by (simp add: DecodeWithLimit_def readByte_def advance_def)

lemma DecodeWithLimit_EncodePublish:
  assumes "EncodePublish p = Inr bs" and "int (length bs) \<le> m" and "m \<le> int MaxPacketSize"
  shows "DecodeWithLimit m \<lparr>rbuf = bs @ ys, rfin = e, rN = None\<rparr> =
    Inr (PublishPacket (p\<lparr>pPacketID := (if pQoS p > 0 then pPacketID p else 0)\<rparr>),
         \<lparr>rbuf = ys, rfin = e, rN = None\<rparr>)"
proof -
  let ?n = "publishBodyLength p"
  let ?body = "put16 (of_nat (length (pTopic p))) @ bytes_of_string (pTopic p)
    @ (if pQoS p > 0 then put16 (pPacketID p) else []) @ pPayload p"
  from assms(1) have q: "pQoS p = 0 \<and> \<not> pDUP p \<or> pQoS p = 1 \<and> pPacketID p \<noteq> 0"
    and t: "validateTopicName (pTopic p) = None" and n: "?n \<le> MaxRemainingLength"
    and bs: "bs = [publishFlags p] @ encodeRemainingBytes ?n @ ?body"
    unfolding EncodePublish_Inr_iff by auto
  have "length ?body = ?n" by (simp add: publishBodyLength_def)
  with assms(2) bs have m: "int (1 + length (encodeRemainingBytes ?n) + ?n) \<le> m" by simp
  from q have qos: "pQoS p = 0 \<or> pQoS p = 1" by blast
  note flags = publishFlags_bits [OF qos]
  have "decodePublishBody (pQoS p) (pDUP p) (pRetain p)
      \<lparr>rbuf = ?body @ ys, rfin = e, rN = Some ?n\<rparr> =
    Inr (p\<lparr>pPacketID := (if pQoS p > 0 then pPacketID p else 0)\<rparr>, \<lparr>rbuf = ys, rfin = e, rN = Some 0\<rparr>)"
    using decodePublishBody_append [OF t, of "pQoS p" "pPacketID p" "pDUP p" "pRetain p" "pPayload p" ys e] q
    by (auto simp: publishBodyLength_def)
  then have "decodeBody 3 (publishFlags p AND 0x0F) ?n \<lparr>rbuf = ?body @ ys, rfin = e, rN = None\<rparr> =
    Inr (PublishPacket (p\<lparr>pPacketID := (if pQoS p > 0 then pPacketID p else 0)\<rparr>),
         \<lparr>rbuf = ys, rfin = e, rN = None\<rparr>)"
    using q unfolding decodeBody_def Let_def flags
    by (auto simp: decodePublish_def limitP_def mapP_def bindP_def returnP_def)
  with DecodeWithLimit_header [OF n m assms(3), of "publishFlags p" "?body @ ys" e] flags(1)
  show ?thesis by (simp add: bs)
qed

text \<open>
  C1: what \<^verbatim>\<open>EncodePublish\<close> writes, the decoder reads back: the same topic, payload, QoS, DUP and
  RETAIN flags and packet identifier (QoS 0 carries none), with every byte that follows the packet
  left in the stream. It holds for every packet size up to the limit the reader enforces.
\<close>

theorem Decode_EncodePublish:
  assumes "EncodePublish p = Inr bs" and "int (length bs) \<le> m" and "m \<le> int MaxPacketSize"
  shows "DecodeWithLimit m \<lparr>rbuf = bs @ ys, rfin = e, rN = None\<rparr> =
    Inr (PublishPacket (p\<lparr>pPacketID := (if pQoS p > 0 then pPacketID p else 0)\<rparr>),
         \<lparr>rbuf = ys, rfin = e, rN = None\<rparr>)"
  using assms by (rule DecodeWithLimit_EncodePublish)

theorem Decode_EncodePublish_witness:
  "\<exists>p bs. pTopic p = ''a'' \<and> pPayload p = [7] \<and> pQoS p = 1 \<and> EncodePublish p = Inr bs
     \<and> bs = [0x32, 6, 0, 1, 97, 0, 9, 7]
     \<and> DecodeWithLimit 64 \<lparr>rbuf = bs @ [0xC0, 0], rfin = EOF, rN = None\<rparr> =
         Inr (PublishPacket p, \<lparr>rbuf = [0xC0, 0], rfin = EOF, rN = None\<rparr>)"
proof -
  let ?p = "\<lparr>pTopic = ''a'', pPayload = [7], pRetain = False, pDUP = False, pQoS = 1, pPacketID = 9\<rparr>"
  let ?bs = "[0x32, 6, 0, 1, 97, 0, 9, 7 :: byte]"
  have e: "EncodePublish ?p = Inr ?bs"
    by (simp add: EncodePublish_Inr_iff validateTopicName_def validateUTF8String_def ValidString_def
        containsNUL_def containsWildcard_def publishBodyLength_def MaxRemainingLength_def
        publishFlags_def put16_def bytes_of_string_def encodeRemainingBytes.simps Let_def)
  have "int (length ?bs) \<le> 64" "(64::int) \<le> int MaxPacketSize"
    by (simp_all add: MaxPacketSize_def MaxRemainingLength_def)
  from Decode_EncodePublish [OF e this, of "[0xC0, 0]" EOF] e
  show ?thesis by (intro exI [of _ ?p] exI [of _ ?bs]) simp
qed

text \<open>
  C20: a packet whose announced size exceeds the reader's limit is refused with
  \<^verbatim>\<open>ErrPacketTooLarge\<close> once its fixed header was read, whatever its type byte and whatever (or
  however little) of its body follows.
\<close>

theorem DecodeWithLimit_too_large:
  assumes "n \<le> MaxRemainingLength" and "0 < m" and "m \<le> int MaxPacketSize"
    and "int (1 + length (encodeRemainingBytes n) + n) > m"
  shows "DecodeWithLimit m \<lparr>rbuf = [b] @ encodeRemainingBytes n @ body, rfin = e, rN = None\<rparr> =
    Inl ErrPacketTooLarge"
  using assms decodeRemainingLength_encode [OF assms(1), of body e]
  by (simp add: DecodeWithLimit_def readByte_def advance_def failP_def)

theorem DecodeWithLimit_too_large_witness:
  "DecodeWithLimit 4 \<lparr>rbuf = [0x30, 3], rfin = EOF, rN = None\<rparr> = Inl ErrPacketTooLarge"
proof -
  have l: "encodeRemainingBytes 3 = [3]" by (subst encodeRemainingBytes.simps) (simp add: Let_def)
  have "(3::nat) \<le> MaxRemainingLength" "0 < (4::int)" "4 \<le> int MaxPacketSize"
    "int (1 + length (encodeRemainingBytes 3) + 3) > 4"
    by (simp_all add: l MaxPacketSize_def MaxRemainingLength_def)
  from DecodeWithLimit_too_large [OF this, where b = "0x30" and body = "[]" and e = EOF] show ?thesis by (simp add: l)
qed

text \<open>
  C21: acknowledgements survive the wire: a PUBACK the broker encodes is the PUBACK the decoder
  returns, and packet identifier 0 is refused by the encoder as it is by the decoder.
\<close>

theorem Decode_encodePubAck:
  "Encode (PubAckPacket i) = (if i = 0 then Inl (New ''invalid packet identifier'')
     else Inr ([0x40, 0x02] @ put16 i))
   \<and> Decode \<lparr>rbuf = [0x40, 0x02] @ put16 i @ ys, rfin = e, rN = None\<rparr> =
     (if i = 0 then Inl (New ''invalid packet identifier'')
      else Inr (PubAckPacket i, \<lparr>rbuf = ys, rfin = e, rN = None\<rparr>))"
proof -
  have l: "encodeRemainingBytes 2 = [2]" by (subst encodeRemainingBytes.simps) (simp add: Let_def)
  have "Decode \<lparr>rbuf = [0x40] @ encodeRemainingBytes 2 @ put16 i @ ys, rfin = e, rN = None\<rparr> =
    decodeBody 4 0 2 \<lparr>rbuf = put16 i @ ys, rfin = e, rN = None\<rparr>"
    unfolding Decode_def
    by (subst DecodeWithLimit_header) (simp_all add: l MaxRemainingLength_def MaxPacketSize_def)
  then show ?thesis
    by (simp add: l decodeBody_def decodePubAck_def mapP_def readPacketID_def readUint16_append
        bindP_def returnP_def failP_def encodePubAck_def)
qed

end
