(* ===== verification/TopicParse.thy ===== *)
theory TopicParse
  imports Wire
begin

text \<open>
  Topic names and filters (\<^verbatim>\<open>internal/topic/parse.go\<close>): splitting into levels, matching a topic
  against a filter, and coverage of one filter by another (the test behind subscribe permissions).
  The level-wise reference definitions \<open>levels\<close> and \<open>joinL\<close> carry the proofs; the index loops of the
  source are proved equal to them.
\<close>

section \<open>Splitting\<close>

text \<open>The loop of \<^verbatim>\<open>splitFilter\<close> and \<^verbatim>\<open>splitTopic\<close>: \<open>s[start:i]\<close> is appended at every slash.\<close>

function splitLoop :: "string \<Rightarrow> nat \<Rightarrow> nat \<Rightarrow> string list \<Rightarrow> string list" where
  "splitLoop s i start res =
     (if i < length s then
        if s ! i = CHR ''/'' then splitLoop s (i + 1) (i + 1) (res @ [take (i - start) (drop start s)])
        else splitLoop s (i + 1) start res
      else res @ [drop start s])"
  by pat_completeness auto
termination
  by (relation "measure (\<lambda>(s, i, start, res). length s - i)") auto

declare splitLoop.simps [simp del]

definition splitFilter :: "string \<Rightarrow> string list" where
  "splitFilter s = splitLoop s 0 0 []"

definition splitTopic :: "string \<Rightarrow> string list" where
  "splitTopic s = splitLoop s 0 0 []"

section \<open>Matching and coverage\<close>

text \<open>
  The loop over the levels of the filter; the second list is what is left of the topic's levels, so
  the final \<^verbatim>\<open>len(fLevels) == len(tLevels)\<close> is emptiness.
\<close>

fun matchLevels :: "string list \<Rightarrow> string list \<Rightarrow> bool" where
  "matchLevels [] ts = (ts = [])"
| "matchLevels (f # fs) ts =
     (if f = ''#'' then True
      else case ts of
        [] \<Rightarrow> False
      | t # ts' \<Rightarrow>
          if f = ''+'' then matchLevels fs ts'
          else if f \<noteq> t then False
          else matchLevels fs ts')"

definition startsDollar :: "string \<Rightarrow> bool" where
  "startsDollar t = (case t of [] \<Rightarrow> False | c # _ \<Rightarrow> c = CHR ''$'')"

definition startsWildcard :: "string \<Rightarrow> bool" where
  "startsWildcard f = (case f of [] \<Rightarrow> False | c # _ \<Rightarrow> c = CHR ''+'' \<or> c = CHR ''#'')"

definition MatchFilter :: "string \<Rightarrow> string \<Rightarrow> bool" where
  "MatchFilter flt topic =
     (if startsDollar topic \<and> startsWildcard flt then False
      else matchLevels (splitFilter flt) (splitTopic topic))"

fun coversLevels :: "string list \<Rightarrow> string list \<Rightarrow> bool" where
  "coversLevels [] rs = (rs = [])"
| "coversLevels (a # as) rs =
     (if a = ''#'' then True
      else case rs of
        [] \<Rightarrow> False
      | r # rs' \<Rightarrow>
          if r = ''#'' \<or> (a \<noteq> ''+'' \<and> a \<noteq> r) then False
          else coversLevels as rs')"

text \<open>
  The result is \<open>None\<close> where the source panics: \<^verbatim>\<open>allowed[0]\<close> is evaluated only when the request
  starts with a dollar sign, and is out of range when \<^verbatim>\<open>allowed\<close> is empty.
\<close>

definition rewriteRoot :: "string \<Rightarrow> string" where
  "rewriteRoot requested =
     (let requested = (if requested = ''#'' then ''+/#'' else requested)
      in if requested = ''/#'' then ''/+/#'' else requested)"

definition CoversFilter :: "string \<Rightarrow> string \<Rightarrow> bool option" where
  "CoversFilter allowed requested =
     (if startsDollar requested \<and> allowed = [] then None
      else if startsDollar requested \<and> startsWildcard allowed then Some False
      else Some (coversLevels (splitFilter allowed) (splitFilter (rewriteRoot requested))))"

section \<open>Levels\<close>

fun levels :: "string \<Rightarrow> string list" where
  "levels [] = [[]]"
| "levels (c # s) =
     (if c = CHR ''/'' then [] # levels s
      else (case levels s of l # ls \<Rightarrow> (c # l) # ls | [] \<Rightarrow> [[c]]))"

fun joinL :: "string list \<Rightarrow> string" where
  "joinL [] = []"
| "joinL [l] = l"
| "joinL (l # m # ls) = l @ CHR ''/'' # joinL (m # ls)"

lemma levels_nonempty [simp]: "levels s \<noteq> []"
  by (cases s) (auto split: list.splits)

lemma levels_no_slash: "CHR ''/'' \<notin> set l \<Longrightarrow> levels l = [l]"
  by (induction l) auto

lemma levels_append_slash: "CHR ''/'' \<notin> set l \<Longrightarrow> levels (l @ CHR ''/'' # s) = l # levels s"
  by (induction l) auto

lemma joinL_levels [simp]: "joinL (levels s) = s"
proof (induction s)
  case (Cons c s)
  then show ?case
    by (cases "levels s"; cases "tl (levels s)") auto
qed simp

lemma levels_joinL:
  "ls \<noteq> [] \<Longrightarrow> \<forall>l \<in> set ls. CHR ''/'' \<notin> set l \<Longrightarrow> levels (joinL ls) = ls"
  by (induction ls rule: joinL.induct) (auto simp: levels_no_slash levels_append_slash)

lemma levels_elem_no_slash: "l \<in> set (levels s) \<Longrightarrow> CHR ''/'' \<notin> set l"
  by (induction s arbitrary: l) (auto split: if_splits list.splits)

lemma set_levels: "l \<in> set (levels s) \<Longrightarrow> set l \<subseteq> set s"
  by (induction s arbitrary: l) (fastforce split: if_splits list.splits)+

lemma splitLoop_levels:
  "start \<le> i \<Longrightarrow> i \<le> length s \<Longrightarrow> CHR ''/'' \<notin> set (take (i - start) (drop start s)) \<Longrightarrow>
   splitLoop s i start res = res @ levels (drop start s)"
proof (induction s i start res rule: splitLoop.induct)
  case (1 s i start res)
  let ?cur = "take (i - start) (drop start s)"
  show ?case
  proof (cases "i < length s")
    case False
    with "1.prems" have "?cur = drop start s" by simp
    with "1.prems"(3) False show ?thesis
      by (simp add: splitLoop.simps [of s i] levels_no_slash)
  next
    case True
    have split: "drop start s = ?cur @ s ! i # drop (i + 1) s"
    proof -
      have "drop (i - start) (drop start s) = drop i s" using "1.prems" by simp
      also have "\<dots> = s ! i # drop (i + 1) s" using True by (simp add: Cons_nth_drop_Suc)
      finally show ?thesis by (metis append_take_drop_id)
    qed
    show ?thesis
    proof (cases "s ! i = CHR ''/''")
      case slash: True
      have "splitLoop s (i + 1) (i + 1) (res @ [?cur]) = res @ [?cur] @ levels (drop (i + 1) s)"
        using "1.IH"(1) [OF True slash] True by simp
      moreover have "levels (drop start s) = ?cur # levels (drop (i + 1) s)"
        using split slash "1.prems"(3) by (metis levels_append_slash)
      ultimately show ?thesis using True slash by (simp add: splitLoop.simps [of s i])
    next
      case other: False
      have "take (i + 1 - start) (drop start s) = ?cur @ [s ! i]"
        using "1.prems" True by (simp add: Suc_diff_le take_Suc_conv_app_nth)
      then show ?thesis
        using "1.IH"(2) [OF True other] "1.prems" True other
        by (simp add: splitLoop.simps [of s i])
    qed
  qed
qed

lemma splitFilter_levels [simp]: "splitFilter s = levels s"
  and splitTopic_levels [simp]: "splitTopic s = levels s"
  by (simp_all add: splitFilter_def splitTopic_def splitLoop_levels)

section \<open>Valid filters, level by level\<close>

definition level_ok :: "string \<Rightarrow> bool" where
  "level_ok l \<longleftrightarrow> l = ''+'' \<or> \<not> containsWildcard l"

fun wf_levels :: "string list \<Rightarrow> bool" where
  "wf_levels [] = True"
| "wf_levels [l] = (l = ''#'' \<or> level_ok l)"
| "wf_levels (l # m # ls) = (level_ok l \<and> wf_levels (m # ls))"

text \<open>The scan of \<^verbatim>\<open>ValidateTopicFilter\<close> from left to right; the flag says "at the start of a level".\<close>

fun filterOk :: "bool \<Rightarrow> string \<Rightarrow> bool" where
  "filterOk b [] = True"
| "filterOk b (c # s) =
     (if c = CHR ''+'' then b \<and> (s = [] \<or> hd s = CHR ''/'') \<and> filterOk False s
      else if c = CHR ''#'' then b \<and> s = []
      else filterOk (c = CHR ''/'') s)"

lemma filterByteOk_scan:
  "list_all (filterByteOk (pre @ s)) [length pre..<length pre + length s] =
     filterOk (pre = [] \<or> last pre = CHR ''/'') s"
proof (induction s arbitrary: pre)
  case (Cons c s)
  have upt: "[length pre..<length pre + length (c # s)] =
      length pre # [length (pre @ [c])..<length (pre @ [c]) + length s]"
    by (subst upt_conv_Cons) simp_all
  have prev: "0 < length pre \<and> (pre @ c # s) ! (length pre - 1) \<noteq> CHR ''/'' \<longleftrightarrow>
      \<not> (pre = [] \<or> last pre = CHR ''/'')"
    by (auto simp: nth_append last_conv_nth)
  have nxt: "length pre + 1 < length (pre @ c # s) \<and> (pre @ c # s) ! (length pre + 1) \<noteq> CHR ''/'' \<longleftrightarrow>
      \<not> (s = [] \<or> hd s = CHR ''/'')"
    by (cases s) (auto simp: nth_append)
  have "list_all (filterByteOk (pre @ c # s)) [length pre..<length pre + length (c # s)] \<longleftrightarrow>
      filterByteOk (pre @ c # s) (length pre) \<and> filterOk (c = CHR ''/'') s"
    unfolding upt using Cons.IH [of "pre @ [c]"] by simp
  moreover have "filterByteOk (pre @ c # s) (length pre) \<longleftrightarrow>
      (if c = CHR ''+'' then (pre = [] \<or> last pre = CHR ''/'') \<and> (s = [] \<or> hd s = CHR ''/'')
       else if c = CHR ''#'' then (pre = [] \<or> last pre = CHR ''/'') \<and> s = [] else True)"
    unfolding filterByteOk_def prev nxt by (auto simp: prev nxt)
  ultimately show ?case by auto
qed simp

lemma filterOk_levels:
  "filterOk True s \<longleftrightarrow> wf_levels (levels s)"
  "filterOk False s \<longleftrightarrow> \<not> containsWildcard (hd (levels s)) \<and> wf_levels (tl (levels s))"
proof (induction s)
  case Nil
  show "filterOk True [] \<longleftrightarrow> wf_levels (levels [])"
    and "filterOk False [] \<longleftrightarrow> \<not> containsWildcard (hd (levels [])) \<and> wf_levels (tl (levels []))"
    by (simp_all add: level_ok_def containsWildcard_def)
next
  case (Cons c s)
  obtain l ls where l: "levels s = l # ls" by (cases "levels s") auto
  have first: "s = [] \<or> hd s = CHR ''/'' \<longleftrightarrow> l = []"
    using l by (cases s) (auto split: if_splits list.splits)
  have empty: "s = [] \<longleftrightarrow> l = [] \<and> ls = []"
    using l by (cases s) (auto split: if_splits list.splits)
  have w0: "\<not> containsWildcard []" by (simp add: containsWildcard_def)
  have w: "containsWildcard (d # m) \<longleftrightarrow> d = CHR ''+'' \<or> d = CHR ''#'' \<or> containsWildcard m" for d m
    by (simp add: containsWildcard_def)
  have wf_Cons: "wf_levels (m # ls) \<longleftrightarrow> (level_ok m \<and> wf_levels ls \<or> m = ''#'' \<and> ls = [])" for m
    by (cases ls) auto
  have slash: "wf_levels ([] # l # ls) \<longleftrightarrow> wf_levels (l # ls)"
    by (simp add: level_ok_def containsWildcard_def)
  show "filterOk True (c # s) \<longleftrightarrow> wf_levels (levels (c # s))"
    using Cons.IH l first empty
    by (auto simp: w w0 wf_Cons slash level_ok_def)
  show "filterOk False (c # s) \<longleftrightarrow>
      \<not> containsWildcard (hd (levels (c # s))) \<and> wf_levels (tl (levels (c # s)))"
    using Cons.IH l first empty
    by (auto simp: w w0 wf_Cons slash)
qed

lemma ValidateTopicFilter_None_iff:
  "ValidateTopicFilter f = None \<longleftrightarrow>
     validateUTF8String f = None \<and> f \<noteq> [] \<and> wf_levels (splitFilter f)"
  using filterByteOk_scan [of "[]" f] filterOk_levels(1) [of f]
  by (auto simp: ValidateTopicFilter_def split: option.splits)

text \<open>
  C22: the byte scan of \<^verbatim>\<open>ValidateTopicFilter\<close> accepts exactly the MQTT filters: a non-empty
  well-formed UTF-8 string in which, split into levels, \<^verbatim>\<open>+\<close> fills a level of its own, \<^verbatim>\<open>#\<close>
  fills the last one, and no other level contains a wildcard.
\<close>

theorem ValidateTopicFilter_iff:
  "ValidateTopicFilter f = None \<longleftrightarrow>
     validateUTF8String f = None \<and> f \<noteq> [] \<and> wf_levels (splitFilter f)"
  by (rule ValidateTopicFilter_None_iff)

subsection \<open>UTF-8 and levels\<close>

lemma utf8_valid_split:
  "c < 0x80 \<Longrightarrow> utf8_valid (xs @ c # ys) \<longleftrightarrow> utf8_valid xs \<and> utf8_valid ys"
proof (induction xs rule: utf8_valid.induct)
  case (2 b bs)
  show ?case
  proof (cases bs)
    case Nil
    then show ?thesis using "2.prems" by (auto simp: cont_def split: list.splits)
  next
    case (Cons c1 r1)
    note 1 = Cons
    show ?thesis
    proof (cases r1)
      case Nil
      then show ?thesis using "2.prems" "2.IH" 1 by (auto simp: cont_def split: list.splits)
    next
      case (Cons c2 r2)
      then show ?thesis using "2.prems" "2.IH" 1 by (cases r2) (auto simp: cont_def split: list.splits)
    qed
  qed
qed simp

definition plain :: "string \<Rightarrow> bool" where
  "plain l \<longleftrightarrow> ValidString l \<and> \<not> containsNUL l \<and> \<not> containsWildcard l \<and> CHR ''/'' \<notin> set l"

lemma plain_literals [simp]: "plain ''a''" "plain ''b''" "plain []"
  by (simp_all add: plain_def ValidString_def containsNUL_def containsWildcard_def)

lemma ValidString_slash:
  "ValidString (l @ CHR ''/'' # s) \<longleftrightarrow> ValidString l \<and> ValidString s"
  by (simp add: ValidString_def utf8_valid_split)

lemma ValidString_joinL: "ValidString (joinL ls) \<longleftrightarrow> list_all ValidString ls"
  by (induction ls rule: joinL.induct) (auto simp: ValidString_slash, simp add: ValidString_def)

lemma containsNUL_joinL: "containsNUL (joinL ls) \<longleftrightarrow> list_ex containsNUL ls"
  by (induction ls rule: joinL.induct) (auto simp: containsNUL_def)

lemma containsWildcard_joinL: "containsWildcard (joinL ls) \<longleftrightarrow> list_ex containsWildcard ls"
  by (induction ls rule: joinL.induct) (auto simp: containsWildcard_def)

lemma validateUTF8String_None_iff:
  "validateUTF8String s = None \<longleftrightarrow> length s \<le> 65535 \<and> ValidString s \<and> \<not> containsNUL s"
  by (auto simp: validateUTF8String_def)

lemma validateTopicName_None_iff:
  "validateTopicName t = None \<longleftrightarrow>
     length t \<le> 65535 \<and> t \<noteq> [] \<and> list_all plain (levels t)"
proof -
  have "CHR ''/'' \<notin> set l" if "l \<in> set (levels t)" for l
    using that by (rule levels_elem_no_slash)
  then have "list_all plain (levels t) \<longleftrightarrow>
      list_all ValidString (levels t) \<and> \<not> list_ex containsNUL (levels t)
      \<and> \<not> list_ex containsWildcard (levels t)"
    by (auto simp: plain_def list_all_iff list_ex_iff)
  then show ?thesis
    using ValidString_joinL [of "levels t"] containsNUL_joinL [of "levels t"]
      containsWildcard_joinL [of "levels t"]
    by (auto simp: validateTopicName_def validateUTF8String_def)
qed

lemma topic_of_plain_levels:
  assumes "list_all plain ts" "ts \<noteq> []" "joinL ts \<noteq> []" "length (joinL ts) \<le> 65535"
  shows "validateTopicName (joinL ts) = None" "levels (joinL ts) = ts"
proof -
  have "\<forall>l \<in> set ts. CHR ''/'' \<notin> set l" using assms(1) by (auto simp: list_all_iff plain_def)
  with assms(2) show l: "levels (joinL ts) = ts" by (rule levels_joinL)
  with assms show "validateTopicName (joinL ts) = None" by (simp add: validateTopicName_None_iff)
qed

text \<open>A valid filter's levels: plain, or a wildcard alone.\<close>

lemma filter_level_plain:
  assumes "validateUTF8String f = None" "l \<in> set (levels f)" "\<not> containsWildcard l"
  shows "plain l"
  using assms levels_elem_no_slash [OF assms(2)] ValidString_joinL [of "levels f"]
    containsNUL_joinL [of "levels f"]
  by (auto simp: plain_def validateUTF8String_None_iff list_all_iff list_ex_iff)

section \<open>Coverage is inclusion\<close>

text \<open>Soundness, level by level.\<close>

lemma coversLevels_sound:
  "coversLevels as rs \<Longrightarrow> matchLevels rs ts \<Longrightarrow> matchLevels as ts"
  by (induction as arbitrary: rs ts) (auto split: if_splits list.splits)

text \<open>
  Completeness: when coverage fails, some topic is matched by the request only. \<open>instL\<close> fills the
  wildcards of a request; \<open>other a\<close> is a level different from \<open>a\<close>.
\<close>

definition other :: "string \<Rightarrow> string" where
  "other a = (if a = ''a'' then ''b'' else ''a'')"

fun instL :: "string list \<Rightarrow> string list" where
  "instL [] = []"
| "instL (r # rs) = (if r = ''#'' then [] else (if r = ''+'' then ''a'' else r) # instL rs)"

fun distinguish :: "string list \<Rightarrow> string list \<Rightarrow> string list" where
  "distinguish [] rs = (if rs = [''#''] then [''a''] else instL rs)"
| "distinguish (a # as) [] = []"
| "distinguish (a # as) (r # rs) =
     (if r = ''#'' then []
      else if a \<noteq> ''+'' \<and> a \<noteq> r then (if r = ''+'' then other a else r) # instL rs
      else (if r = ''+'' then ''a'' else r) # distinguish as rs)"

lemma matchLevels_instL: "matchLevels rs (instL rs)"
  by (induction rs) auto

lemma other_neq: "other a \<noteq> a"
  by (simp add: other_def)

lemma distinguish_spec:
  "\<not> coversLevels as rs \<Longrightarrow> wf_levels rs \<Longrightarrow>
     matchLevels rs (distinguish as rs) \<and> \<not> matchLevels as (distinguish as rs)"
proof (induction as rs rule: distinguish.induct)
  case (1 rs)
  then show ?case
    by (cases rs) (auto simp: matchLevels_instL level_ok_def containsWildcard_def elim: wf_levels.elims)
next
  case (2 a as)
  then show ?case by (simp split: if_splits)
next
  case (3 a as r rs)
  have "wf_levels rs" using "3.prems"(2) by (cases rs) auto
  moreover have "a \<noteq> ''#''" using "3.prems"(1) by auto
  ultimately show ?case
    using "3.IH" "3.prems"(1) other_neq [of a]
    by (auto simp: matchLevels_instL split: if_splits)
qed

lemma length_joinL_Cons:
  "length (joinL (l # ls)) = length l + (if ls = [] then 0 else Suc (length (joinL ls)))"
  by (cases ls) auto

lemma length_joinL_pos: "0 < length (joinL (''#'' # ls))"
  by (simp add: length_joinL_Cons)

definition literal_plain :: "string list \<Rightarrow> bool" where
  "literal_plain rs \<longleftrightarrow> (\<forall>r \<in> set rs. r = ''+'' \<or> r = ''#'' \<or> plain r)"

lemma literal_plain_Cons:
  "literal_plain (r # rs) \<longleftrightarrow> (r = ''+'' \<or> r = ''#'' \<or> plain r) \<and> literal_plain rs"
  by (simp add: literal_plain_def)

lemma instL_plain: "literal_plain rs \<Longrightarrow> list_all plain (instL rs)"
  by (induction rs) (auto simp: literal_plain_Cons)

lemma distinguish_plain: "literal_plain rs \<Longrightarrow> list_all plain (distinguish as rs)"
  by (induction as rs rule: distinguish.induct) (auto simp: literal_plain_Cons instL_plain other_def)

lemma instL_length: "length (joinL (instL rs)) \<le> length (joinL rs)"
  by (induction rs) (auto simp: length_joinL_Cons)

lemma distinguish_Nil [simp]: "distinguish as [] = []"
  by (cases as) simp_all

lemma distinguish_length: "length (joinL (distinguish as rs)) \<le> length (joinL rs)"
  by (induction as rs rule: distinguish.induct)
    (use instL_length in \<open>auto simp: length_joinL_Cons other_def\<close>)

lemma wf_levels_hash: "wf_levels (''#'' # rs) \<Longrightarrow> rs = []"
  by (cases rs) (auto simp: level_ok_def containsWildcard_def)

lemma instL_nonempty: "wf_levels rs \<Longrightarrow> rs \<noteq> [] \<Longrightarrow> rs \<noteq> [''#''] \<Longrightarrow> instL rs \<noteq> []"
  by (cases rs) (auto dest: wf_levels_hash)

lemma distinguish_nonempty:
  "wf_levels rs \<Longrightarrow> rs \<noteq> [] \<Longrightarrow> rs \<noteq> [''#''] \<Longrightarrow> distinguish as rs \<noteq> []"
  by (cases "(as, rs)" rule: distinguish.cases) (auto simp: instL_nonempty dest: wf_levels_hash)

lemma wf_levels_tl: "wf_levels (r # rs) \<Longrightarrow> wf_levels rs"
  by (cases rs) auto

lemma joinL_Cons_empty: "joinL (l # ls) = [] \<longleftrightarrow> l = [] \<and> ls = []"
  by (cases ls) auto

lemma distinguish_joinL_nonempty:
  assumes wf: "wf_levels rs" and ne: "rs \<noteq> []" "rs \<noteq> [''#'']" "rs \<noteq> [[]]" "rs \<noteq> [[], ''#'']"
  shows "joinL (distinguish as rs) \<noteq> []"
proof -
  obtain r rs' where rs: "rs = r # rs'" using ne by (cases rs) auto
  have "r \<noteq> ''#''" using wf ne(2) rs by (auto dest: wf_levels_hash)
  moreover have "instL rs' \<noteq> [] \<and> distinguish as' rs' \<noteq> []" if "r = []" for as'
    using that ne rs wf_levels_tl [of r rs'] wf by (auto simp: instL_nonempty distinguish_nonempty)
  ultimately show ?thesis
    using ne rs by (cases as) (auto simp: joinL_Cons_empty other_def)
qed

lemma distinguish_hd_plus: "startsDollar (joinL (distinguish as (''+'' # rs))) = False"
proof -
  have "startsDollar (joinL (l # ls)) \<longleftrightarrow> startsDollar l" if "l \<noteq> []" for l ls
    using that by (cases ls) (auto simp: startsDollar_def split: list.splits)
  then show ?thesis
    by (cases as) (auto simp: other_def startsDollar_def)
qed

lemma startsDollar_levels: "startsDollar t \<longleftrightarrow> startsDollar (hd (levels t))"
  by (cases t) (auto simp: startsDollar_def split: list.splits)

lemma startsWildcard_levels:
  "wf_levels (levels f) \<Longrightarrow> startsWildcard f \<longleftrightarrow> hd (levels f) = ''+'' \<or> hd (levels f) = ''#''"
proof -
  assume wf: "wf_levels (levels f)"
  obtain l ls where l: "levels f = l # ls" by (cases "levels f") auto
  have "startsWildcard f \<longleftrightarrow> startsWildcard l"
    using l by (cases f) (auto simp: startsWildcard_def split: list.splits if_splits)
  moreover have "l = ''#'' \<or> level_ok l" using wf l by (cases ls) auto
  ultimately show ?thesis
    using l by (auto simp: startsWildcard_def level_ok_def containsWildcard_def split: list.splits)
qed

text \<open>The rewriting of the root filters changes no set of valid topics, and leaves a good request.\<close>

lemma rewriteRoot_cases:
  "requested = ''#'' \<and> rewriteRoot requested = ''+/#''
   \<or> requested = ''/#'' \<and> rewriteRoot requested = ''/+/#''
   \<or> requested \<noteq> ''#'' \<and> requested \<noteq> ''/#'' \<and> rewriteRoot requested = requested"
  by (auto simp: rewriteRoot_def)

lemma rewriteRoot_match:
  assumes "t \<noteq> []"
  shows "matchLevels (levels (rewriteRoot requested)) (levels t) \<longleftrightarrow>
    matchLevels (levels requested) (levels t)"
proof -
  obtain l ls where l: "levels t = l # ls" by (cases "levels t") auto
  have "ls \<noteq> []" if "l = []"
  proof
    assume "ls = []"
    with l that have "joinL (levels t) = []" by simp
    with assms show False by simp
  qed
  then show ?thesis
    using rewriteRoot_cases [of requested] l by (auto split: list.splits if_splits)
qed

lemma levels_eqD: "levels s = ls \<Longrightarrow> s = joinL ls"
  by (metis joinL_levels)

lemma wf_levels_elem:
  "wf_levels ls \<Longrightarrow> l \<in> set ls \<Longrightarrow> l = ''+'' \<or> l = ''#'' \<or> \<not> containsWildcard l"
  by (induction ls rule: wf_levels.induct) (auto simp: level_ok_def)

lemma rewriteRoot_good:
  assumes "ValidateTopicFilter requested = None"
  shows "wf_levels (levels (rewriteRoot requested))"
    and "literal_plain (levels (rewriteRoot requested))"
    and "length (rewriteRoot requested) \<le> 65535"
    and "levels (rewriteRoot requested) \<noteq> [''#'']" "levels (rewriteRoot requested) \<noteq> [[]]"
      "levels (rewriteRoot requested) \<noteq> [[], ''#'']"
    and "startsWildcard requested \<longleftrightarrow> hd (levels (rewriteRoot requested)) = ''+''"
    and "startsDollar requested \<Longrightarrow> rewriteRoot requested = requested"
proof -
  from assms have u: "validateUTF8String requested = None" and ne: "requested \<noteq> []"
    and wf: "wf_levels (levels requested)"
    by (auto simp: ValidateTopicFilter_None_iff)
  have lp: "literal_plain (levels requested)"
    using wf wf_levels_elem filter_level_plain [OF u] unfolding literal_plain_def by blast
  have len: "length requested \<le> 65535" using u by (simp add: validateUTF8String_None_iff)
  consider (hash) "requested = ''#''" "rewriteRoot requested = ''+/#''"
    | (root) "requested = ''/#''" "rewriteRoot requested = ''/+/#''"
    | (same) "requested \<noteq> ''#''" "requested \<noteq> ''/#''" "rewriteRoot requested = requested"
    using rewriteRoot_cases [of requested] by blast
  note c = this
  show "wf_levels (levels (rewriteRoot requested))"
    using c wf by cases (simp_all add: level_ok_def containsWildcard_def)
  show "literal_plain (levels (rewriteRoot requested))"
    using c lp by cases (simp_all add: literal_plain_def)
  show "length (rewriteRoot requested) \<le> 65535"
    using c len by cases simp_all
  show "levels (rewriteRoot requested) \<noteq> [''#'']"
    using c by cases (simp, simp, metis levels_eqD joinL.simps(2))
  show "levels (rewriteRoot requested) \<noteq> [[]]"
    using c ne by cases (simp, simp, metis levels_eqD joinL.simps(2))
  show "levels (rewriteRoot requested) \<noteq> [[], ''#'']"
    using c by cases (simp, simp, metis levels_eqD joinL.simps(2,3) append_Nil)
  show "startsWildcard requested \<longleftrightarrow> hd (levels (rewriteRoot requested)) = ''+''"
    using c
  proof cases
    case same
    have "hd (levels requested) \<noteq> ''#''"
    proof
      assume "hd (levels requested) = ''#''"
      then obtain ls where "levels requested = ''#'' # ls" by (cases "levels requested") auto
      with wf have "levels requested = [''#'']" by (auto dest: wf_levels_hash)
      then have "requested = joinL [''#'']" by (rule levels_eqD)
      with same show False by simp
    qed
    with same startsWildcard_levels [OF wf] show ?thesis by simp
  qed (simp_all add: startsWildcard_def)
  show "startsDollar requested \<Longrightarrow> rewriteRoot requested = requested"
    using c by cases (simp_all add: startsDollar_def)
qed

text \<open>The distinguishing topic is a valid topic name with the intended levels, matched by the request.\<close>

lemma distinguishing_topic:
  assumes r: "ValidateTopicFilter requested = None"
    and n: "\<not> coversLevels as (levels (rewriteRoot requested))"
  shows "\<exists>t. validateTopicName t = None \<and> MatchFilter requested t \<and> \<not> matchLevels as (levels t)
    \<and> hd (levels t) = hd (distinguish as (levels (rewriteRoot requested)))"
proof -
  let ?rs = "levels (rewriteRoot requested)"
  note good = rewriteRoot_good [OF r]
  define ts where "ts = distinguish as ?rs"
  have ne: "ts \<noteq> []" unfolding ts_def using good by (intro distinguish_nonempty) auto
  have "list_all plain ts" unfolding ts_def by (rule distinguish_plain [OF good(2)])
  moreover have j: "joinL ts \<noteq> []"
    unfolding ts_def using good by (intro distinguish_joinL_nonempty) auto
  moreover have "length (joinL ts) \<le> 65535"
    using distinguish_length [of as ?rs] good(3) unfolding ts_def by simp
  ultimately have t: "validateTopicName (joinL ts) = None" "levels (joinL ts) = ts"
    using ne by (auto intro: topic_of_plain_levels)
  have "matchLevels ?rs ts" and no: "\<not> matchLevels as ts"
    using distinguish_spec [OF n good(1)] by (auto simp: ts_def)
  then have "matchLevels (levels requested) (levels (joinL ts))"
    using rewriteRoot_match [OF j, of requested] t(2) by simp
  moreover have "\<not> startsDollar (joinL ts)" if "startsWildcard requested"
  proof -
    from that good(7) obtain rs' where "?rs = ''+'' # rs'" by (cases ?rs) auto
    then show ?thesis unfolding ts_def using distinguish_hd_plus by simp
  qed
  ultimately have "MatchFilter requested (joinL ts)" by (auto simp: MatchFilter_def)
  with t no show ?thesis by (auto simp: ts_def)
qed

lemma startsDollar_literal: "startsDollar l \<Longrightarrow> l \<noteq> ''+'' \<and> l \<noteq> ''#''"
  by (auto simp: startsDollar_def)

lemma startsDollar_not_wildcard: "startsDollar f \<Longrightarrow> \<not> startsWildcard f"
  by (auto simp: startsDollar_def startsWildcard_def split: list.splits)

lemma matchLevels_literal_hd:
  "matchLevels rs (levels t) \<Longrightarrow> hd rs \<noteq> ''+'' \<Longrightarrow> hd rs \<noteq> ''#'' \<Longrightarrow> rs \<noteq> [] \<Longrightarrow>
   hd rs = hd (levels t)"
  by (cases rs; cases "levels t") (auto split: if_splits)

lemma coverage_sound:
  assumes r: "ValidateTopicFilter requested = None" and t: "validateTopicName t = None"
    and m: "MatchFilter requested t" and c: "coversLevels (levels allowed) (levels (rewriteRoot requested))"
    and d: "\<not> (startsDollar requested \<and> startsWildcard allowed)"
  shows "MatchFilter allowed t"
proof -
  from t have ne: "t \<noteq> []" by (auto simp: validateTopicName_None_iff)
  from m have ml: "matchLevels (levels requested) (levels t)"
    and nd: "\<not> (startsDollar t \<and> startsWildcard requested)"
    by (auto simp: MatchFilter_def split: if_splits)
  from ml rewriteRoot_match [OF ne] c have "matchLevels (levels allowed) (levels t)"
    by (blast intro: coversLevels_sound)
  moreover have "startsDollar requested" if "startsDollar t"
  proof -
    from r have "wf_levels (levels requested)" by (simp add: ValidateTopicFilter_None_iff)
    with that nd have "hd (levels requested) \<noteq> ''+''" "hd (levels requested) \<noteq> ''#''"
      by (auto simp: startsWildcard_levels)
    from matchLevels_literal_hd [OF ml this] that show ?thesis
      by (simp add: startsDollar_levels [of t] startsDollar_levels [of requested])
  qed
  ultimately show ?thesis using d by (auto simp: MatchFilter_def)
qed

lemma CoversFilter_inclusion:
  assumes a: "ValidateTopicFilter allowed = None" and r: "ValidateTopicFilter requested = None"
  shows "CoversFilter allowed requested =
    Some (\<forall>t. validateTopicName t = None \<and> MatchFilter requested t \<longrightarrow> MatchFilter allowed t)"
proof -
  let ?rs = "levels (rewriteRoot requested)"
  from a have ne: "allowed \<noteq> []" by (auto simp: ValidateTopicFilter_None_iff)
  show ?thesis
  proof (cases "startsDollar requested \<and> startsWildcard allowed")
    case True
    then have rr: "rewriteRoot requested = requested" using rewriteRoot_good(8) [OF r] by blast
    have "\<not> coversLevels [] ?rs" by simp
    from distinguishing_topic [OF r this] obtain t where
      t: "validateTopicName t = None" "MatchFilter requested t" "hd (levels t) = hd (distinguish [] ?rs)"
      by blast
    obtain l ls where l: "levels requested = l # ls" by (cases "levels requested") auto
    with True have "startsDollar l" using startsDollar_levels [of requested] by simp
    with l rr t(3) have "hd (levels t) = l" by (auto dest: startsDollar_literal)
    with \<open>startsDollar l\<close> have "startsDollar t" by (simp add: startsDollar_levels [of t])
    with True have "\<not> MatchFilter allowed t" by (simp add: MatchFilter_def)
    with t ne True show ?thesis by (auto simp: CoversFilter_def)
  next
    case False
    have "coversLevels (levels allowed) ?rs \<longleftrightarrow>
      (\<forall>t. validateTopicName t = None \<and> MatchFilter requested t \<longrightarrow> MatchFilter allowed t)"
    proof
      assume "coversLevels (levels allowed) ?rs"
      then show "\<forall>t. validateTopicName t = None \<and> MatchFilter requested t \<longrightarrow> MatchFilter allowed t"
        using coverage_sound [OF r] False by blast
    next
      assume all: "\<forall>t. validateTopicName t = None \<and> MatchFilter requested t \<longrightarrow> MatchFilter allowed t"
      show "coversLevels (levels allowed) ?rs"
      proof (rule ccontr)
        assume "\<not> coversLevels (levels allowed) ?rs"
        from distinguishing_topic [OF r this] obtain t where
          "validateTopicName t = None" "MatchFilter requested t" "\<not> matchLevels (levels allowed) (levels t)"
          by blast
        with all show False by (auto simp: MatchFilter_def split: if_splits)
      qed
    qed
    with False ne show ?thesis by (auto simp: CoversFilter_def)
  qed
qed

text \<open>
  C14: \<^verbatim>\<open>CoversFilter\<close> decides inclusion. For valid filters it does not panic, and it is true exactly
  when every valid topic name matched by the requested filter is matched by the allowed one, with the
  rule that a root wildcard does not reach \<^verbatim>\<open>$\<close> topics. A subscription granted on its answer can
  never deliver a topic outside the permission, and no covered request is refused.
\<close>

theorem CoversFilter_exact:
  assumes "ValidateTopicFilter allowed = None" and "ValidateTopicFilter requested = None"
  shows "CoversFilter allowed requested =
    Some (\<forall>t. validateTopicName t = None \<and> MatchFilter requested t \<longrightarrow> MatchFilter allowed t)"
  using assms by (rule CoversFilter_inclusion)

lemmas topic_run = ValidateTopicFilter_def validateUTF8String_def ValidString_def containsNUL_def
  containsWildcard_def filterByteOk_def validateTopicName_def startsDollar_def startsWildcard_def
  cont_def rewriteRoot_def

theorem CoversFilter_exact_witness:
  "ValidateTopicFilter ''d/#'' = None \<and> ValidateTopicFilter ''d/c/+'' = None
   \<and> CoversFilter ''d/#'' ''d/c/+'' = Some True
   \<and> {t. validateTopicName t = None \<and> MatchFilter ''d/c/+'' t} \<subseteq> {t. MatchFilter ''d/#'' t}"
proof -
  have v: "ValidateTopicFilter ''d/#'' = None" "ValidateTopicFilter ''d/c/+'' = None"
    by (simp_all add: topic_run upt_rec)
  have "CoversFilter ''d/#'' ''d/c/+'' = Some True"
    by (simp add: CoversFilter_def startsDollar_def rewriteRoot_def)
  with CoversFilter_exact [OF v] v show ?thesis by auto
qed

definition level_matches :: "string \<Rightarrow> string \<Rightarrow> bool" where
  "level_matches f t \<longleftrightarrow> f = ''+'' \<or> f = t"

lemma matchLevels_spec:
  "wf_levels fs \<Longrightarrow> fs \<noteq> [] \<Longrightarrow> matchLevels fs ts \<longleftrightarrow>
     (if last fs = ''#''
      then length fs \<le> Suc (length ts) \<and> list_all2 level_matches (butlast fs) (take (length fs - 1) ts)
      else list_all2 level_matches fs ts)"
proof (induction fs arbitrary: ts)
  case (Cons f fs)
  show ?case
  proof (cases "fs = []")
    case True
    then show ?thesis by (auto simp: level_matches_def split: list.splits)
  next
    case False
    with Cons.prems have wf: "wf_levels fs" and f: "f \<noteq> ''#''"
      by (auto simp: level_ok_def containsWildcard_def neq_Nil_conv)
    obtain n where n: "length fs = Suc n" using False by (cases fs) auto
    show ?thesis
    proof (cases ts)
      case Nil
      with f n False show ?thesis by simp
    next
      case (Cons t ts')
      with Cons.IH [OF wf False, of ts'] f n False show ?thesis
        by (simp add: level_matches_def [of f t])
    qed
  qed
qed simp

text \<open>
  C23: the matching loop implements the MQTT matching rule: without a trailing \<^verbatim>\<open>#\<close> the filter has as
  many levels as the topic and each level is equal or \<^verbatim>\<open>+\<close>; with one, the levels before it match the
  first levels of the topic (so \<^verbatim>\<open>a/#\<close> also matches \<^verbatim>\<open>a\<close>); a filter starting with a wildcard matches
  no topic that starts with \<^verbatim>\<open>$\<close>.
\<close>

theorem MatchFilter_spec:
  assumes "ValidateTopicFilter f = None"
  shows "MatchFilter f t \<longleftrightarrow>
    \<not> (startsDollar t \<and> startsWildcard f)
    \<and> (let fs = splitFilter f; ts = splitTopic t
       in if last fs = ''#''
          then length fs \<le> Suc (length ts) \<and> list_all2 level_matches (butlast fs) (take (length fs - 1) ts)
          else list_all2 level_matches fs ts)"
  using assms matchLevels_spec [of "levels f" "levels t"]
  by (auto simp: ValidateTopicFilter_None_iff MatchFilter_def Let_def)

theorem MatchFilter_spec_witness:
  "ValidateTopicFilter ''a/+/#'' = None \<and> MatchFilter ''a/+/#'' ''a/b'' \<and> \<not> MatchFilter ''a/+/#'' ''a''"
proof -
  have v: "ValidateTopicFilter ''a/+/#'' = None" by (simp add: topic_run upt_rec)
  show ?thesis using MatchFilter_spec [OF v, of "''a/b''"] MatchFilter_spec [OF v, of "''a''"] v
    by (simp add: startsDollar_def level_matches_def)
qed

end
