(* ===== verification/TopicTree.thy ===== *)
theory TopicTree
  imports TopicParse
begin

text \<open>
  The subscription trie (\<^verbatim>\<open>internal/topic/tree.go\<close>). A node's two Go maps are association lists whose
  order is the unspecified iteration order. The trie denotes a finite map from (filter levels, client)
  to subscriptions, \<open>lookup\<close>; the locale \<open>subscription_index\<close> states what the broker relies on.
\<close>

section \<open>Nodes\<close>

text \<open>\<open>'s\<close> is the identity of a \<^verbatim>\<open>Subscriber\<close> (an interface value compared by pointer).\<close>

record 's subscription =
  tClientID :: string
  tSubscriber :: 's
  tQoS :: byte

datatype 's node = Node (children: "(string \<times> 's node) list") (subs: "(string \<times> 's subscription) list")

type_synonym 's matches = "(string \<times> 's subscription) list"

definition emptyNode :: "'s node" where
  "emptyNode = Node [] []"

definition NewTree :: "'s node" where
  "NewTree = emptyNode"

definition is_empty :: "'s node \<Rightarrow> bool" where
  "is_empty n \<longleftrightarrow> length (children n) = 0 \<and> length (subs n) = 0"

section \<open>Updates\<close>

fun subscribeAt :: "string list \<Rightarrow> 's subscription \<Rightarrow> 's node \<Rightarrow> 's node" where
  "subscribeAt [] sub (Node cs ss) = Node cs (AList.update (tClientID sub) sub ss)"
| "subscribeAt (lvl # lvls) sub (Node cs ss) =
     Node (AList.update lvl (subscribeAt lvls sub
             (case map_of cs lvl of None \<Rightarrow> emptyNode | Some c \<Rightarrow> c)) cs) ss"

definition Subscribe :: "string \<Rightarrow> 's subscription \<Rightarrow> 's node \<Rightarrow> 's node" where
  "Subscribe flt sub t = subscribeAt (splitFilter flt) sub t"

primrec clone :: "'s node \<Rightarrow> 's node" where
  "clone (Node cs ss) = Node (map (map_prod id clone) cs) (map id ss)"

fun unsubscribeAt :: "string list \<Rightarrow> string \<Rightarrow> 's node \<Rightarrow> 's node" where
  "unsubscribeAt [] clientID (Node cs ss) = Node cs (AList.delete clientID ss)"
| "unsubscribeAt (lvl # lvls) clientID (Node cs ss) =
     (case map_of cs lvl of
        None \<Rightarrow> Node cs ss
      | Some child \<Rightarrow>
          let child' = unsubscribeAt lvls clientID child
          in if is_empty child' then Node (AList.delete lvl cs) ss
             else Node (AList.update lvl child' cs) ss)"

definition Unsubscribe :: "string \<Rightarrow> string \<Rightarrow> 's node \<Rightarrow> 's node" where
  "Unsubscribe flt clientID t = unsubscribeAt (splitFilter flt) clientID t"

primrec unsubscribeAll :: "string \<Rightarrow> 's node \<Rightarrow> 's node" where
  "unsubscribeAll clientID (Node cs ss) =
     Node (filter (\<lambda>(lvl, child). \<not> is_empty child) (map (map_prod id (unsubscribeAll clientID)) cs))
          (AList.delete clientID ss)"

definition UnsubscribeAll :: "string \<Rightarrow> 's node \<Rightarrow> 's node" where
  "UnsubscribeAll clientID t = unsubscribeAll clientID t"

section \<open>Matching\<close>

definition addMatch :: "'s matches \<Rightarrow> 's subscription \<Rightarrow> 's matches" where
  "addMatch out sub =
     (case map_of out (tClientID sub) of
        None \<Rightarrow> AList.update (tClientID sub) sub out
      | Some existing \<Rightarrow>
          if tQoS sub > tQoS existing then AList.update (tClientID sub) sub out else out)"

definition addSubs :: "'s matches \<Rightarrow> 's node \<Rightarrow> 's matches" where
  "addSubs out n = foldl addMatch out (map snd (subs n))"

definition addHash :: "'s matches \<Rightarrow> 's node \<Rightarrow> 's matches" where
  "addHash out n = (case map_of (children n) ''#'' of None \<Rightarrow> out | Some hash \<Rightarrow> addSubs out hash)"

function scanNext :: "string \<Rightarrow> nat \<Rightarrow> nat" where
  "scanNext topic i = (if i < length topic \<and> topic ! i \<noteq> CHR ''/'' then scanNext topic (i + 1) else i)"
  by pat_completeness auto
termination
  by (relation "measure (\<lambda>(topic, i). length topic - i)") auto

declare scanNext.simps [simp del]

lemma scanNext_ge: "i \<le> scanNext topic i"
  by (induction topic i rule: scanNext.induct) (subst scanNext.simps, auto)

function matchNode :: "'s node option \<Rightarrow> string \<Rightarrow> nat \<Rightarrow> 's matches \<Rightarrow> 's matches" where
  "matchNode None topic idx out = out"
| "matchNode (Some n) topic idx out =
     (if idx > length topic then addHash (addSubs out n) n
      else
        let next' = scanNext topic idx;
            level = take (next' - idx) (drop idx topic);
            nextIdx = next' + 1;
            out = matchNode (map_of (children n) level) topic nextIdx out
        in if idx = 0 \<and> length topic > 0 \<and> topic ! 0 = CHR ''$'' then out
           else addHash (matchNode (map_of (children n) ''+'') topic nextIdx out) n)"
  by pat_completeness auto
termination
proof (relation "measure (\<lambda>(n, topic, idx, out). Suc (length topic) - idx)", goal_cases)
  case (2 n topic idx out next' level nextIdx)
  then show ?case using scanNext_ge [of idx topic] by simp
next
  case (3 n topic idx out next' level nextIdx out')
  then show ?case using scanNext_ge [of idx topic] by simp
qed simp

declare matchNode.simps(2) [simp del]

definition Match :: "'s node \<Rightarrow> string \<Rightarrow> 's subscription list" where
  "Match t topic = map snd (matchNode (Some t) topic 0 [])"

section \<open>The map a trie denotes\<close>

fun lookup :: "'s node \<Rightarrow> string list \<Rightarrow> string \<Rightarrow> 's subscription option" where
  "lookup (Node cs ss) [] c = map_of ss c"
| "lookup (Node cs ss) (l # ls) c = (case map_of cs l of None \<Rightarrow> None | Some n \<Rightarrow> lookup n ls c)"

text \<open>Well-formed: keys are distinct and a subscription is filed under its own client.\<close>

primrec wf_node :: "'s node \<Rightarrow> bool" where
  "wf_node (Node cs ss) \<longleftrightarrow> wf_map cs \<and> wf_map ss \<and> (\<forall>(c, s) \<in> set ss. tClientID s = c)
     \<and> (\<forall>b \<in> snd ` set (map (map_prod id wf_node) cs). b)"

text \<open>Pruned: no branch below the root is empty.\<close>

primrec pruned :: "'s node \<Rightarrow> bool" where
  "pruned (Node cs ss) \<longleftrightarrow> (\<forall>(l, c) \<in> set cs. \<not> is_empty c)
     \<and> (\<forall>b \<in> snd ` set (map (map_prod id pruned) cs). b)"

lemma wf_node_Node:
  "wf_node (Node cs ss) \<longleftrightarrow> wf_map cs \<and> wf_map ss \<and> (\<forall>(c, s) \<in> set ss. tClientID s = c)
     \<and> (\<forall>(l, c) \<in> set cs. wf_node c)"
  by (auto simp: split_beta)

lemma pruned_Node:
  "pruned (Node cs ss) \<longleftrightarrow> (\<forall>(l, c) \<in> set cs. \<not> is_empty c \<and> pruned c)"
  by (auto simp: split_beta)

declare wf_node.simps [simp del] pruned.simps [simp del]

lemma lookup_emptyNode [simp]: "lookup emptyNode p c = None"
  by (cases p) (simp_all add: emptyNode_def)

lemma lookup_is_empty: "is_empty n \<Longrightarrow> lookup n p c = None"
  by (cases n; cases p) (simp_all add: is_empty_def)

lemma is_empty_iff: "is_empty n \<longleftrightarrow> n = emptyNode"
  by (cases n) (simp add: is_empty_def emptyNode_def)

lemma lookup_subscribeAt:
  "lookup (subscribeAt ls s n) p c = (if p = ls \<and> c = tClientID s then Some s else lookup n p c)"
proof (induction ls arbitrary: n p)
  case Nil
  then show ?case by (cases n; cases p) (simp_all add: update_conv')
next
  case (Cons l ls)
  then show ?case
    by (cases n; cases p) (auto simp: update_conv' split: option.splits)
qed

lemma lookup_unsubscribeAt:
  "lookup (unsubscribeAt ls i n) p c = (if p = ls \<and> c = i then None else lookup n p c)"
proof (induction ls arbitrary: n p)
  case Nil
  then show ?case by (cases n; cases p) (simp_all add: delete_conv')
next
  case (Cons l ls)
  obtain cs ss where n: "n = Node cs ss" by (cases n)
  show ?case
  proof (cases p)
    case Nil
    then show ?thesis using n by (auto simp: Let_def split: option.splits)
  next
    case p: (Cons l' p')
    have "is_empty (unsubscribeAt ls i child) \<Longrightarrow>
        (if p' = ls \<and> c = i then None else lookup child p' c) = None" for child :: "'a node"
      using Cons.IH [of child p'] lookup_is_empty by metis
    then show ?thesis
      using n p Cons.IH by (auto simp: Let_def update_conv' delete_conv' split: option.splits)
  qed
qed

lemma map_of_prune:
  "wf_map cs \<Longrightarrow> map_of (filter (\<lambda>(l, c). \<not> is_empty c) (map (map_prod id f) cs)) l =
     (case map_of cs l of None \<Rightarrow> None | Some c \<Rightarrow> if is_empty (f c) then None else Some (f c))"
proof (induction cs)
  case (Cons a cs)
  have "map_of cs (fst a) = None"
    using Cons.prems by (auto simp: map_of_eq_None_iff)
  with Cons show ?case by (cases a) (auto split: option.splits)
qed simp

lemma wf_child: "wf_node (Node cs ss) \<Longrightarrow> map_of cs l = Some c \<Longrightarrow> wf_node c"
  by (auto simp: wf_node_Node dest: map_of_in_set)

lemma lookup_unsubscribeAll:
  "wf_node n \<Longrightarrow> lookup (unsubscribeAll i n) p c = (if c = i then None else lookup n p c)"
proof (induction p arbitrary: n)
  case Nil
  then show ?case by (cases n) (simp add: delete_conv')
next
  case (Cons l p)
  obtain cs ss where n: "n = Node cs ss" by (cases n)
  have "wf_map cs" using Cons.prems n by (simp add: wf_node_Node)
  note m = map_of_prune [OF this]
  show ?case
  proof (cases "map_of cs l")
    case None
    then show ?thesis using n by (simp add: m)
  next
    case (Some child)
    have IH: "lookup (unsubscribeAll i child) p c = (if c = i then None else lookup child p c)"
      using Cons n Some by (blast intro: wf_child)
    show ?thesis
    proof (cases "is_empty (unsubscribeAll i child)")
      case True
      then have "lookup (unsubscribeAll i child) p c = None" by (rule lookup_is_empty)
      with IH True show ?thesis using n Some by (auto simp: m split: if_splits)
    next
      case False
      with IH show ?thesis using n Some by (simp add: m)
    qed
  qed
qed

lemma clone_id [simp]: "clone n = n"
proof (induction n)
  case (Node cs ss)
  have "clone c = c" if "(l, c) \<in> set cs" for l c
    using Node.IH [of "(l, c)" c] that by simp
  then have "map (map_prod id clone) cs = cs" by (intro map_idI) auto
  then show ?case by simp
qed

subsection \<open>Well-formedness and pruning are kept\<close>

lemma wf_emptyNode [simp]: "wf_node emptyNode" "pruned emptyNode"
  by (simp_all add: emptyNode_def wf_node_Node pruned_Node)

lemma wf_subscribeAt: "wf_node n \<Longrightarrow> wf_node (subscribeAt ls s n)"
proof (induction ls arbitrary: n)
  case Nil
  then show ?case by (cases n) (auto simp: wf_node_Node set_update_alist wf_map_update)
next
  case (Cons l ls)
  obtain cs ss where n: "n = Node cs ss" by (cases n)
  have "wf_node (case map_of cs l of None \<Rightarrow> emptyNode | Some c \<Rightarrow> c)"
    using Cons.prems n by (auto intro: wf_child split: option.splits)
  from Cons.IH [OF this] show ?case
    using Cons.prems n by (auto simp: wf_node_Node set_update_alist wf_map_update)
qed

lemma subscribeAt_not_empty: "\<not> is_empty (subscribeAt ls s n)"
proof
  assume "is_empty (subscribeAt ls s n)"
  from lookup_is_empty [OF this, of ls "tClientID s"] show False by (simp add: lookup_subscribeAt)
qed

lemma pruned_child: "pruned (Node cs ss) \<Longrightarrow> map_of cs l = Some c \<Longrightarrow> pruned c"
  by (auto simp: pruned_Node dest: map_of_in_set)

lemma pruned_subscribeAt: "wf_node n \<Longrightarrow> pruned n \<Longrightarrow> pruned (subscribeAt ls s n)"
proof (induction ls arbitrary: n)
  case Nil
  then show ?case by (cases n) (simp add: pruned_Node)
next
  case (Cons l ls)
  obtain cs ss where n: "n = Node cs ss" by (cases n)
  let ?c = "case map_of cs l of None \<Rightarrow> emptyNode | Some c \<Rightarrow> c"
  have "wf_node ?c" "pruned ?c"
    using Cons.prems n by (auto intro: wf_child pruned_child split: option.splits)
  from Cons.IH [OF this] show ?case
    using Cons.prems n by (auto simp: pruned_Node wf_node_Node set_update_alist subscribeAt_not_empty)
qed

lemma wf_unsubscribeAt: "wf_node n \<Longrightarrow> wf_node (unsubscribeAt ls i n)"
proof (induction ls arbitrary: n)
  case Nil
  then show ?case by (cases n) (auto simp: wf_node_Node set_delete_alist wf_map_delete)
next
  case (Cons l ls)
  obtain cs ss where n: "n = Node cs ss" by (cases n)
  show ?case
  proof (cases "map_of cs l")
    case None
    then show ?thesis using Cons.prems n by simp
  next
    case (Some child)
    with Cons n have "wf_node (unsubscribeAt ls i child)" by (blast intro: wf_child)
    then show ?thesis
      using Cons.prems n Some
      by (auto simp: wf_node_Node Let_def set_delete_alist set_update_alist wf_map_update wf_map_delete)
  qed
qed

lemma pruned_unsubscribeAt: "wf_node n \<Longrightarrow> pruned n \<Longrightarrow> pruned (unsubscribeAt ls i n)"
proof (induction ls arbitrary: n)
  case Nil
  then show ?case by (cases n) (simp add: pruned_Node)
next
  case (Cons l ls)
  obtain cs ss where n: "n = Node cs ss" by (cases n)
  show ?case
  proof (cases "map_of cs l")
    case None
    then show ?thesis using Cons.prems n by simp
  next
    case (Some child)
    with Cons n have "pruned (unsubscribeAt ls i child)" by (blast intro: wf_child pruned_child)
    then show ?thesis
      using Cons.prems n Some
      by (auto simp: pruned_Node wf_node_Node Let_def set_delete_alist set_update_alist)
  qed
qed

lemma wf_unsubscribeAll: "wf_node n \<Longrightarrow> wf_node (unsubscribeAll i n)"
proof (induction n)
  case (Node cs ss)
  have "wf_map (map (map_prod id (unsubscribeAll i)) cs)"
    using Node.prems by (simp add: wf_node_Node comp_def)
  moreover have "wf_node (unsubscribeAll i c)" if "(l, c) \<in> set cs" for l c
    using Node.IH [of "(l, c)" c] Node.prems that by (auto simp: wf_node_Node)
  ultimately show ?case
    using Node.prems by (auto simp: wf_node_Node wf_map_filter set_delete_alist wf_map_delete)
qed

lemma pruned_unsubscribeAll: "pruned (unsubscribeAll i n)"
proof (induction n)
  case (Node cs ss)
  have "pruned (unsubscribeAll i c)" if "(l, c) \<in> set cs" for l c
    using Node.IH [of "(l, c)" c] that by simp
  then show ?case by (auto simp: pruned_Node)
qed

section \<open>Matching collects exactly the matching subscriptions\<close>

definition subList :: "'s node \<Rightarrow> 's subscription list" where
  "subList n = map snd (subs n)"

definition hashList :: "'s node \<Rightarrow> 's subscription list" where
  "hashList n = (case map_of (children n) ''#'' of None \<Rightarrow> [] | Some h \<Rightarrow> subList h)"

text \<open>The subscriptions \<open>matchNode\<close> visits, in order; \<open>d\<close> says "first level of a \<^verbatim>\<open>$\<close> topic".\<close>

fun collect :: "'s node option \<Rightarrow> string list \<Rightarrow> bool \<Rightarrow> 's subscription list" where
  "collect None ts d = []"
| "collect (Some n) [] d = subList n @ hashList n"
| "collect (Some n) (t # ts) d =
     collect (map_of (children n) t) ts False
     @ (if d then [] else collect (map_of (children n) ''+'') ts False @ hashList n)"

lemma collect_Some_Nil: "collect (Some n) [] d = subList n @ hashList n"
  by simp

lemma scanNext_levels:
  "i \<le> length topic \<Longrightarrow> scanNext topic i \<le> length topic \<and>
    levels (drop i topic) = take (scanNext topic i - i) (drop i topic) #
      (if scanNext topic i < length topic then levels (drop (Suc (scanNext topic i)) topic) else [])"
proof (induction topic i rule: scanNext.induct)
  case (1 topic i)
  let ?n = "scanNext topic (Suc i)"
  show ?case
  proof (cases "i < length topic \<and> topic ! i \<noteq> CHR ''/''")
    case True
    then have s: "scanNext topic i = ?n" by (subst scanNext.simps) simp
    have d: "drop i topic = topic ! i # drop (Suc i) topic" using True by (simp add: Cons_nth_drop_Suc)
    have "Suc i \<le> ?n" by (rule scanNext_ge)
    then have t: "?n - i = Suc (?n - Suc i)" by simp
    from True "1.IH" have IH: "?n \<le> length topic"
      "levels (drop (Suc i) topic) = take (?n - Suc i) (drop (Suc i) topic) #
        (if ?n < length topic then levels (drop (Suc ?n) topic) else [])" by auto
    show ?thesis unfolding s using IH True by (simp add: d t)
  next
    case False
    then have s: "scanNext topic i = i" by (subst scanNext.simps) auto
    show ?thesis
    proof (cases "i = length topic")
      case True
      with s show ?thesis by simp
    next
      case neq: False
      with False "1.prems" have "i < length topic" "topic ! i = CHR ''/''" by auto
      then have "drop i topic = CHR ''/'' # drop (Suc i) topic" by (metis Cons_nth_drop_Suc)
      with s \<open>i < length topic\<close> show ?thesis by simp
    qed
  qed
qed

lemma addSubs_foldl: "addSubs out n = foldl addMatch out (subList n)"
  by (simp add: addSubs_def subList_def)

lemma addHash_foldl: "addHash out n = foldl addMatch out (hashList n)"
  by (auto simp: addHash_def hashList_def addSubs_foldl split: option.splits)

lemma matchNode_collect:
  "matchNode n topic i out = foldl addMatch out
     (collect n (if i > length topic then [] else levels (drop i topic)) (i = 0 \<and> startsDollar topic))"
proof (induction n topic i out rule: matchNode.induct)
  case (1 topic i out)
  then show ?case by simp
next
  case (2 n topic i out)
  show ?case
  proof (cases "i > length topic")
    case True
    then show ?thesis
      by (simp add: matchNode.simps(2) [of n] addSubs_foldl addHash_foldl)
  next
    case False
    define nx where "nx = scanNext topic i"
    define level where "level = take (nx - i) (drop i topic)"
    define rest where "rest = (if nx < length topic then levels (drop (Suc nx) topic) else [])"
    from False scanNext_levels [of i topic] have l: "levels (drop i topic) = level # rest"
      and n: "nx \<le> length topic" by (auto simp: nx_def level_def rest_def)
    have rest: "(if nx + 1 > length topic then [] else levels (drop (nx + 1) topic)) = rest"
      using n by (auto simp: rest_def)
    define a where "a = collect (map_of (children n) level) rest False"
    have a: "matchNode (map_of (children n) level) topic (nx + 1) out = foldl addMatch out a"
      using "2.IH"(1) [OF False nx_def level_def refl] unfolding rest a_def by simp
    have dollar: "i = 0 \<and> length topic > 0 \<and> topic ! 0 = CHR ''$'' \<longleftrightarrow> i = 0 \<and> startsDollar topic"
      by (cases topic) (auto simp: startsDollar_def)
    note step = matchNode.simps(2) [of n topic i out, unfolded Let_def, folded nx_def,
      folded level_def, unfolded a dollar]
    show ?thesis
    proof (cases "i = 0 \<and> startsDollar topic")
      case True
      with step False have "matchNode (Some n) topic i out = foldl addMatch out a" by auto
      with False True l show ?thesis by (simp add: a_def)
    next
      case nd: False
      have "matchNode (map_of (children n) ''+'') topic (nx + 1) (foldl addMatch out a) =
          foldl addMatch (foldl addMatch out a) (collect (map_of (children n) ''+'') rest False)"
        using "2.IH"(2) [OF False nx_def level_def refl a [symmetric]] nd dollar unfolding rest by auto
      with step False nd have "matchNode (Some n) topic i out = foldl addMatch out
          (a @ collect (map_of (children n) ''+'') rest False @ hashList n)"
        by (auto simp: addHash_foldl)
      with False nd l show ?thesis by (auto simp: a_def)
    qed
  qed
qed

lemma Match_collect:
  "Match t topic = map snd (foldl addMatch [] (collect (Some t) (levels topic) (startsDollar topic)))"
  by (simp add: Match_def matchNode_collect)

subsection \<open>Which subscriptions are collected\<close>

lemma map_of_snd_iff: "wf_map m \<Longrightarrow> s \<in> set (map snd m) \<longleftrightarrow> (\<exists>c. map_of m c = Some s)"
  by (auto dest: map_of_in_set) (force simp: map_of_eq_Some_iff)

lemma subList_iff: "wf_node n \<Longrightarrow> s \<in> set (subList n) \<longleftrightarrow> (\<exists>c. lookup n [] c = Some s)"
  by (cases n) (simp only: subList_def wf_node_Node lookup.simps node.sel map_of_snd_iff)

lemma lookup_Cons: "lookup n (l # p) c = (case map_of (children n) l of None \<Rightarrow> None | Some m \<Rightarrow> lookup m p c)"
  by (cases n) simp

lemma wf_children: "wf_node n \<Longrightarrow> map_of (children n) l = Some c \<Longrightarrow> wf_node c"
  by (cases n) (auto intro: wf_child)

lemma hashList_iff: "wf_node n \<Longrightarrow> s \<in> set (hashList n) \<longleftrightarrow> (\<exists>c. lookup n [''#''] c = Some s)"
  by (cases "map_of (children n) ''#''") (auto simp: hashList_def lookup_Cons subList_iff wf_children)

definition paths_ok :: "'s node \<Rightarrow> bool" where
  "paths_ok n \<longleftrightarrow> (\<forall>p c s. lookup n p c = Some s \<longrightarrow> wf_levels p)"

lemma paths_ok_child: "paths_ok n \<Longrightarrow> map_of (children n) l = Some c \<Longrightarrow> paths_ok c"
  unfolding paths_ok_def using wf_levels_tl by (metis lookup_Cons option.simps(5))

definition selects :: "bool \<Rightarrow> string list \<Rightarrow> string list \<Rightarrow> bool" where
  "selects d p ts \<longleftrightarrow> matchLevels p ts \<and> (d \<longrightarrow> p = [] \<or> hd p \<noteq> ''+'' \<and> hd p \<noteq> ''#'')"

lemma collect_iff:
  "wf_node n \<Longrightarrow> paths_ok n \<Longrightarrow> \<forall>t \<in> set ts. t \<noteq> ''+'' \<and> t \<noteq> ''#'' \<Longrightarrow> (d \<Longrightarrow> ts \<noteq> []) \<Longrightarrow>
   s \<in> set (collect (Some n) ts d) \<longleftrightarrow> (\<exists>p c. lookup n p c = Some s \<and> selects d p ts)"
proof (induction ts arbitrary: n d)
  case Nil
  have "wf_levels p" if "lookup n p c = Some s" for p c
    using Nil.prems(2) that unfolding paths_ok_def by blast
  moreover have "matchLevels p [] \<longleftrightarrow> p = [] \<or> p = [''#'']" if "wf_levels p" for p
    using that by (cases p) (auto dest: wf_levels_hash split: if_splits)
  ultimately have "(\<exists>p c. lookup n p c = Some s \<and> matchLevels p []) \<longleftrightarrow>
      (\<exists>c. lookup n [] c = Some s) \<or> (\<exists>c. lookup n [''#''] c = Some s)"
    by blast
  with Nil show ?case by (auto simp: subList_iff hashList_iff selects_def)
next
  case (Cons t ts)
  have t: "t \<noteq> ''+''" "t \<noteq> ''#''" "\<forall>t \<in> set ts. t \<noteq> ''+'' \<and> t \<noteq> ''#''" using Cons.prems(3) by auto
  have sub: "s \<in> set (collect (map_of (children n) l) ts False) \<longleftrightarrow>
      (\<exists>p c. lookup n (l # p) c = Some s \<and> matchLevels p ts)" for l
    using Cons.IH [OF wf_children [OF Cons.prems(1)] paths_ok_child [OF Cons.prems(2)] t(3)]
    by (cases "map_of (children n) l") (auto simp: lookup_Cons selects_def)
  have hash: "s \<in> set (hashList n) \<longleftrightarrow> (\<exists>p c. lookup n (''#'' # p) c = Some s)"
    using Cons.prems(2) unfolding hashList_iff [OF Cons.prems(1)] paths_ok_def
    by (metis wf_levels_hash)
  have nil: "\<not> selects d [] (t # ts)" by (simp add: selects_def)
  have cons: "selects d (l # p) (t # ts) \<longleftrightarrow>
      l = t \<and> matchLevels p ts \<or> \<not> d \<and> (l = ''+'' \<and> matchLevels p ts \<or> l = ''#'')" for l p
    using t(1,2) by (auto simp: selects_def)
  have "(\<exists>p c. lookup n p c = Some s \<and> selects d p (t # ts)) \<longleftrightarrow>
      (\<exists>l p c. lookup n (l # p) c = Some s \<and> selects d (l # p) (t # ts))"
    using nil by (metis list.exhaust)
  also have "\<dots> \<longleftrightarrow> (\<exists>p c. lookup n (t # p) c = Some s \<and> matchLevels p ts)
      \<or> \<not> d \<and> ((\<exists>p c. lookup n (''+'' # p) c = Some s \<and> matchLevels p ts)
                \<or> (\<exists>p c. lookup n (''#'' # p) c = Some s))"
    unfolding cons by blast
  also have "\<dots> \<longleftrightarrow> s \<in> set (collect (Some n) (t # ts) d)"
    using sub hash by auto
  finally show ?case by blast
qed

subsection \<open>The best subscription per client\<close>

definition keyed :: "'s matches \<Rightarrow> bool" where
  "keyed out \<longleftrightarrow> wf_map out \<and> (\<forall>(c, s) \<in> set out. tClientID s = c)"

lemma keyed_addMatch: "keyed out \<Longrightarrow> keyed (addMatch out s)"
  by (auto simp: keyed_def addMatch_def wf_map_update set_update_alist split: option.splits)

lemma keyed_foldl: "keyed out \<Longrightarrow> keyed (foldl addMatch out xs)"
  by (induction xs arbitrary: out) (auto intro: keyed_addMatch)

lemma map_of_addMatch:
  "map_of (addMatch out s) c =
     (if c = tClientID s then
        (case map_of out c of None \<Rightarrow> Some s | Some e \<Rightarrow> if tQoS s > tQoS e then Some s else Some e)
      else map_of out c)"
  by (auto simp: addMatch_def update_conv' split: option.splits)

lemma foldl_addMatch_best:
  "map_of (foldl addMatch out xs) c = Some b \<Longrightarrow>
     (map_of out c = Some b \<or> b \<in> set xs \<and> tClientID b = c)
     \<and> (\<forall>s \<in> set xs. tClientID s = c \<longrightarrow> tQoS s \<le> tQoS b)
     \<and> (\<forall>e. map_of out c = Some e \<longrightarrow> tQoS e \<le> tQoS b)"
proof (induction xs arbitrary: out)
  case (Cons x xs)
  from Cons.IH [of "addMatch out x"] Cons.prems have IH:
    "map_of (addMatch out x) c = Some b \<or> b \<in> set xs \<and> tClientID b = c"
    "\<forall>s \<in> set xs. tClientID s = c \<longrightarrow> tQoS s \<le> tQoS b"
    "\<forall>e. map_of (addMatch out x) c = Some e \<longrightarrow> tQoS e \<le> tQoS b" by auto
  show ?case
  proof (cases "c = tClientID x")
    case True
    then show ?thesis
      using IH by (cases "map_of out c") (auto simp: map_of_addMatch split: if_splits)
  next
    case False
    then show ?thesis using IH by (auto simp: map_of_addMatch)
  qed
qed simp

lemma foldl_addMatch_dom:
  "map_of (foldl addMatch out xs) c = None \<longleftrightarrow>
     map_of out c = None \<and> (\<forall>s \<in> set xs. tClientID s \<noteq> c)"
  by (induction xs arbitrary: out) (auto simp: map_of_addMatch split: option.splits if_splits)

section \<open>The contract of the subscription index\<close>

text \<open>
  What the broker relies on: a map from (filter, client) to subscriptions with point updates, removal
  of a client, and a query that returns, once per client, the best subscription among those whose
  filter matches the topic.
\<close>

locale subscription_index =
  fixes new :: 't
    and sub :: "string \<Rightarrow> 's subscription \<Rightarrow> 't \<Rightarrow> 't"
    and unsub :: "string \<Rightarrow> string \<Rightarrow> 't \<Rightarrow> 't"
    and unsub_all :: "string \<Rightarrow> 't \<Rightarrow> 't"
    and query :: "'t \<Rightarrow> string \<Rightarrow> 's subscription list"
    and find :: "'t \<Rightarrow> string \<Rightarrow> string \<Rightarrow> 's subscription option"
    and invar :: "'t \<Rightarrow> bool"
  assumes invar_new: "invar new"
    and invar_sub: "invar t \<Longrightarrow> ValidateTopicFilter f = None \<Longrightarrow> invar (sub f s t)"
    and invar_unsub: "invar t \<Longrightarrow> invar (unsub f c t)"
    and invar_unsub_all: "invar t \<Longrightarrow> invar (unsub_all c t)"
    and find_new: "find new g d = None"
    and find_sub: "invar t \<Longrightarrow>
      find (sub f s t) g d = (if g = f \<and> d = tClientID s then Some s else find t g d)"
    and find_unsub: "invar t \<Longrightarrow> find (unsub f c t) g d = (if g = f \<and> d = c then None else find t g d)"
    and find_unsub_all: "invar t \<Longrightarrow> find (unsub_all c t) g d = (if d = c then None else find t g d)"
    and query_sound: "invar t \<Longrightarrow> validateTopicName topic = None \<Longrightarrow> b \<in> set (query t topic) \<Longrightarrow>
      \<exists>f. find t f (tClientID b) = Some b \<and> MatchFilter f topic"
    and query_best: "invar t \<Longrightarrow> validateTopicName topic = None \<Longrightarrow> find t f c = Some s \<Longrightarrow>
      MatchFilter f topic \<Longrightarrow> \<exists>b \<in> set (query t topic). tClientID b = c \<and> tQoS s \<le> tQoS b"
    and query_once: "invar t \<Longrightarrow> distinct (map tClientID (query t topic))"
begin

definition routed :: "'t \<Rightarrow> string \<Rightarrow> string \<Rightarrow> bool" where
  "routed t topic c \<longleftrightarrow> c \<in> tClientID ` set (query t topic)"

lemma routed_iff:
  "invar t \<Longrightarrow> validateTopicName topic = None \<Longrightarrow>
   routed t topic c \<longleftrightarrow> (\<exists>f s. find t f c = Some s \<and> MatchFilter f topic)"
  unfolding routed_def using query_sound [of t topic] by (auto dest: query_best) blast

lemma routed_after_sub:
  "invar t \<Longrightarrow> ValidateTopicFilter f = None \<Longrightarrow> validateTopicName topic = None \<Longrightarrow>
   MatchFilter f topic \<Longrightarrow> routed (sub f s t) topic (tClientID s)"
  by (auto simp: routed_iff invar_sub find_sub intro!: exI [of _ f])

lemma not_routed_after_unsub_all:
  "invar t \<Longrightarrow> validateTopicName topic = None \<Longrightarrow> \<not> routed (unsub_all c t) topic c"
  by (auto simp: routed_iff invar_unsub_all find_unsub_all)

lemma sub_keeps_others:
  "invar t \<Longrightarrow> ValidateTopicFilter f = None \<Longrightarrow> validateTopicName topic = None \<Longrightarrow>
   c \<noteq> tClientID s \<Longrightarrow> routed (sub f s t) topic c \<longleftrightarrow> routed t topic c"
  by (auto simp: routed_iff invar_sub find_sub)

lemma unsub_all_keeps_others:
  "invar t \<Longrightarrow> validateTopicName topic = None \<Longrightarrow> d \<noteq> c \<Longrightarrow>
   routed (unsub_all c t) topic d \<longleftrightarrow> routed t topic d"
  by (auto simp: routed_iff invar_unsub_all find_unsub_all)

lemma query_unique:
  assumes "invar t" "b \<in> set (query t topic)" "b' \<in> set (query t topic)" "tClientID b = tClientID b'"
  shows "b = b'"
  using query_once [OF assms(1), of topic] assms(2-4) by (auto simp: distinct_map dest: inj_onD)

lemma query_max:
  assumes "invar t" "validateTopicName topic = None" "b \<in> set (query t topic)"
    "find t f (tClientID b) = Some s" "MatchFilter f topic"
  shows "tQoS s \<le> tQoS b"
  using query_best [OF assms(1,2,4,5)] query_unique [OF assms(1) _ assms(3)] by auto

end

section \<open>The trie implements the contract\<close>

definition find :: "'s node \<Rightarrow> string \<Rightarrow> string \<Rightarrow> 's subscription option" where
  "find t f c = lookup t (splitFilter f) c"

definition index_ok :: "'s node \<Rightarrow> bool" where
  "index_ok t \<longleftrightarrow> wf_node t \<and> pruned t
     \<and> (\<forall>p c s. lookup t p c = Some s \<longrightarrow>
          tClientID s = c \<and> (\<exists>f. p = splitFilter f \<and> ValidateTopicFilter f = None))"

lemma levels_inject: "levels f = levels g \<longleftrightarrow> f = g"
  by (metis joinL_levels)

lemma index_ok_paths: "index_ok t \<Longrightarrow> paths_ok t"
  unfolding index_ok_def paths_ok_def by (metis ValidateTopicFilter_None_iff)

lemma index_ok_Subscribe:
  assumes "index_ok t" "ValidateTopicFilter f = None"
  shows "index_ok (Subscribe f s t)"
  using assms unfolding index_ok_def Subscribe_def
  by (auto simp: wf_subscribeAt pruned_subscribeAt lookup_subscribeAt simp del: splitFilter_levels
      split: if_splits)

lemma index_ok_Unsubscribe: "index_ok t \<Longrightarrow> index_ok (Unsubscribe f c t)"
  unfolding index_ok_def Unsubscribe_def
  by (auto simp: wf_unsubscribeAt pruned_unsubscribeAt lookup_unsubscribeAt simp del: splitFilter_levels
      split: if_splits)

lemma index_ok_UnsubscribeAll: "index_ok t \<Longrightarrow> index_ok (UnsubscribeAll c t)"
  unfolding index_ok_def UnsubscribeAll_def
  by (auto simp: wf_unsubscribeAll pruned_unsubscribeAll lookup_unsubscribeAll
      simp del: splitFilter_levels split: if_splits)

lemma index_ok_NewTree: "index_ok NewTree"
  by (simp add: index_ok_def NewTree_def)

lemma find_Subscribe:
  "find (Subscribe f s t) g c = (if g = f \<and> c = tClientID s then Some s else find t g c)"
  by (simp add: find_def Subscribe_def lookup_subscribeAt levels_inject)

lemma find_Unsubscribe:
  "find (Unsubscribe f c t) g d = (if g = f \<and> d = c then None else find t g d)"
  by (simp add: find_def Unsubscribe_def lookup_unsubscribeAt levels_inject)

lemma find_UnsubscribeAll:
  "index_ok t \<Longrightarrow> find (UnsubscribeAll c t) g d = (if d = c then None else find t g d)"
  by (simp add: find_def UnsubscribeAll_def lookup_unsubscribeAll index_ok_def)

lemma plain_not_wildcard: "plain l \<Longrightarrow> l \<noteq> ''+'' \<and> l \<noteq> ''#''"
  by (auto simp: plain_def containsWildcard_def)

lemma selects_MatchFilter:
  assumes "ValidateTopicFilter f = None"
  shows "selects (startsDollar topic) (levels f) (levels topic) \<longleftrightarrow> MatchFilter f topic"
proof -
  have "wf_levels (levels f)" using assms by (simp add: ValidateTopicFilter_None_iff)
  then show ?thesis
    by (auto simp: selects_def MatchFilter_def startsWildcard_levels)
qed

lemma index_ok_lookup:
  "index_ok t \<Longrightarrow> lookup t p c = Some s \<Longrightarrow>
   tClientID s = c \<and> (\<exists>f. p = levels f \<and> ValidateTopicFilter f = None)"
  unfolding index_ok_def by simp

lemma collect_MatchFilter:
  assumes "index_ok t" "validateTopicName topic = None"
  shows "s \<in> set (collect (Some t) (levels topic) (startsDollar topic)) \<longleftrightarrow>
    (\<exists>f. find t f (tClientID s) = Some s \<and> MatchFilter f topic)"
proof -
  have "\<forall>l \<in> set (levels topic). l \<noteq> ''+'' \<and> l \<noteq> ''#''"
    using assms(2) plain_not_wildcard by (auto simp: validateTopicName_None_iff list_all_iff)
  then have "s \<in> set (collect (Some t) (levels topic) (startsDollar topic)) \<longleftrightarrow>
      (\<exists>p c. lookup t p c = Some s \<and> selects (startsDollar topic) p (levels topic))"
    using assms(1) by (intro collect_iff) (auto simp: index_ok_def index_ok_paths)
  also have "\<dots> \<longleftrightarrow> (\<exists>f. find t f (tClientID s) = Some s \<and> MatchFilter f topic)"
  proof
    assume "\<exists>p c. lookup t p c = Some s \<and> selects (startsDollar topic) p (levels topic)"
    then obtain p c where p: "lookup t p c = Some s" "selects (startsDollar topic) p (levels topic)"
      by blast
    from index_ok_lookup [OF assms(1) p(1)] obtain f where "tClientID s = c" "p = levels f"
      "ValidateTopicFilter f = None" by blast
    with p show "\<exists>f. find t f (tClientID s) = Some s \<and> MatchFilter f topic"
      by (auto simp: find_def selects_MatchFilter)
  next
    assume "\<exists>f. find t f (tClientID s) = Some s \<and> MatchFilter f topic"
    then obtain f where f: "lookup t (levels f) (tClientID s) = Some s" "MatchFilter f topic"
      by (auto simp: find_def)
    from index_ok_lookup [OF assms(1) f(1)] have "ValidateTopicFilter f = None"
      by (auto simp: levels_inject)
    with f show "\<exists>p c. lookup t p c = Some s \<and> selects (startsDollar topic) p (levels topic)"
      using selects_MatchFilter by blast
  qed
  finally show ?thesis .
qed

lemma Match_map_of:
  "s \<in> set (Match t topic) \<longleftrightarrow>
     map_of (foldl addMatch [] (collect (Some t) (levels topic) (startsDollar topic))) (tClientID s) = Some s"
proof -
  let ?m = "foldl addMatch [] (collect (Some t) (levels topic) (startsDollar topic))"
  have k: "keyed ?m" by (rule keyed_foldl) (simp add: keyed_def)
  then have w: "wf_map ?m" by (simp add: keyed_def)
  have "s \<in> set (Match t topic) \<longleftrightarrow> (\<exists>c. map_of ?m c = Some s)"
    unfolding Match_collect by (rule map_of_snd_iff [OF w])
  also have "\<dots> \<longleftrightarrow> map_of ?m (tClientID s) = Some s"
    using k by (auto simp: keyed_def dest: map_of_in_set)
  finally show ?thesis .
qed

lemma Match_once: "distinct (map tClientID (Match t topic))"
proof -
  let ?m = "foldl addMatch [] (collect (Some t) (levels topic) (startsDollar topic))"
  have "keyed ?m" by (rule keyed_foldl) (simp add: keyed_def)
  then have "wf_map ?m" "map tClientID (map snd ?m) = map fst ?m" by (auto simp: keyed_def)
  then show ?thesis unfolding Match_collect by argo
qed

interpretation trie: subscription_index NewTree Subscribe Unsubscribe UnsubscribeAll Match find index_ok
proof (unfold_locales, goal_cases)
  case (9 t topic b)
  then show ?case
    using foldl_addMatch_best [of "[]" "collect (Some t) (levels topic) (startsDollar topic)" "tClientID b" b]
    by (auto simp: Match_map_of collect_MatchFilter)
next
  case (10 t topic f c s)
  let ?xs = "collect (Some t) (levels topic) (startsDollar topic)"
  have "tClientID s = c" using 10 by (auto simp: index_ok_def find_def)
  with 10 have s: "s \<in> set ?xs" using collect_MatchFilter by blast
  then obtain b where b: "map_of (foldl addMatch [] ?xs) c = Some b"
    using foldl_addMatch_dom [of "[]" ?xs c] \<open>tClientID s = c\<close> by fastforce
  from foldl_addMatch_best [OF b] s \<open>tClientID s = c\<close> have "tClientID b = c" "tQoS s \<le> tQoS b" by auto
  with b show ?case by (auto simp: Match_map_of intro!: bexI [of _ b])
qed (auto simp: index_ok_NewTree index_ok_Subscribe index_ok_Unsubscribe index_ok_UnsubscribeAll
    find_Subscribe find_Unsubscribe find_UnsubscribeAll Match_once, simp add: find_def NewTree_def)

section \<open>Properties of the trie\<close>

text \<open>Sequences of updates, on the trie and on the map it stands for.\<close>

datatype 's tree_op = TSub string "'s subscription" | TUnsub string string | TUnsubAll string

fun tree_step :: "'s node \<Rightarrow> 's tree_op \<Rightarrow> 's node" where
  "tree_step t (TSub f s) = Subscribe f s (clone t)"
| "tree_step t (TUnsub f c) = Unsubscribe f c (clone t)"
| "tree_step t (TUnsubAll c) = UnsubscribeAll c (clone t)"

fun spec_step :: "(string \<Rightarrow> string \<Rightarrow> 's subscription option) \<Rightarrow> 's tree_op \<Rightarrow>
    string \<Rightarrow> string \<Rightarrow> 's subscription option" where
  "spec_step m (TSub f s) = (\<lambda>g d. if g = f \<and> d = tClientID s then Some s else m g d)"
| "spec_step m (TUnsub f c) = (\<lambda>g d. if g = f \<and> d = c then None else m g d)"
| "spec_step m (TUnsubAll c) = (\<lambda>g d. if d = c then None else m g d)"

fun valid_op :: "'s tree_op \<Rightarrow> bool" where
  "valid_op (TSub f s) \<longleftrightarrow> ValidateTopicFilter f = None"
| "valid_op _ \<longleftrightarrow> True"

lemma tree_step_index_ok: "index_ok t \<Longrightarrow> valid_op x \<Longrightarrow> index_ok (tree_step t x)"
  by (cases x) (auto intro: trie.invar_sub trie.invar_unsub trie.invar_unsub_all)

lemma find_tree_step: "index_ok t \<Longrightarrow> find (tree_step t x) = spec_step (find t) x"
  by (cases x) (auto simp: trie.find_sub trie.find_unsub trie.find_unsub_all intro!: ext)

lemma find_NewTree: "find NewTree = (\<lambda>_ _. None)"
  by (intro ext) (rule trie.find_new)

lemma tree_run_refines:
  "index_ok t \<Longrightarrow> list_all valid_op ops \<Longrightarrow>
   index_ok (foldl tree_step t ops) \<and> find (foldl tree_step t ops) = foldl spec_step (find t) ops"
  by (induction ops arbitrary: t) (auto simp: tree_step_index_ok find_tree_step)

lemma empty_lookup_empty:
  "wf_node n \<Longrightarrow> pruned n \<Longrightarrow> (\<And>p c. lookup n p c = None) \<Longrightarrow> is_empty n"
proof (induction n)
  case (Node cs ss)
  have "ss = []"
  proof (rule ccontr)
    assume "ss \<noteq> []"
    then obtain c s where "(c, s) \<in> set ss" by (cases ss) auto
    moreover have "map_of ss c = None" using Node.prems(3) [of "[]" c] by simp
    ultimately show False by (auto simp: map_of_eq_None_iff dest: in_keys)
  qed
  moreover have "cs = []"
  proof (rule ccontr)
    assume "cs \<noteq> []"
    then obtain l n where n: "(l, n) \<in> set cs" by (cases cs) auto
    with Node.prems(1) have m: "map_of cs l = Some n" by (simp add: wf_node_Node)
    have "lookup n p c = None" for p c using Node.prems(3) [of "l # p" c] m by simp
    then have "is_empty n"
      using Node.IH [of "(l, n)" n] n Node.prems m by (auto intro: wf_child pruned_child)
    then show False using n Node.prems(2) by (auto simp: pruned_Node)
  qed
  ultimately show ?case by (simp add: is_empty_def)
qed

text \<open>
  C4: routing is exact. For a valid topic, \<^verbatim>\<open>Tree.Match\<close> returns a client exactly when the client has
  a stored filter that matches the topic (by the very \<^verbatim>\<open>MatchFilter\<close> used for retained messages and
  permissions), returns it once, and returns the subscription with the highest granted QoS among its
  matching ones.
\<close>

theorem Match_exact:
  assumes "index_ok t" and "validateTopicName topic = None"
  shows "(\<forall>c. (\<exists>b \<in> set (Match t topic). tClientID b = c) \<longleftrightarrow>
      (\<exists>f s. find t f c = Some s \<and> MatchFilter f topic))
    \<and> distinct (map tClientID (Match t topic))
    \<and> (\<forall>b \<in> set (Match t topic).
      (\<exists>f. find t f (tClientID b) = Some b \<and> MatchFilter f topic)
      \<and> (\<forall>f s. find t f (tClientID b) = Some s \<and> MatchFilter f topic \<longrightarrow> tQoS s \<le> tQoS b))"
  using trie.routed_iff [OF assms] trie.query_once [OF assms(1)] trie.query_sound [OF assms]
    trie.query_max [OF assms]
  by (auto simp: trie.routed_def image_iff) metis+

abbreviation sub_ex :: "byte \<Rightarrow> nat subscription" where
  "sub_ex q \<equiv> \<lparr>tClientID = ''c'', tSubscriber = 0, tQoS = q\<rparr>"

theorem Match_exact_witness:
  "\<exists>b \<in> set (Match (Subscribe ''a/#'' (sub_ex 1) (Subscribe ''a/+'' (sub_ex 0) NewTree)) ''a/b'').
     tClientID b = ''c'' \<and> tQoS b = 1"
proof -
  let ?t = "Subscribe ''a/#'' (sub_ex 1) (Subscribe ''a/+'' (sub_ex 0) NewTree)"
  have v: "ValidateTopicFilter ''a/#'' = None" "ValidateTopicFilter ''a/+'' = None"
    by (simp_all add: topic_run upt_rec)
  then have ok: "index_ok ?t" by (intro index_ok_Subscribe index_ok_NewTree)
  have t: "validateTopicName ''a/b'' = None" by (simp add: topic_run)
  have f: "find ?t ''a/#'' ''c'' = Some (sub_ex 1)" by (simp add: find_Subscribe)
  have m: "MatchFilter ''a/#'' ''a/b''" by (simp add: MatchFilter_def startsDollar_def)
  from Match_exact [OF ok t] f m obtain b where
    b: "b \<in> set (Match ?t ''a/b'')" "tClientID b = ''c''" by blast
  from Match_exact [OF ok t] b f m have "1 \<le> tQoS b" and
    "\<exists>g. find ?t g ''c'' = Some b" by fastforce+
  then have "tQoS b = 1" by (auto simp: find_Subscribe trie.find_new split: if_splits)
  with b show ?thesis by blast
qed

text \<open>
  C13: the copy-on-write trie implements a map. After any sequence of subscribe, unsubscribe and
  unsubscribe-all operations (each on a clone of the current tree) with valid filters, looking up a
  filter and client gives what the same sequence gives on a plain map, and the structural invariant
  holds: distinct keys, every subscription under its own client, no empty branch.
\<close>

theorem tree_refines_map:
  assumes "list_all valid_op ops"
  shows "find (foldl tree_step NewTree ops) = foldl spec_step (\<lambda>_ _. None) ops
    \<and> index_ok (foldl tree_step NewTree ops)"
  using tree_run_refines [OF trie.invar_new assms] by (simp add: find_NewTree)

theorem tree_refines_map_witness:
  "find (foldl tree_step NewTree [TSub ''a'' (sub_ex 1), TSub ''b'' (sub_ex 0), TUnsub ''a'' ''c'']) ''a'' ''c''
     = None
   \<and> find (foldl tree_step NewTree [TSub ''a'' (sub_ex 1), TSub ''b'' (sub_ex 0), TUnsub ''a'' ''c'']) ''b'' ''c''
     = Some (sub_ex 0)"
proof -
  have "list_all valid_op [TSub ''a'' (sub_ex 1), TSub ''b'' (sub_ex 0), TUnsub ''a'' ''c'']"
    by (simp add: topic_run)
  from tree_refines_map [OF this] show ?thesis by simp
qed

text \<open>
  C24: no routing memory is leaked. Once every subscription was removed, one by one or by client, the
  tree is the empty tree again: all branches have been pruned.
\<close>

theorem tree_no_leak:
  assumes "list_all valid_op ops"
    and "\<And>f c. find (foldl tree_step NewTree ops) f c = None"
  shows "foldl tree_step NewTree ops = NewTree"
proof -
  let ?t = "foldl tree_step NewTree ops"
  from tree_run_refines [OF trie.invar_new assms(1)] have ok: "index_ok ?t" by blast
  have "lookup ?t p c = None" for p c
  proof (rule ccontr)
    assume "lookup ?t p c \<noteq> None"
    then obtain s where "lookup ?t p c = Some s" by blast
    moreover from index_ok_lookup [OF ok this] obtain f where "p = levels f" by blast
    ultimately show False using assms(2) [of f c] by (simp add: find_def)
  qed
  with ok have "is_empty ?t" by (intro empty_lookup_empty) (auto simp: index_ok_def)
  then show ?thesis by (simp add: is_empty_iff NewTree_def)
qed

theorem tree_no_leak_witness:
  "foldl tree_step NewTree [TSub ''a/b'' (sub_ex 1), TSub ''a/c'' (sub_ex 0), TUnsubAll ''c''] = NewTree"
proof (rule tree_no_leak)
  show v: "list_all valid_op [TSub ''a/b'' (sub_ex 1), TSub ''a/c'' (sub_ex 0), TUnsubAll ''c'']"
    by (simp add: topic_run upt_rec)
  show "find (foldl tree_step NewTree [TSub ''a/b'' (sub_ex 1), TSub ''a/c'' (sub_ex 0), TUnsubAll ''c'']) f c
      = None" for f c
    using tree_run_refines [OF trie.invar_new v] by (simp add: find_NewTree)
qed

end
