(* ===== verification/Broker.thy ===== *)
theory Broker
  imports Packet TopicTree
begin

text \<open>
  The broker core (\<^verbatim>\<open>internal/broker/broker.go\<close>): the subscription tree behind copy-on-write updates
  and the bounded map of retained messages.  A \<^verbatim>\<open>Broker\<close> is a record of the current tree, the current
  retained map, the limits and the statistics; every operation of the source runs under its mutex, so
  an operation is one state transition.  The method \<^verbatim>\<open>ID\<close> of the \<^verbatim>\<open>Subscriber\<close> interface is the
  parameter \<open>ID\<close>.  Sizes are Go's \<^verbatim>\<open>int\<close>; the invariant keeps every intermediate value between
  zero and the configured maximum, so they are modelled by unbounded integers.  The rejection counter
  is a wrapping 64-bit word.
\<close>

section \<open>State\<close>

record retained_limits =
  MaxMessages :: int
  MaxBytes :: int

definition DefaultRetainedLimits :: retained_limits where
  "DefaultRetainedLimits = \<lparr>MaxMessages = 10000, MaxBytes = 64 * 2 ^ 20\<rparr>"

definition RetainedLimits_Validate :: "retained_limits \<Rightarrow> error option" where
  "RetainedLimits_Validate l =
     (if MaxMessages l \<le> 0 \<or> MaxBytes l \<le> 0 then Some (New ''retained limits must be positive'') else None)"

record broker_stats =
  RetainedMessages :: int
  RetainedBytes :: int
  RetainedRejections :: u64

record 's broker =
  topics :: "'s node"
  retained :: "(string \<times> publish_packet) list"
  limits :: retained_limits
  stats :: broker_stats

definition NewWithLimits :: "retained_limits \<Rightarrow> 's broker result" where
  "NewWithLimits l =
     (case RetainedLimits_Validate l of
        Some e \<Rightarrow> Inl e
      | None \<Rightarrow> Inr \<lparr>topics = NewTree, retained = [], limits = l,
                 stats = \<lparr>RetainedMessages = 0, RetainedBytes = 0, RetainedRejections = 0\<rparr>\<rparr>)"

definition Broker_Snapshot :: "'s broker \<Rightarrow> broker_stats" where
  "Broker_Snapshot b = stats b"

section \<open>Operations\<close>

definition Broker_Subscribe :: "('s \<Rightarrow> string) \<Rightarrow> string \<Rightarrow> byte \<Rightarrow> 's \<Rightarrow> 's broker \<Rightarrow> 's broker" where
  "Broker_Subscribe ID flt qos sub b =
     (let oldTree = topics b;
          newTree = Subscribe flt \<lparr>tClientID = ID sub, tSubscriber = sub, tQoS = qos\<rparr> (clone oldTree)
      in b\<lparr>topics := newTree\<rparr>)"

definition Broker_Unsubscribe :: "string \<Rightarrow> string \<Rightarrow> 's broker \<Rightarrow> 's broker" where
  "Broker_Unsubscribe flt clientID b = b\<lparr>topics := Unsubscribe flt clientID (clone (topics b))\<rparr>"

definition Broker_UnsubscribeAll :: "string \<Rightarrow> 's broker \<Rightarrow> 's broker" where
  "Broker_UnsubscribeAll clientID b = b\<lparr>topics := UnsubscribeAll clientID (clone (topics b))\<rparr>"

definition messageBytes :: "publish_packet \<Rightarrow> int" where
  "messageBytes p = int (length (pTopic p)) + int (length (pPayload p))"

definition oldBytesOf :: "(string \<times> publish_packet) list \<Rightarrow> string \<Rightarrow> int" where
  "oldBytesOf oldMap t = (case map_of oldMap t of None \<Rightarrow> 0 | Some old \<Rightarrow> messageBytes old)"

definition overRetainedLimit :: "publish_packet \<Rightarrow> int \<Rightarrow> 's broker \<Rightarrow> bool" where
  "overRetainedLimit pub oldBytes b \<longleftrightarrow>
     map_of (retained b) (pTopic pub) = None \<and> int (length (retained b)) \<ge> MaxMessages (limits b)
     \<or> messageBytes pub > MaxBytes (limits b) - (RetainedBytes (stats b) - oldBytes)"

definition updateRetained :: "publish_packet \<Rightarrow> 's broker \<Rightarrow> error option \<times> 's broker" where
  "updateRetained pub b =
     (let oldMap = retained b;
          oldBytes = oldBytesOf oldMap (pTopic pub);
          newBytes = (if length (pPayload pub) > 0 then messageBytes pub else 0)
      in if length (pPayload pub) > 0 \<and> overRetainedLimit pub oldBytes b
         then (Some ErrRetainedLimit,
               b\<lparr>stats := (stats b)\<lparr>RetainedRejections := RetainedRejections (stats b) + 1\<rparr>\<rparr>)
         else
           let newMap = (if length (pPayload pub) = 0 then AList.delete (pTopic pub) oldMap
                         else AList.update (pTopic pub) (pub\<lparr>pDUP := False, pRetain := True\<rparr>) oldMap)
           in (None, b\<lparr>retained := newMap,
                       stats := (stats b)\<lparr>RetainedMessages := int (length newMap),
                                          RetainedBytes := RetainedBytes (stats b) + (newBytes - oldBytes)\<rparr>\<rparr>))"

text \<open>
  The callback acts on the state \<open>w\<close> of whoever publishes; its error is dropped.  A retained message
  over the limit is neither stored nor routed.
\<close>

definition Broker_Publish ::
  "publish_packet \<Rightarrow> ('s subscription \<Rightarrow> 'w \<Rightarrow> error option \<times> 'w) \<Rightarrow> 's broker \<Rightarrow> 'w \<Rightarrow>
     error option \<times> 's broker \<times> 'w" where
  "Broker_Publish pub deliver b w =
     (case (if pRetain pub then updateRetained pub b else (None, b)) of
        (Some e, b) \<Rightarrow> (Some e, b, w)
      | (None, b) \<Rightarrow> (None, b, foldl (\<lambda>w sub. snd (deliver sub w)) w (Match (topics b) (pTopic pub))))"

definition RetainedMatching :: "string \<Rightarrow> 's broker \<Rightarrow> publish_packet list" where
  "RetainedMatching flt b = map snd (filter (\<lambda>(topicName, msg). MatchFilter flt topicName) (retained b))"

section \<open>Invariant\<close>

definition retained_ok :: "(string \<times> publish_packet) list \<Rightarrow> bool" where
  "retained_ok m \<longleftrightarrow> wf_map m \<and>
     (\<forall>(t, p) \<in> set m. pTopic p = t \<and> pRetain p \<and> \<not> pDUP p \<and> pPayload p \<noteq> [])"

definition retainedSize :: "(string \<times> publish_packet) list \<Rightarrow> int" where
  "retainedSize m = (\<Sum>(t, p) \<leftarrow> m. messageBytes p)"

definition accounting_ok :: "'s broker \<Rightarrow> bool" where
  "accounting_ok b \<longleftrightarrow>
     RetainedMessages (stats b) = int (length (retained b))
     \<and> RetainedBytes (stats b) = retainedSize (retained b)
     \<and> int (length (retained b)) \<le> MaxMessages (limits b)
     \<and> retainedSize (retained b) \<le> MaxBytes (limits b)"

definition broker_ok :: "'s broker \<Rightarrow> bool" where
  "broker_ok b \<longleftrightarrow> index_ok (topics b) \<and> retained_ok (retained b) \<and> accounting_ok b"

lemma messageBytes_nonneg [simp]: "0 \<le> messageBytes p"
  by (simp add: messageBytes_def)

lemma messageBytes_flags [simp]: "messageBytes (p\<lparr>pDUP := d, pRetain := r\<rparr>) = messageBytes p"
  by (simp add: messageBytes_def)

lemma retainedSize_nonneg [simp]: "0 \<le> retainedSize m"
  by (induction m) (auto simp: retainedSize_def)

lemma retainedSize_update:
  "wf_map m \<Longrightarrow> retainedSize (AList.update t p m) = retainedSize m + messageBytes p - oldBytesOf m t"
  unfolding retainedSize_def oldBytesOf_def by (rule sum_list_update_alist)

lemma retainedSize_delete:
  "wf_map m \<Longrightarrow> retainedSize (AList.delete t m) = retainedSize m - oldBytesOf m t"
  unfolding retainedSize_def oldBytesOf_def by (rule sum_list_delete_alist)

lemma oldBytesOf_bounds: "wf_map m \<Longrightarrow> 0 \<le> oldBytesOf m t \<and> oldBytesOf m t \<le> retainedSize m"
  using retainedSize_delete [of m t] retainedSize_nonneg [of "AList.delete t m"]
  by (auto simp: oldBytesOf_def split: option.splits)

lemma retained_ok_update:
  "retained_ok m \<Longrightarrow> pPayload p \<noteq> [] \<Longrightarrow>
   retained_ok (AList.update (pTopic p) (p\<lparr>pDUP := False, pRetain := True\<rparr>) m)"
  by (auto simp: retained_ok_def set_update_alist wf_map_update)

lemma retained_ok_delete: "retained_ok m \<Longrightarrow> retained_ok (AList.delete t m)"
  by (auto simp: retained_ok_def set_delete_alist wf_map_delete)

subsection \<open>The retained map\<close>

text \<open>Whether a retained publication fits, in terms of what the map would become.\<close>

definition retained_fits :: "publish_packet \<Rightarrow> 's broker \<Rightarrow> bool" where
  "retained_fits p b \<longleftrightarrow> pPayload p = [] \<or>
     (int (length (AList.update (pTopic p) p (retained b))) \<le> MaxMessages (limits b)
      \<and> retainedSize (AList.update (pTopic p) p (retained b)) \<le> MaxBytes (limits b))"

lemma overRetainedLimit_iff:
  assumes "broker_ok b" and "pPayload p \<noteq> []"
  shows "overRetainedLimit p (oldBytesOf (retained b) (pTopic p)) b \<longleftrightarrow> \<not> retained_fits p b"
proof -
  from assms(1) have "wf_map (retained b)" and acc: "accounting_ok b"
    by (auto simp: broker_ok_def retained_ok_def)
  then show ?thesis using assms(2)
    by (auto simp: overRetainedLimit_def retained_fits_def accounting_ok_def length_update_alist
        retainedSize_update)
qed

lemma updateRetained_reject:
  assumes "broker_ok b" and "\<not> retained_fits p b"
  shows "updateRetained p b = (Some ErrRetainedLimit,
    b\<lparr>stats := (stats b)\<lparr>RetainedRejections := RetainedRejections (stats b) + 1\<rparr>\<rparr>)"
proof -
  from assms(2) have "pPayload p \<noteq> []" by (simp add: retained_fits_def)
  with overRetainedLimit_iff [OF assms(1)] assms(2) show ?thesis
    by (simp add: updateRetained_def Let_def)
qed

lemma updateRetained_accept:
  assumes "broker_ok b" and "retained_fits p b"
  obtains b' where "updateRetained p b = (None, b')"
    and "retained b' = (if pPayload p = [] then AList.delete (pTopic p) (retained b)
          else AList.update (pTopic p) (p\<lparr>pDUP := False, pRetain := True\<rparr>) (retained b))"
    and "topics b' = topics b" and "limits b' = limits b"
    and "RetainedMessages (stats b') = int (length (retained b'))"
    and "RetainedBytes (stats b') = retainedSize (retained b')"
proof -
  from assms(1) have wf: "wf_map (retained b)" and acc: "accounting_ok b"
    by (auto simp: broker_ok_def retained_ok_def)
  have ok: "\<not> (length (pPayload p) > 0 \<and> overRetainedLimit p (oldBytesOf (retained b) (pTopic p)) b)"
    using overRetainedLimit_iff [OF assms(1)] assms(2) by auto
  show thesis
    using that [of "snd (updateRetained p b)"] ok wf acc
    by (cases "pPayload p = []")
       (simp_all add: updateRetained_def Let_def accounting_ok_def retainedSize_update retainedSize_delete)
qed

lemma updateRetained_None_iff:
  "broker_ok b \<Longrightarrow> fst (updateRetained p b) = None \<longleftrightarrow> retained_fits p b"
  by (metis fst_conv option.distinct(1) updateRetained_accept updateRetained_reject)

lemma retainedSize_update_flags:
  "wf_map m \<Longrightarrow>
   retainedSize (AList.update t (p\<lparr>pDUP := d, pRetain := r\<rparr>) m) = retainedSize (AList.update t p m)"
  by (simp add: retainedSize_update)

lemma updateRetained_ok:
  assumes "broker_ok b"
  shows "broker_ok (snd (updateRetained p b))"
proof (cases "retained_fits p b")
  case False
  with assms show ?thesis
    by (simp add: updateRetained_reject broker_ok_def accounting_ok_def)
next
  case True
  from updateRetained_accept [OF assms True] obtain b' where u: "updateRetained p b = (None, b')"
    and r: "retained b' = (if pPayload p = [] then AList.delete (pTopic p) (retained b)
          else AList.update (pTopic p) (p\<lparr>pDUP := False, pRetain := True\<rparr>) (retained b))"
    and eq: "topics b' = topics b" "limits b' = limits b"
    "RetainedMessages (stats b') = int (length (retained b'))"
    "RetainedBytes (stats b') = retainedSize (retained b')" by blast
  from assms have ok: "index_ok (topics b)" "retained_ok (retained b)" "accounting_ok b"
    by (auto simp: broker_ok_def)
  then have wf: "wf_map (retained b)" by (simp add: retained_ok_def)
  have "retained_ok (retained b')" using ok(2) by (simp add: r retained_ok_update retained_ok_delete)
  moreover have "int (length (retained b')) \<le> MaxMessages (limits b')
      \<and> retainedSize (retained b') \<le> MaxBytes (limits b')"
  proof (cases "pPayload p = []")
    case True
    with ok(3) oldBytesOf_bounds [OF wf, of "pTopic p"] show ?thesis
      by (auto simp: r eq(2) accounting_ok_def retainedSize_delete [OF wf] length_delete_alist [OF wf])
  next
    case False
    with \<open>retained_fits p b\<close> show ?thesis
      by (simp add: r eq(2) retained_fits_def length_update_alist [OF wf] retainedSize_update_flags [OF wf])
  qed
  ultimately show ?thesis using u eq ok(1) by (simp add: broker_ok_def accounting_ok_def)
qed

subsection \<open>Contract of a bounded retained store\<close>

text \<open>
  What the server relies on: an update is accepted exactly when it fits, an accepted update replaces
  or clears the message of its topic and nothing else, a rejected one changes nothing visible, and
  \<open>matching\<close> returns exactly the stored messages whose topic the filter matches.
\<close>

locale retained_store =
  fixes put :: "publish_packet \<Rightarrow> 'b \<Rightarrow> error option \<times> 'b"
    and matching :: "string \<Rightarrow> 'b \<Rightarrow> publish_packet list"
    and get :: "'b \<Rightarrow> string \<Rightarrow> publish_packet option"
    and fits :: "publish_packet \<Rightarrow> 'b \<Rightarrow> bool"
    and invar :: "'b \<Rightarrow> bool"
  assumes put_invar: "invar b \<Longrightarrow> invar (snd (put p b))"
    and put_fits: "invar b \<Longrightarrow> fst (put p b) = (if fits p b then None else Some ErrRetainedLimit)"
    and get_put: "invar b \<Longrightarrow> get (snd (put p b)) =
      (if \<not> fits p b then get b
       else if pPayload p = [] then (get b)(pTopic p := None)
       else (get b)(pTopic p \<mapsto> p\<lparr>pDUP := False, pRetain := True\<rparr>))"
    and clear_fits: "pPayload p = [] \<Longrightarrow> fits p b"
    and matching_iff: "invar b \<Longrightarrow> p \<in> set (matching f b) \<longleftrightarrow>
      get b (pTopic p) = Some p \<and> MatchFilter f (pTopic p)"
    and matching_once: "invar b \<Longrightarrow> distinct (map pTopic (matching f b))"
    and get_topic: "invar b \<Longrightarrow> get b t = Some p \<Longrightarrow> pTopic p = t \<and> pRetain p \<and> pPayload p \<noteq> []"
begin

lemma replayed_after_put:
  assumes "invar b" "fits p b" "pPayload p \<noteq> []" "MatchFilter f (pTopic p)"
  shows "p\<lparr>pDUP := False, pRetain := True\<rparr> \<in> set (matching f (snd (put p b)))"
  using assms by (simp add: matching_iff put_invar get_put)

lemma not_replayed_after_clear:
  assumes "invar b" "pPayload p = []" "q \<in> set (matching f (snd (put p b)))"
  shows "pTopic q \<noteq> pTopic p"
  using assms clear_fits [of p b] by (auto simp: matching_iff put_invar get_put)

lemma rejected_put_invisible:
  assumes "invar b" "\<not> fits p b"
  shows "set (matching f (snd (put p b))) = set (matching f b)"
  using assms by (auto simp: matching_iff put_invar get_put)

lemma replay_is_latest:
  assumes "invar b" "q \<in> set (matching f (snd (put p b)))" "pTopic q = pTopic p" "fits p b"
  shows "q = p\<lparr>pDUP := False, pRetain := True\<rparr> \<and> pPayload p \<noteq> []"
  using assms by (auto simp: matching_iff put_invar get_put split: if_splits)

end

definition retained_get :: "'s broker \<Rightarrow> string \<Rightarrow> publish_packet option" where
  "retained_get b = map_of (retained b)"

lemma retained_get_update:
  assumes "broker_ok b"
  shows "retained_get (snd (updateRetained p b)) =
      (if \<not> retained_fits p b then retained_get b
       else if pPayload p = [] then (retained_get b)(pTopic p := None)
       else (retained_get b)(pTopic p \<mapsto> p\<lparr>pDUP := False, pRetain := True\<rparr>))"
proof (cases "retained_fits p b")
  case True
  from updateRetained_accept [OF assms True] obtain b' where "updateRetained p b = (None, b')"
    and "retained b' = (if pPayload p = [] then AList.delete (pTopic p) (retained b)
          else AList.update (pTopic p) (p\<lparr>pDUP := False, pRetain := True\<rparr>) (retained b))" by metis
  with True show ?thesis by (simp add: retained_get_def map_of_update_iff map_of_delete_iff)
next
  case False
  with assms show ?thesis by (simp add: updateRetained_reject retained_get_def)
qed

lemma RetainedMatching_iff:
  assumes "broker_ok b"
  shows "p \<in> set (RetainedMatching f b) \<longleftrightarrow> retained_get b (pTopic p) = Some p \<and> MatchFilter f (pTopic p)"
proof -
  from assms have wf: "wf_map (retained b)" and t: "\<And>t q. (t, q) \<in> set (retained b) \<Longrightarrow> pTopic q = t"
    by (auto simp: broker_ok_def retained_ok_def)
  have "p \<in> set (RetainedMatching f b) \<longleftrightarrow> (\<exists>t. (t, p) \<in> set (retained b) \<and> MatchFilter f t)"
    by (auto simp: RetainedMatching_def image_iff)
  with t show ?thesis
    unfolding retained_get_def map_of_eq_Some_iff [OF wf] by blast
qed

lemma RetainedMatching_once:
  assumes "broker_ok b"
  shows "distinct (map pTopic (RetainedMatching f b))"
proof -
  let ?m = "filter (\<lambda>(topicName, msg). MatchFilter f topicName) (retained b)"
  from assms have "map pTopic (map snd ?m) = map fst ?m"
    by (auto simp: broker_ok_def retained_ok_def)
  moreover have "wf_map ?m" using assms by (simp add: broker_ok_def retained_ok_def wf_map_filter)
  ultimately show ?thesis unfolding RetainedMatching_def by metis
qed

interpretation ret: retained_store updateRetained RetainedMatching retained_get retained_fits broker_ok
proof
  fix b :: "'s broker" and p :: publish_packet and f t
  assume ok: "broker_ok b"
  show "broker_ok (snd (updateRetained p b))" using ok by (rule updateRetained_ok)
  show "fst (updateRetained p b) = (if retained_fits p b then None else Some ErrRetainedLimit)"
    using ok updateRetained_None_iff [OF ok] by (simp add: updateRetained_reject)
  show "p \<in> set (RetainedMatching f b) \<longleftrightarrow> retained_get b (pTopic p) = Some p \<and> MatchFilter f (pTopic p)"
    using ok by (rule RetainedMatching_iff)
  show "distinct (map pTopic (RetainedMatching f b))" using ok by (rule RetainedMatching_once)
  show "pTopic p = t \<and> pRetain p \<and> pPayload p \<noteq> []" if "retained_get b t = Some p"
    using ok that by (auto simp: retained_get_def broker_ok_def retained_ok_def dest!: map_of_SomeD)
qed (simp_all add: retained_get_update retained_fits_def)

section \<open>Runs of the broker\<close>

text \<open>
  The operations the server performs, as steps.  The filters it passes have been accepted by
  \<^verbatim>\<open>ValidateTopicFilter\<close> in the packet decoder.  What the callback of \<^verbatim>\<open>Publish\<close> does is of no
  consequence for the broker (\<open>Broker_Publish_broker\<close>); here it acts on a log of subscriptions.
\<close>

definition deliver_log :: "'s subscription \<Rightarrow> 's subscription list \<Rightarrow> error option \<times> 's subscription list" where
  "deliver_log sub w = (None, w @ [sub])"

inductive broker_step :: "('s \<Rightarrow> string) \<Rightarrow> 's broker \<Rightarrow> 's broker \<Rightarrow> bool" for ID where
  subscribe: "ValidateTopicFilter f = None \<Longrightarrow> broker_step ID b (Broker_Subscribe ID f q s b)"
| unsubscribe: "broker_step ID b (Broker_Unsubscribe f c b)"
| unsubscribe_all: "broker_step ID b (Broker_UnsubscribeAll c b)"
| publish: "Broker_Publish p deliver_log b w = (e, b', w') \<Longrightarrow> broker_step ID b b'"

inductive broker_reachable :: "('s \<Rightarrow> string) \<Rightarrow> retained_limits \<Rightarrow> 's broker \<Rightarrow> bool" for ID l where
  init: "NewWithLimits l = Inr b \<Longrightarrow> broker_reachable ID l b"
| step: "broker_reachable ID l b \<Longrightarrow> broker_step ID b b' \<Longrightarrow> broker_reachable ID l b'"

lemma Broker_Subscribe_ok:
  "broker_ok b \<Longrightarrow> ValidateTopicFilter f = None \<Longrightarrow> broker_ok (Broker_Subscribe ID f q s b)"
  by (simp add: broker_ok_def accounting_ok_def Broker_Subscribe_def trie.invar_sub)

lemma Broker_Unsubscribe_ok: "broker_ok b \<Longrightarrow> broker_ok (Broker_Unsubscribe f c b)"
  by (simp add: broker_ok_def accounting_ok_def Broker_Unsubscribe_def trie.invar_unsub)

lemma Broker_UnsubscribeAll_ok: "broker_ok b \<Longrightarrow> broker_ok (Broker_UnsubscribeAll c b)"
  by (simp add: broker_ok_def accounting_ok_def Broker_UnsubscribeAll_def trie.invar_unsub_all)

lemma Broker_Publish_broker:
  "fst (snd (Broker_Publish p deliver b w)) = (if pRetain p then snd (updateRetained p b) else b)"
  by (auto simp: Broker_Publish_def split: prod.splits option.splits)

lemma Broker_Publish_world:
  assumes "Broker_Publish p deliver b w = (e, b', w')"
  shows "topics b' = topics b \<and>
    (if e \<noteq> None then w' = w else w' = foldl (\<lambda>w sub. snd (deliver sub w)) w (Match (topics b) (pTopic p)))"
proof -
  have "topics (snd (updateRetained p b)) = topics b" by (simp add: updateRetained_def Let_def)
  with assms show ?thesis by (auto simp: Broker_Publish_def split: prod.splits option.splits if_splits)
qed

lemma Broker_Publish_ok: "broker_ok b \<Longrightarrow> broker_ok (fst (snd (Broker_Publish p deliver b w)))"
  by (simp add: Broker_Publish_broker updateRetained_ok)

lemma NewWithLimits_ok: "NewWithLimits l = Inr b \<Longrightarrow> broker_ok b \<and> limits b = l"
  by (auto simp: NewWithLimits_def RetainedLimits_Validate_def broker_ok_def retained_ok_def accounting_ok_def
      retainedSize_def trie.invar_new split: option.splits if_splits)

lemma limits_subscriptions:
  "limits (Broker_Subscribe ID f q s b) = limits b" "limits (Broker_Unsubscribe f c b) = limits b"
  "limits (Broker_UnsubscribeAll c b) = limits b"
  by (simp_all add: Broker_Subscribe_def Broker_Unsubscribe_def Broker_UnsubscribeAll_def)

lemma broker_step_ok: "broker_step ID b b' \<Longrightarrow> broker_ok b \<Longrightarrow> broker_ok b' \<and> limits b' = limits b"
proof (induction rule: broker_step.induct)
  case (publish p b w e b' w')
  then have "b' = fst (snd (Broker_Publish p deliver_log b w))" by simp
  moreover have "limits (snd (updateRetained p b)) = limits b"
    by (simp add: updateRetained_def Let_def)
  ultimately show ?case using publish.prems by (auto simp: updateRetained_ok Broker_Publish_broker)
qed (simp_all add: Broker_Subscribe_ok Broker_Unsubscribe_ok Broker_UnsubscribeAll_ok limits_subscriptions)

lemma broker_reachable_ok: "broker_reachable ID l b \<Longrightarrow> broker_ok b \<and> limits b = l"
  by (induction rule: broker_reachable.induct) (auto dest: NewWithLimits_ok broker_step_ok)

lemma broker_reachable_retain:
  assumes "broker_reachable ID l b" and "pRetain p"
  shows "broker_reachable ID l (snd (updateRetained p b))"
proof -
  obtain e b' w' where u: "Broker_Publish p deliver_log b [] = (e, b', w')"
    by (cases "Broker_Publish p deliver_log b []")
  then have "b' = snd (updateRetained p b)"
    using Broker_Publish_broker [of p deliver_log b "[]"] assms(2) by simp
  with broker_reachable.step [OF assms(1) broker_step.publish [OF u]] show ?thesis by simp
qed

section \<open>Properties of the broker\<close>

text \<open>
  C32: retained memory is bounded and its accounting is exact. In every state the broker can reach
  from \<^verbatim>\<open>NewWithLimits\<close>, the statistics equal the number and the total size of the stored messages,
  neither exceeds its limit, and every stored message is non-empty, filed under its own topic, marked
  RETAIN and not DUP.
\<close>

theorem broker_accounting:
  assumes "broker_reachable ID l b"
  shows "RetainedMessages (Broker_Snapshot b) = int (length (retained b))
    \<and> RetainedBytes (Broker_Snapshot b) = (\<Sum>(t, p) \<leftarrow> retained b. messageBytes p)
    \<and> RetainedMessages (Broker_Snapshot b) \<le> MaxMessages l \<and> RetainedBytes (Broker_Snapshot b) \<le> MaxBytes l
    \<and> distinct (map fst (retained b))
    \<and> (\<forall>(t, p) \<in> set (retained b). pTopic p = t \<and> pRetain p \<and> \<not> pDUP p \<and> pPayload p \<noteq> [])"
  using broker_reachable_ok [OF assms]
  by (auto simp: broker_ok_def accounting_ok_def retained_ok_def retainedSize_def Broker_Snapshot_def)

definition broker_ex :: "nat broker" where
  "broker_ex = \<lparr>topics = Subscribe ''a'' \<lparr>tClientID = ''c'', tSubscriber = 0, tQoS = 1\<rparr> NewTree, retained = [],
     limits = \<lparr>MaxMessages = 1, MaxBytes = 8\<rparr>,
     stats = \<lparr>RetainedMessages = 0, RetainedBytes = 0, RetainedRejections = 0\<rparr>\<rparr>"

definition pub_ex :: "string \<Rightarrow> byte list \<Rightarrow> publish_packet" where
  "pub_ex t d = \<lparr>pTopic = t, pPayload = d, pRetain = True, pDUP = False, pQoS = 0, pPacketID = 0\<rparr>"

lemma broker_ex_reachable: "broker_reachable (\<lambda>_. ''c'') \<lparr>MaxMessages = 1, MaxBytes = 8\<rparr> broker_ex"
proof -
  let ?l = "\<lparr>MaxMessages = 1, MaxBytes = 8\<rparr>"
  let ?b = "\<lparr>topics = NewTree, retained = [], limits = ?l,
     stats = \<lparr>RetainedMessages = 0, RetainedBytes = 0, RetainedRejections = 0\<rparr>\<rparr> :: nat broker"
  have "NewWithLimits ?l = Inr ?b" by (simp add: NewWithLimits_def RetainedLimits_Validate_def)
  then have "broker_reachable (\<lambda>_. ''c'') ?l ?b" by (rule broker_reachable.init)
  moreover have "ValidateTopicFilter ''a'' = None" by (simp add: topic_run upt_rec)
  then have "broker_step (\<lambda>_. ''c'') ?b (Broker_Subscribe (\<lambda>_. ''c'') ''a'' 1 0 ?b)"
    by (rule broker_step.subscribe)
  ultimately have "broker_reachable (\<lambda>_. ''c'') ?l (Broker_Subscribe (\<lambda>_. ''c'') ''a'' 1 0 ?b)"
    by (rule broker_reachable.step)
  then show ?thesis by (simp add: broker_ex_def Broker_Subscribe_def)
qed

theorem broker_accounting_witness:
  "RetainedBytes (Broker_Snapshot (snd (updateRetained (pub_ex ''a'' [1, 2]) broker_ex))) = 3
   \<and> RetainedBytes (Broker_Snapshot (snd (updateRetained (pub_ex ''a'' [1, 2]) broker_ex))) \<le> 8"
proof -
  let ?b = "snd (updateRetained (pub_ex ''a'' [1, 2]) broker_ex)"
  have "broker_reachable (\<lambda>_. ''c'') \<lparr>MaxMessages = 1, MaxBytes = 8\<rparr> ?b"
    by (rule broker_reachable_retain [OF broker_ex_reachable]) (simp add: pub_ex_def)
  from broker_accounting [OF this] have "RetainedBytes (Broker_Snapshot ?b) \<le> 8" by simp
  moreover have "RetainedBytes (Broker_Snapshot ?b) = 3"
    by (simp add: updateRetained_def pub_ex_def broker_ex_def oldBytesOf_def overRetainedLimit_def
        messageBytes_def Broker_Snapshot_def)
  ultimately show ?thesis by simp
qed

text \<open>
  C31: retained messages behave as MQTT prescribes, within the limits. A retained publication is
  rejected exactly when storing it would exceed a limit, a clearing one (empty payload) never is.
  A later subscription replays, for its topic, exactly this message (RETAIN set, DUP cleared), or
  nothing when it was clearing, and for every other topic what it replayed before; a rejected
  publication changes nothing.
\<close>

theorem retained_publish:
  assumes "broker_reachable ID l b" and "pRetain p" and "Broker_Publish p deliver b w = (e, b', w')"
  shows "e = (if retained_fits p b then None else Some ErrRetainedLimit)
    \<and> (pPayload p = [] \<longrightarrow> e = None)
    \<and> set (RetainedMatching f b') =
      (if e \<noteq> None then set (RetainedMatching f b)
       else {q \<in> set (RetainedMatching f b). pTopic q \<noteq> pTopic p}
         \<union> (if pPayload p \<noteq> [] \<and> MatchFilter f (pTopic p) then {p\<lparr>pDUP := False\<rparr>} else {}))"
proof -
  from broker_reachable_ok [OF assms(1)] have ok: "broker_ok b" ..
  from assms(2,3) have b': "b' = snd (updateRetained p b)" and e: "e = fst (updateRetained p b)"
    by (auto simp: Broker_Publish_def split: prod.splits option.splits)
  have flags: "p\<lparr>pDUP := False, pRetain := True\<rparr> = p\<lparr>pDUP := False\<rparr>" using assms(2) by simp
  show ?thesis
    using ret.clear_fits [of p b] ok
    by (auto simp: b' e ret.put_fits [OF ok] ret.matching_iff ret.put_invar ret.get_put flags split: if_splits)
qed

theorem retained_publish_witness:
  "set (RetainedMatching ''+'' (snd (updateRetained (pub_ex ''a'' [1, 2]) broker_ex))) = {pub_ex ''a'' [1, 2]}"
proof -
  let ?p = "pub_ex ''a'' [1, 2]"
  have r: "pRetain ?p" by (simp add: pub_ex_def)
  have f: "retained_fits ?p broker_ex"
    by (simp add: retained_fits_def pub_ex_def broker_ex_def retainedSize_def messageBytes_def)
  obtain e b' w' where u: "Broker_Publish ?p deliver_log broker_ex [] = (e, b', w')"
    by (cases "Broker_Publish ?p deliver_log broker_ex []")
  then have "b' = snd (updateRetained ?p broker_ex)"
    using Broker_Publish_broker [of ?p deliver_log broker_ex "[]"] r by simp
  moreover have "MatchFilter ''+'' ''a''" by (simp add: MatchFilter_def startsDollar_def)
  moreover have "RetainedMatching ''+'' broker_ex = []" by (simp add: RetainedMatching_def broker_ex_def)
  ultimately show ?thesis
    using retained_publish [OF broker_ex_reachable r u, of "''+''"] f by (simp add: pub_ex_def)
qed

text \<open>
  C30: a publication that is not rejected calls \<^verbatim>\<open>deliver\<close> once for each client that has a subscription
  with a matching filter, and for no other client, with the highest QoS granted to the client among
  its matching filters; a rejected retained publication is delivered to nobody. Failures of the
  callback do not stop the fan-out.
\<close>

theorem publish_routing:
  assumes "broker_reachable ID l b" and "validateTopicName (pTopic p) = None"
    and "Broker_Publish p deliver b w = (e, b', w')"
  shows "topics b' = topics b \<and>
    (if e \<noteq> None then w' = w
     else \<exists>subs. w' = foldl (\<lambda>w sub. snd (deliver sub w)) w subs
       \<and> distinct (map tClientID subs)
       \<and> tClientID ` set subs = {c. \<exists>f s. find (topics b) f c = Some s \<and> MatchFilter f (pTopic p)}
       \<and> (\<forall>sub \<in> set subs.
           (\<exists>f. find (topics b) f (tClientID sub) = Some sub \<and> MatchFilter f (pTopic p))
           \<and> (\<forall>f s. find (topics b) f (tClientID sub) = Some s \<and> MatchFilter f (pTopic p) \<longrightarrow> tQoS s \<le> tQoS sub)))"
proof -
  from broker_reachable_ok [OF assms(1)] have ok: "index_ok (topics b)" by (simp add: broker_ok_def)
  let ?subs = "Match (topics b) (pTopic p)"
  note run = Broker_Publish_world [OF assms(3)]
  have "tClientID ` set ?subs = {c. \<exists>f s. find (topics b) f c = Some s \<and> MatchFilter f (pTopic p)}"
    using trie.routed_iff [OF ok assms(2)] unfolding trie.routed_def by blast
  with run trie.query_once [OF ok, of "pTopic p"] trie.query_sound [OF ok assms(2)] trie.query_max [OF ok assms(2)]
  show ?thesis by (auto intro!: exI [of _ ?subs])
qed

theorem publish_routing_witness:
  "\<exists>subs. snd (snd (Broker_Publish (pub_ex ''a'' [1]) deliver_log broker_ex [])) = subs
     \<and> tClientID ` set subs = {''c''}"
proof -
  let ?p = "pub_ex ''a'' [1]"
  have v: "validateTopicName (pTopic ?p) = None" by (simp add: topic_run pub_ex_def)
  obtain e b' w' where u: "Broker_Publish ?p deliver_log broker_ex [] = (e, b', w')"
    by (cases "Broker_Publish ?p deliver_log broker_ex []")
  have f: "retained_fits ?p broker_ex"
    by (simp add: retained_fits_def pub_ex_def broker_ex_def retainedSize_def messageBytes_def)
  have e: "e = None"
    using u f broker_reachable_ok [OF broker_ex_reachable]
    by (auto simp: Broker_Publish_def pub_ex_def updateRetained_None_iff split: prod.splits option.splits
        dest: updateRetained_None_iff [THEN iffD2])
  have log: "foldl (\<lambda>w sub. snd (deliver_log sub w)) ws subs = ws @ subs" for ws subs :: "nat subscription list"
    by (induction subs arbitrary: ws) (simp_all add: deliver_log_def)
  have m: "MatchFilter ''a'' ''a''" by (simp add: MatchFilter_def startsDollar_def)
  have "{c. \<exists>g s. find (topics broker_ex) g c = Some s \<and> MatchFilter g (pTopic ?p)} = {''c''}"
    using m by (auto simp: broker_ex_def pub_ex_def find_Subscribe trie.find_new split: if_splits)
  with publish_routing [OF broker_ex_reachable v u] e log u show ?thesis by auto
qed

end
