(* ===== verification/SessionQueue.thy ===== *)
theory SessionQueue
  imports Encoder
begin

text \<open>
  The per-session delivery queue (\<^verbatim>\<open>internal/session/queue.go\<close> and the \<^verbatim>\<open>State\<close> struct of
  \<^verbatim>\<open>store.go\<close>): pending QoS 1 publications, their packet identifiers and the connection epochs that
  drive redelivery.

  The pending list and the in-flight map of the source hold pointers to shared \<^verbatim>\<open>entry\<close> objects.
  A state therefore has its own heap \<open>sHeap\<close> of entries, addressed by numbers below the allocation
  counter \<open>sNextRef\<close>, and \<open>sEntries\<close> and \<open>sInflight\<close> hold addresses.  A time is a number of
  nanoseconds; the zero \<^verbatim>\<open>time.Time\<close> of \<open>sOfflineSince\<close> is \<open>None\<close>.  The notification
  channel has capacity one and is only sent to without blocking, so it is a flag.  Sizes and counts
  are Go's \<^verbatim>\<open>int\<close>, which the invariant keeps within the configured limits; epochs and packet
  identifiers keep their width.

  This theory holds the part of each operation that acts on one state; \<open>SessionStore\<close> adds the
  counters of the store.
\<close>

section \<open>State\<close>

record session_limits =
  MaxSessions :: int
  MaxSubscriptionsPerSession :: int
  MaxSubscriptionsGlobal :: int
  MaxFilterBytes :: int
  MaxFilterLevels :: int
  OfflineTTL :: int
  CleanupInterval :: int
  MaxPendingMessagesPerSession :: int
  MaxPendingBytesPerSession :: int
  MaxPendingMessagesGlobal :: int
  MaxPendingBytesGlobal :: int
  MaxInflightMessagesPerSession :: int

definition second :: int where
  "second = 10 ^ 9"

definition DefaultLimits :: session_limits where
  "DefaultLimits = \<lparr>MaxSessions = 10000, MaxSubscriptionsPerSession = 1000, MaxSubscriptionsGlobal = 100000,
     MaxFilterBytes = 4096, MaxFilterLevels = 64, OfflineTTL = 0, CleanupInterval = 60 * second,
     MaxPendingMessagesPerSession = 1000, MaxPendingBytesPerSession = 16 * 2 ^ 20,
     MaxPendingMessagesGlobal = 100000, MaxPendingBytesGlobal = 256 * 2 ^ 20,
     MaxInflightMessagesPerSession = 20\<rparr>"

definition Limits_Validate :: "session_limits \<Rightarrow> error option" where
  "Limits_Validate l =
     (if MaxSessions l \<le> 0 \<or> MaxSubscriptionsPerSession l \<le> 0 \<or> MaxSubscriptionsGlobal l \<le> 0
         \<or> MaxFilterBytes l \<le> 0 \<or> MaxFilterLevels l \<le> 0
      then Some (New ''resource limits must be positive'')
      else if MaxSubscriptionsPerSession l > MaxSubscriptionsGlobal l \<or> MaxFilterBytes l > 65535
         \<or> OfflineTTL l < 0 \<or> CleanupInterval l \<le> 0
      then Some (New ''invalid session resource limits'')
      else if MaxPendingMessagesPerSession l \<le> 0 \<or> MaxPendingBytesPerSession l \<le> 0
         \<or> MaxPendingMessagesGlobal l \<le> 0 \<or> MaxPendingBytesGlobal l \<le> 0 \<or> MaxInflightMessagesPerSession l \<le> 0
      then Some (New ''session limits must be positive'')
      else if MaxPendingMessagesPerSession l > MaxPendingMessagesGlobal l
         \<or> MaxPendingBytesPerSession l > MaxPendingBytesGlobal l
      then Some (New ''session limits exceed global limits'')
      else if MaxInflightMessagesPerSession l > 65535
         \<or> MaxInflightMessagesPerSession l > MaxPendingMessagesPerSession l
      then Some (New ''invalid inflight limit'')
      else None)"

datatype drop_reason = SessionLimit | GlobalLimit

record snapshot =
  mSessionCount :: int
  mSubscriptionCount :: int
  mSessionRejections :: u64
  mSubscriptionRejections :: u64
  mFilterRejections :: u64
  mExpiredSessions :: u64
  mPendingMessages :: int
  mPendingBytes :: int
  mInflightMessages :: int
  mSessionLimitDrops :: u64
  mGlobalLimitDrops :: u64
  mOldestPendingAge :: int

definition zeroSnapshot :: snapshot where
  "zeroSnapshot = \<lparr>mSessionCount = 0, mSubscriptionCount = 0, mSessionRejections = 0,
     mSubscriptionRejections = 0, mFilterRejections = 0, mExpiredSessions = 0, mPendingMessages = 0,
     mPendingBytes = 0, mInflightMessages = 0, mSessionLimitDrops = 0, mGlobalLimitDrops = 0,
     mOldestPendingAge = 0\<rparr>"

record entry =
  eData :: "byte list"
  ePacketIDOffset :: int
  ePacketID :: u16
  eLastEpoch :: u64
  eAccepted :: int

record delivery =
  dData :: "byte list"
  dPacketID :: u16

record session_state =
  sID :: string
  sOwner :: string
  sDeleted :: bool
  sSubscriptions :: "(string \<times> byte) list"
  sHeap :: "nat \<Rightarrow> entry"
  sNextRef :: nat
  sEntries :: "nat list"
  sInflight :: "(u16 \<times> nat) list"
  sNextPacketID :: u16
  sEpoch :: u64
  sActiveInflight :: int
  sPaused :: bool
  sChanged :: bool
  sStats :: snapshot
  sConnected :: bool
  sOfflineSince :: "int option"

section \<open>Operations on one state\<close>

definition notifyLocked :: "session_state \<Rightarrow> session_state" where
  "notifyLocked s = s\<lparr>sChanged := True\<rparr>"

text \<open>The guard of \<^verbatim>\<open>Admit\<close>: a QoS 1 PUBLISH whose packet identifier lies inside it.\<close>

definition invalidQueued :: "byte list \<Rightarrow> int \<Rightarrow> bool" where
  "invalidQueued d off \<longleftrightarrow>
     length d < 2 \<or> drop_bit 4 (d ! 0) \<noteq> 3 \<or> drop_bit 1 (d ! 0) AND 3 \<noteq> 1
     \<or> off < 2 \<or> off > int (length d) - 2"

definition pushEntry :: "int \<Rightarrow> byte list \<Rightarrow> int \<Rightarrow> session_state \<Rightarrow> session_state" where
  "pushEntry now d off s =
     (let p = sNextRef s;
          e = \<lparr>eData = d, ePacketIDOffset = off, ePacketID = 0, eLastEpoch = 0, eAccepted = now\<rparr>
      in notifyLocked (s\<lparr>sHeap := (sHeap s)(p := e), sNextRef := p + 1, sEntries := sEntries s @ [p],
           sStats := (sStats s)\<lparr>mPendingMessages := mPendingMessages (sStats s) + 1,
                                mPendingBytes := mPendingBytes (sStats s) + int (length d)\<rparr>\<rparr>))"

definition beginDelivery :: "session_state \<Rightarrow> session_state" where
  "beginDelivery s = notifyLocked (s\<lparr>sEpoch := sEpoch s + 1, sActiveInflight := 0\<rparr>)"

text \<open>
  The search for a free packet identifier.  It does not return when all 65535 are in flight, so it is
  a partial function: \<open>None\<close> is not returning.
\<close>

partial_function (option) allocPacketID :: "(u16 \<times> nat) list \<Rightarrow> u16 \<Rightarrow> u16 option" where
  "allocPacketID infl n =
     (let n1 = n + 1;
          n2 = (if n1 = 0 then n1 + 1 else n1)
      in if map_of infl n2 = None then Some n2 else allocPacketID infl n2)"

text \<open>The bytes handed out, \<open>None\<close> where an index is out of range and the source panics.\<close>

definition patchDelivery :: "bool \<Rightarrow> entry \<Rightarrow> byte list option" where
  "patchDelivery replay m =
     (let d = eData m; off = nat (ePacketIDOffset m)
      in if length d = 0 \<or> ePacketIDOffset m < 0 \<or> off + 1 \<ge> length d then None
         else
           let d = d[0 := if replay then d ! 0 OR 8 else d ! 0 AND NOT 8];
               d = d[off := ucast (drop_bit 8 (ePacketID m))]
           in Some (d[off + 1 := ucast (ePacketID m)]))"

fun firstUnsent :: "(nat \<Rightarrow> entry) \<Rightarrow> u64 \<Rightarrow> nat list \<Rightarrow> nat option" where
  "firstUnsent h ep [] = None"
| "firstUnsent h ep (p # ps) = (if eLastEpoch (h p) = ep then firstUnsent h ep ps else Some p)"

text \<open>
  \<^verbatim>\<open>Next\<close> on one state.  The outer \<open>None\<close> is a call that does not return normally; the delivery comes
  with a flag telling whether it was the first one, which is when the store counts it as in flight.
\<close>

definition assignPacketID :: "nat \<Rightarrow> session_state \<Rightarrow> session_state option" where
  "assignPacketID p s =
     (case allocPacketID (sInflight s) (sNextPacketID s) of
        None \<Rightarrow> None
      | Some n \<Rightarrow> Some (s\<lparr>sNextPacketID := n, sHeap := (sHeap s)(p := (sHeap s p)\<lparr>ePacketID := n\<rparr>),
                          sInflight := AList.update n p (sInflight s)\<rparr>))"

definition nextDelivery ::
  "int \<Rightarrow> u64 \<Rightarrow> session_state \<Rightarrow> ((delivery \<times> bool) option \<times> session_state) option" where
  "nextDelivery maxInflight ep s =
     (if sDeleted s \<or> sPaused s \<or> ep \<noteq> sEpoch s \<or> sActiveInflight s \<ge> maxInflight then Some (None, s)
      else case firstUnsent (sHeap s) ep (sEntries s) of
        None \<Rightarrow> Some (None, s)
      | Some p \<Rightarrow>
          let replay = (ePacketID (sHeap s p) \<noteq> 0)
          in case (if replay then Some s else assignPacketID p s) of
               None \<Rightarrow> None
             | Some s \<Rightarrow>
                 let m = (sHeap s p)\<lparr>eLastEpoch := ep\<rparr>;
                     s = s\<lparr>sHeap := (sHeap s)(p := m), sActiveInflight := sActiveInflight s + 1\<rparr>
                 in case patchDelivery replay m of
                      None \<Rightarrow> None
                    | Some d \<Rightarrow> Some (Some (\<lparr>dData = d, dPacketID = ePacketID m\<rparr>, \<not> replay), s))"

text \<open>\<^verbatim>\<open>Ack\<close> on one state: the number of bytes released, or \<open>None\<close> when nothing is acknowledged.\<close>

definition ackEntry :: "u16 \<Rightarrow> session_state \<Rightarrow> (int \<times> session_state) option" where
  "ackEntry pid s =
     (case map_of (sInflight s) pid of
        None \<Rightarrow> None
      | Some p \<Rightarrow>
          if sDeleted s then None
          else
            let n = int (length (eData (sHeap s p)))
            in Some (n, notifyLocked (s\<lparr>sInflight := AList.delete pid (sInflight s),
                 sActiveInflight := (if eLastEpoch (sHeap s p) = sEpoch s then sActiveInflight s - 1
                                     else sActiveInflight s),
                 sEntries := remove1 p (sEntries s),
                 sStats := (sStats s)\<lparr>mPendingMessages := mPendingMessages (sStats s) - 1,
                                      mPendingBytes := mPendingBytes (sStats s) - n\<rparr>\<rparr>)))"

section \<open>Invariant\<close>

text \<open>
  The phase of an entry in the current epoch: sent on this connection, sent on an earlier one, never
  sent.  The pending list is sorted by phase, which is what makes redelivery come first and in order.
\<close>

definition phase :: "u64 \<Rightarrow> entry \<Rightarrow> nat" where
  "phase ep e = (if ePacketID e = 0 then 2 else if eLastEpoch e = ep then 0 else 1)"

definition refs_ok :: "session_state \<Rightarrow> bool" where
  "refs_ok s \<longleftrightarrow> distinct (sEntries s) \<and> (\<forall>p \<in> set (sEntries s). p < sNextRef s)"

definition inflight_ok :: "session_state \<Rightarrow> bool" where
  "inflight_ok s \<longleftrightarrow> wf_map (sInflight s) \<and>
     (\<forall>i p. (i, p) \<in> set (sInflight s) \<longleftrightarrow> p \<in> set (sEntries s) \<and> ePacketID (sHeap s p) = i \<and> i \<noteq> 0)"

definition entry_ok :: "u64 \<Rightarrow> entry \<Rightarrow> bool" where
  "entry_ok ep e \<longleftrightarrow> \<not> invalidQueued (eData e) (ePacketIDOffset e)
     \<and> eLastEpoch e \<le> ep \<and> (eLastEpoch e = 0 \<longleftrightarrow> ePacketID e = 0)"

definition order_ok :: "session_state \<Rightarrow> bool" where
  "order_ok s \<longleftrightarrow> sorted (map (phase (sEpoch s) \<circ> sHeap s) (sEntries s))"

definition active_ok :: "session_state \<Rightarrow> bool" where
  "active_ok s \<longleftrightarrow>
     sActiveInflight s = int (count_list (map (phase (sEpoch s) \<circ> sHeap s) (sEntries s)) 0)"

definition entryBytes :: "entry \<Rightarrow> int" where
  "entryBytes e = int (length (eData e))"

definition pendingBytes :: "session_state \<Rightarrow> int" where
  "pendingBytes s = sum_list (map (entryBytes \<circ> sHeap s) (sEntries s))"

definition counts_ok :: "session_state \<Rightarrow> bool" where
  "counts_ok s \<longleftrightarrow> mPendingMessages (sStats s) = int (length (sEntries s))
     \<and> mPendingBytes (sStats s) = pendingBytes s"

definition queue_ok :: "int \<Rightarrow> session_state \<Rightarrow> bool" where
  "queue_ok maxInflight s \<longleftrightarrow> refs_ok s \<and> inflight_ok s
     \<and> (\<forall>p \<in> set (sEntries s). entry_ok (sEpoch s) (sHeap s p)) \<and> order_ok s
     \<and> (\<not> sDeleted s \<longrightarrow> active_ok s) \<and> counts_ok s
     \<and> int (length (sInflight s)) \<le> maxInflight \<and> maxInflight \<le> 65535"

lemmas queue_defs = refs_ok_def inflight_ok_def order_ok_def active_ok_def counts_ok_def

lemma inflight_count:
  assumes "refs_ok s" and "inflight_ok s"
  shows "length (sInflight s) = length (filter (\<lambda>p. ePacketID (sHeap s p) \<noteq> 0) (sEntries s))"
proof -
  have "inj_on snd (set (sInflight s))"
    using assms(2) by (auto simp: inflight_ok_def inj_on_def)
  moreover have "distinct (sInflight s)"
    using assms(2) by (simp add: inflight_ok_def distinct_map)
  ultimately have d: "distinct (map snd (sInflight s))" by (simp add: distinct_map)
  have "set (map snd (sInflight s)) = set (filter (\<lambda>p. ePacketID (sHeap s p) \<noteq> 0) (sEntries s))"
    using assms(2) by (force simp: inflight_ok_def image_iff)
  then have "card (set (map snd (sInflight s))) =
      card (set (filter (\<lambda>p. ePacketID (sHeap s p) \<noteq> 0) (sEntries s)))" by simp
  then show ?thesis
    using distinct_card [OF d] distinct_card [of "filter (\<lambda>p. ePacketID (sHeap s p) \<noteq> 0) (sEntries s)"] assms(1)
    by (simp add: refs_ok_def)
qed

section \<open>Packet identifiers\<close>

lemma free_packetID:
  fixes infl :: "(u16 \<times> nat) list"
  assumes "length infl < 65535"
  obtains m where "m \<noteq> 0" and "map_of infl m = None"
proof -
  have "card (insert 0 (fst ` set infl)) \<le> Suc (card (fst ` set infl))"
    by (simp add: card_insert_if)
  also have "card (fst ` set infl) \<le> length infl"
    using card_image_le [of "set infl" fst] card_length [of infl] by simp
  finally have "card (insert 0 (fst ` set infl)) < 65536" using assms by simp
  moreover have "card (UNIV :: u16 set) = 65536" by (simp add: card_word)
  ultimately have "insert 0 (fst ` set infl) \<noteq> UNIV" by auto
  then obtain m where "m \<notin> insert 0 (fst ` set infl)" by blast
  with that [of m] show thesis by (auto simp: map_of_eq_None_iff)
qed

lemma allocPacketID_reaches:
  "map_of infl m = None \<Longrightarrow> m \<noteq> 0 \<Longrightarrow> m = n + of_nat (Suc k) \<Longrightarrow>
   \<exists>i. allocPacketID infl n = Some i \<and> i \<noteq> 0 \<and> map_of infl i = None"
proof (induction k arbitrary: n rule: less_induct)
  case (less k)
  define i where "i = (if n + 1 = 0 then n + 1 + 1 else n + 1)"
  have i0: "i \<noteq> 0" by (simp add: i_def)
  have rec: "allocPacketID infl n = (if map_of infl i = None then Some i else allocPacketID infl i)"
    by (subst allocPacketID.simps) (simp add: i_def Let_def)
  show ?case
  proof (cases "map_of infl i = None")
    case True
    with rec i0 show ?thesis by simp
  next
    case False
    with less.prems(1) have "i \<noteq> m" by auto
    have "\<exists>k' < k. m = i + of_nat (Suc k')"
    proof (cases "n + 1 = 0")
      case True
      then have "m = of_nat k" using less.prems(3) by (simp add: algebra_simps)
      moreover from True have "i = 1" by (simp add: i_def)
      moreover from calculation \<open>i \<noteq> m\<close> less.prems(2) have "k \<noteq> 0" "k \<noteq> 1" by (auto intro: ccontr)
      then obtain j where "k = Suc (Suc j)" by (metis One_nat_def not0_implies_Suc)
      ultimately show ?thesis by (intro exI [of _ j]) simp
    next
      case False
      then have "i = n + 1" by (simp add: i_def)
      with less.prems(3) \<open>i \<noteq> m\<close> have "k \<noteq> 0" by (auto intro: ccontr)
      then obtain j where "k = Suc j" by (metis not0_implies_Suc)
      with \<open>i = n + 1\<close> less.prems(3) show ?thesis by (intro exI [of _ j]) simp
    qed
    with less.IH less.prems(1,2) rec False show ?thesis by auto
  qed
qed

lemma allocPacketID_fresh:
  assumes "length infl < 65535"
  obtains i where "allocPacketID infl n = Some i" and "i \<noteq> 0" and "map_of infl i = None"
proof -
  from free_packetID [OF assms] obtain m where m: "m \<noteq> 0" "map_of infl m = None" .
  have "m = n + of_nat (Suc (unat (m - n - 1)))" by simp
  from allocPacketID_reaches [OF m(2,1) this] that show thesis by blast
qed

section \<open>Every operation keeps the invariant\<close>

lemma phase_le_2 [simp]: "phase ep e \<le> 2"
  by (simp add: phase_def)

lemma notifyLocked_ok [simp]: "queue_ok l (notifyLocked s) = queue_ok l s"
  by (simp add: notifyLocked_def queue_ok_def queue_defs pendingBytes_def)

lemma heap_upd_fresh: "p \<notin> set ps \<Longrightarrow> map (f \<circ> h(p := e)) ps = map (f \<circ> h) ps"
  by auto

lemma queue_ok_push:
  assumes ok: "queue_ok l s" and v: "\<not> invalidQueued d off"
  shows "queue_ok l (pushEntry now d off s)"
proof -
  let ?p = "sNextRef s"
  define e where "e = \<lparr>eData = d, ePacketIDOffset = off, ePacketID = 0, eLastEpoch = 0, eAccepted = now\<rparr>"
  from ok have fresh: "?p \<notin> set (sEntries s)" by (auto simp: queue_ok_def refs_ok_def)
  have e: "eData e = d" "ePacketID e = 0" "entry_ok (sEpoch s) e" "phase (sEpoch s) e = 2"
    using v by (simp_all add: e_def entry_ok_def phase_def)
  let ?s = "s\<lparr>sHeap := (sHeap s)(?p := e), sNextRef := ?p + 1, sEntries := sEntries s @ [?p],
           sStats := (sStats s)\<lparr>mPendingMessages := mPendingMessages (sStats s) + 1,
                                mPendingBytes := mPendingBytes (sStats s) + int (length d)\<rparr>\<rparr>"
  have "refs_ok ?s" using ok fresh by (auto simp: queue_ok_def refs_ok_def)
  moreover have "inflight_ok ?s" using ok fresh e by (auto simp: queue_ok_def inflight_ok_def)
  moreover have "\<forall>p \<in> set (sEntries ?s). entry_ok (sEpoch ?s) (sHeap ?s p)"
    using ok e by (auto simp: queue_ok_def)
  moreover have "order_ok ?s"
    using ok fresh e by (auto simp: queue_ok_def order_ok_def heap_upd_fresh sorted_append)
  moreover have "\<not> sDeleted ?s \<longrightarrow> active_ok ?s"
    using ok fresh e by (simp add: queue_ok_def active_ok_def heap_upd_fresh)
  moreover have "pendingBytes ?s = pendingBytes s + int (length d)"
    using fresh e by (simp add: pendingBytes_def heap_upd_fresh entryBytes_def)
  then have "counts_ok ?s" using ok by (simp add: queue_ok_def counts_ok_def)
  ultimately have "queue_ok l ?s" using ok by (simp add: queue_ok_def)
  then show ?thesis by (simp add: pushEntry_def Let_def e_def)
qed

lemma epoch_less_Suc:
  fixes ep :: u64
  assumes "ep + 1 \<noteq> 0" and "x \<le> ep"
  shows "x \<le> ep + 1 \<and> x \<noteq> ep + 1"
proof -
  have "unat (ep + 1) = Suc (unat ep)" using assms(1) by (metis add.commute unatSuc)
  with assms(2) show ?thesis by (auto simp: word_le_nat_alt)
qed

lemma queue_ok_begin:
  assumes ok: "queue_ok l s" and wrap: "sEpoch s + 1 \<noteq> 0"
  shows "queue_ok l (beginDelivery s)"
proof -
  let ?s = "s\<lparr>sEpoch := sEpoch s + 1, sActiveInflight := 0\<rparr>"
  have le: "eLastEpoch (sHeap s p) \<le> sEpoch s" if "p \<in> set (sEntries s)" for p
    using ok that by (auto simp: queue_ok_def entry_ok_def)
  have new: "phase (sEpoch s + 1) (sHeap s p) = max 1 (phase (sEpoch s) (sHeap s p))"
    if "p \<in> set (sEntries s)" for p
    using epoch_less_Suc [OF wrap le [OF that]] by (auto simp: phase_def)
  have "map (phase (sEpoch s + 1) \<circ> sHeap s) (sEntries s) =
      map (max 1) (map (phase (sEpoch s) \<circ> sHeap s) (sEntries s))" using new by simp
  moreover have "sorted (map (max (1 :: nat)) xs)" if "sorted xs" for xs
    using that by (induction xs) auto
  moreover have "sorted (map (phase (sEpoch s) \<circ> sHeap s) (sEntries s))"
    using ok by (simp add: queue_ok_def order_ok_def)
  ultimately have "sorted (map (phase (sEpoch s + 1) \<circ> sHeap s) (sEntries s))" by metis
  then have "order_ok ?s" by (simp add: order_ok_def)
  moreover have "active_ok ?s" using new by (auto simp: active_ok_def count_list_0_iff)
  moreover have "\<forall>p \<in> set (sEntries ?s). entry_ok (sEpoch ?s) (sHeap ?s p)"
    using ok epoch_less_Suc [OF wrap le] by (auto simp: queue_ok_def entry_ok_def)
  ultimately have "queue_ok l ?s"
    using ok by (simp add: queue_ok_def refs_ok_def inflight_ok_def counts_ok_def pendingBytes_def)
  then show ?thesis by (simp add: beginDelivery_def)
qed

lemma packetID_inj:
  assumes "inflight_ok s" "p \<in> set (sEntries s)" "q \<in> set (sEntries s)"
    and "ePacketID (sHeap s p) \<noteq> 0" "ePacketID (sHeap s q) = ePacketID (sHeap s p)"
  shows "q = p"
proof -
  let ?i = "ePacketID (sHeap s p)"
  have "(?i, p) \<in> set (sInflight s)" "(?i, q) \<in> set (sInflight s)"
    using assms by (auto simp: inflight_ok_def)
  with assms(1) show ?thesis by (metis inflight_ok_def eq_key_imp_eq_value)
qed

lemma remove1_filter_neq: "distinct xs \<Longrightarrow> filter (\<lambda>q. q \<noteq> p) xs = remove1 p xs"
  by (auto simp: distinct_remove1_removeAll removeAll_filter_not_eq intro: filter_cong)

lemma ackEntry_SomeE:
  assumes ok: "queue_ok l s" and a: "ackEntry pid s = Some (n, s')"
  obtains p where "(pid, p) \<in> set (sInflight s)" and "p \<in> set (sEntries s)" and "ePacketID (sHeap s p) = pid"
    and "pid \<noteq> 0" and "\<not> sDeleted s" and "n = int (length (eData (sHeap s p)))"
    and "s' = notifyLocked (s\<lparr>sInflight := AList.delete pid (sInflight s),
                 sActiveInflight := (if eLastEpoch (sHeap s p) = sEpoch s then sActiveInflight s - 1
                                     else sActiveInflight s),
                 sEntries := filter (\<lambda>q. q \<noteq> p) (sEntries s),
                 sStats := (sStats s)\<lparr>mPendingMessages := mPendingMessages (sStats s) - 1,
                                      mPendingBytes := mPendingBytes (sStats s) - n\<rparr>\<rparr>)"
proof -
  from a obtain p where p: "map_of (sInflight s) pid = Some p" "\<not> sDeleted s"
    by (auto simp: ackEntry_def split: option.splits if_splits)
  then have m: "(pid, p) \<in> set (sInflight s)" by (simp add: map_of_SomeD)
  have r: "remove1 p (sEntries s) = filter (\<lambda>q. q \<noteq> p) (sEntries s)"
    using ok by (simp add: queue_ok_def refs_ok_def remove1_filter_neq)
  show thesis
    by (rule that [of p]) (use m ok a p r in \<open>auto simp: queue_ok_def inflight_ok_def ackEntry_def Let_def\<close>)
qed

lemma count_list_map_filter_neq:
  "distinct xs \<Longrightarrow> p \<in> set xs \<Longrightarrow>
   count_list (map f (filter (\<lambda>q. q \<noteq> p) xs)) y = count_list (map f xs) y - (if f p = y then 1 else 0)"
proof (induction xs)
  case (Cons a xs)
  show ?case
  proof (cases "a = p")
    case True
    with Cons.prems have "filter (\<lambda>q. q \<noteq> p) xs = xs" by (auto simp: filter_id_conv)
    with True show ?thesis by simp
  next
    case False
    with Cons have "p \<in> set xs" by simp
    then have "f p = y \<Longrightarrow> 0 < count_list (map f xs) y"
      by (metis count_list_0_iff image_eqI list.set_map not_gr_zero)
    with Cons False show ?thesis by auto
  qed
qed simp

lemma count_list_pos: "p \<in> set xs \<Longrightarrow> f p = y \<Longrightarrow> 0 < count_list (map f xs) y"
  by (metis count_list_0_iff image_eqI list.set_map not_gr_zero)

lemma sum_list_map_filter_neq:
  fixes f :: "'a \<Rightarrow> int"
  shows "distinct xs \<Longrightarrow> p \<in> set xs \<Longrightarrow>
    sum_list (map f (filter (\<lambda>q. q \<noteq> p) xs)) = sum_list (map f xs) - f p"
  using sum_list_map_remove1 [of p xs f]
  by (simp add: remove1_filter_neq)

lemma length_filter_neq:
  "distinct xs \<Longrightarrow> p \<in> set xs \<Longrightarrow> int (length (filter (\<lambda>q. q \<noteq> p) xs)) = int (length xs) - 1"
  using length_pos_if_in_set [of p xs]
  by (simp add: remove1_filter_neq length_remove1 of_nat_diff Suc_le_eq del: length_greater_0_conv)

lemma queue_ok_ack:
  assumes ok: "queue_ok l s" and a: "ackEntry pid s = Some (n, s')"
  shows "queue_ok l s'"
proof -
  from ackEntry_SomeE [OF ok a] obtain p where p: "(pid, p) \<in> set (sInflight s)" "p \<in> set (sEntries s)"
      "ePacketID (sHeap s p) = pid" "pid \<noteq> 0" "\<not> sDeleted s" "n = entryBytes (sHeap s p)"
    and s': "s' = notifyLocked (s\<lparr>sInflight := AList.delete pid (sInflight s),
                 sActiveInflight := (if eLastEpoch (sHeap s p) = sEpoch s then sActiveInflight s - 1
                                     else sActiveInflight s),
                 sEntries := filter (\<lambda>q. q \<noteq> p) (sEntries s),
                 sStats := (sStats s)\<lparr>mPendingMessages := mPendingMessages (sStats s) - 1,
                                      mPendingBytes := mPendingBytes (sStats s) - n\<rparr>\<rparr>)" (is "s' = notifyLocked ?s")
    unfolding entryBytes_def by metis
  from ok have d: "distinct (sEntries s)" and infl: "inflight_ok s" by (auto simp: queue_ok_def refs_ok_def)
  have "refs_ok ?s" using ok by (auto simp: queue_ok_def refs_ok_def)
  moreover have "inflight_ok ?s"
    using infl p(3) packetID_inj [OF infl p(2)]
    by (auto simp: inflight_ok_def set_delete_alist wf_map_delete)
  moreover have "order_ok ?s" using ok by (simp add: queue_ok_def order_ok_def sorted_filter)
  moreover have "phase (sEpoch s) (sHeap s p) = 0 \<longleftrightarrow> eLastEpoch (sHeap s p) = sEpoch s"
    using p(3,4) by (auto simp: phase_def)
  then have "active_ok ?s"
    using ok p(5) count_list_map_filter_neq [OF d p(2), of "phase (sEpoch s) \<circ> sHeap s" 0]
      count_list_pos [OF p(2), of "phase (sEpoch s) \<circ> sHeap s" 0]
    by (auto simp: queue_ok_def active_ok_def)
  moreover have "counts_ok ?s"
    using ok p(6) sum_list_map_filter_neq [OF d p(2), of "entryBytes \<circ> sHeap s"]
    by (auto simp: queue_ok_def counts_ok_def pendingBytes_def length_filter_neq [OF d p(2)])
  moreover have "length (sInflight ?s) \<le> length (sInflight s)" by (simp add: length_delete_le)
  ultimately show ?thesis unfolding s' notifyLocked_ok using ok by (auto simp: queue_ok_def)
qed

lemma firstUnsent_append:
  "\<forall>x \<in> set xs. eLastEpoch (h x) = ep \<Longrightarrow> firstUnsent h ep (xs @ ys) = firstUnsent h ep ys"
  by (induction xs) auto

lemma firstUnsent_SomeE:
  assumes "firstUnsent h ep ps = Some p"
  obtains xs ys where "ps = xs @ p # ys" and "\<forall>x \<in> set xs. eLastEpoch (h x) = ep" and "eLastEpoch (h p) \<noteq> ep"
  using assms
proof (induction ps arbitrary: thesis)
  case (Cons a ps)
  show ?case
  proof (cases "eLastEpoch (h a) = ep")
    case True
    with Cons obtain xs ys where "ps = xs @ p # ys" "\<forall>x \<in> set xs. eLastEpoch (h x) = ep" "eLastEpoch (h p) \<noteq> ep"
      by auto
    with True show ?thesis by (intro Cons.prems(1) [of "a # xs" ys]) auto
  next
    case False
    with Cons.prems show ?thesis by (auto intro: Cons.prems(1) [of "[]" ps])
  qed
qed simp

lemma firstUnsent_None: "firstUnsent h ep ps = None \<longleftrightarrow> (\<forall>p \<in> set ps. eLastEpoch (h p) = ep)"
  by (induction ps) auto

text \<open>
  The shape of the pending list when a delivery is found: what precedes the entry was sent on this
  connection; when the entry has never been sent, neither has anything after it.
\<close>

lemma unsent_shape:
  assumes ok: "queue_ok l s" and "sEntries s = xs @ p # ys" and "\<forall>x \<in> set xs. eLastEpoch (sHeap s x) = sEpoch s"
    and "eLastEpoch (sHeap s p) \<noteq> sEpoch s"
  shows "sEpoch s \<noteq> 0" and "\<forall>x \<in> set xs. phase (sEpoch s) (sHeap s x) = 0" and "p \<notin> set (xs @ ys)"
    and "ePacketID (sHeap s p) = 0 \<Longrightarrow> \<forall>y \<in> set ys. phase (sEpoch s) (sHeap s y) = 2"
    and "\<forall>y \<in> set ys. phase (sEpoch s) (sHeap s y) \<noteq> 0"
proof -
  have e: "entry_ok (sEpoch s) (sHeap s q)" if "q \<in> set (sEntries s)" for q
    using ok that by (auto simp: queue_ok_def)
  show 0: "sEpoch s \<noteq> 0" using e [of p] assms(2,4) by (auto simp: entry_ok_def)
  show "\<forall>x \<in> set xs. phase (sEpoch s) (sHeap s x) = 0"
  proof
    fix x assume "x \<in> set xs"
    with e [of x] assms(2,3) 0 show "phase (sEpoch s) (sHeap s x) = 0" by (auto simp: phase_def entry_ok_def)
  qed
  show "p \<notin> set (xs @ ys)" using ok assms(2) by (auto simp: queue_ok_def refs_ok_def)
  have "sorted (map (phase (sEpoch s) \<circ> sHeap s) (xs @ p # ys))"
    using ok assms(2) by (simp add: queue_ok_def order_ok_def)
  then have le: "phase (sEpoch s) (sHeap s p) \<le> phase (sEpoch s) (sHeap s y)" if "y \<in> set ys" for y
    using that by (auto simp: sorted_append)
  show "\<forall>y \<in> set ys. phase (sEpoch s) (sHeap s y) = 2" if "ePacketID (sHeap s p) = 0"
    using le that phase_le_2 by (fastforce simp: phase_def [of _ "sHeap s p"] intro: antisym)
  show "\<forall>y \<in> set ys. phase (sEpoch s) (sHeap s y) \<noteq> 0"
    using le assms(4) by (fastforce simp: phase_def [of _ "sHeap s p"] split: if_splits)
qed

subsection \<open>Sending an entry\<close>

definition sendEntry :: "nat \<Rightarrow> u16 \<Rightarrow> u16 \<Rightarrow> (u16 \<times> nat) list \<Rightarrow> session_state \<Rightarrow> session_state" where
  "sendEntry p i n infl s = s\<lparr>sNextPacketID := n,
     sHeap := (sHeap s)(p := (sHeap s p)\<lparr>ePacketID := i, eLastEpoch := sEpoch s\<rparr>),
     sInflight := infl, sActiveInflight := sActiveInflight s + 1\<rparr>"

text \<open>The identifier an entry is sent with: its old one on a replay, a free one the first time.\<close>

definition sendable :: "nat \<Rightarrow> u16 \<Rightarrow> (u16 \<times> nat) list \<Rightarrow> session_state \<Rightarrow> bool" where
  "sendable p i infl s \<longleftrightarrow> i \<noteq> 0 \<and>
     (if ePacketID (sHeap s p) \<noteq> 0 then i = ePacketID (sHeap s p) \<and> infl = sInflight s
      else map_of (sInflight s) i = None \<and> infl = AList.update i p (sInflight s))"

lemma inflight_ok_send:
  assumes "inflight_ok s" and "p \<in> set (sEntries s)" and "sendable p i infl s"
  shows "inflight_ok (sendEntry p i n infl s)"
proof (cases "ePacketID (sHeap s p) = 0")
  case True
  with assms(3) have free: "map_of (sInflight s) i = None" and infl: "infl = AList.update i p (sInflight s)" "i \<noteq> 0"
    by (auto simp: sendable_def)
  have "{q \<in> set (sInflight s). fst q \<noteq> i} = set (sInflight s)"
    using free by (auto simp: map_of_eq_None_iff image_iff)
  then have "set infl = insert (i, p) (set (sInflight s))"
    using assms(1) by (simp add: infl inflight_ok_def set_update_alist)
  moreover have "wf_map infl" using assms(1) by (simp add: infl inflight_ok_def wf_map_update)
  ultimately show ?thesis using True assms(1,2) infl(2)
    by (auto simp: inflight_ok_def sendEntry_def)
next
  case False
  with assms show ?thesis by (auto simp: inflight_ok_def sendEntry_def sendable_def)
qed

lemma inflight_bound_send:
  assumes ok: "queue_ok l s" and "\<not> sDeleted s" and split: "sEntries s = xs @ p # ys"
    and sent: "\<forall>x \<in> set xs. eLastEpoch (sHeap s x) = sEpoch s" "eLastEpoch (sHeap s p) \<noteq> sEpoch s"
    and new: "ePacketID (sHeap s p) = 0"
  shows "int (length (sInflight s)) = sActiveInflight s"
proof -
  note sh = unsent_shape [OF ok split sent]
  have eq: "ePacketID (sHeap s q) \<noteq> 0 \<longleftrightarrow> phase (sEpoch s) (sHeap s q) = 0" if "q \<in> set (sEntries s)" for q
    using that sh(2) sh(4) [OF new] new unfolding split phase_def by (auto split: if_splits)
  have "length (sInflight s) = length (filter (\<lambda>q. phase (sEpoch s) (sHeap s q) = 0) (sEntries s))"
    using inflight_count [of s] ok eq filter_cong [OF refl, of "sEntries s"]
    by (metis (mono_tags, lifting) queue_ok_def)
  also have "\<dots> = count_list (map (phase (sEpoch s) \<circ> sHeap s) (sEntries s)) 0"
    by (induction "sEntries s") (simp_all add: count_list_eq_length_filter comp_def filter_map)
  finally show ?thesis using ok assms(2) by (simp add: queue_ok_def active_ok_def)
qed

lemma queue_ok_send:
  assumes ok: "queue_ok l s" and live: "\<not> sDeleted s" and room: "sActiveInflight s < l"
    and split: "sEntries s = xs @ p # ys"
    and sent: "\<forall>x \<in> set xs. eLastEpoch (sHeap s x) = sEpoch s" "eLastEpoch (sHeap s p) \<noteq> sEpoch s"
    and i: "sendable p i infl s"
  shows "queue_ok l (sendEntry p i n infl s)"
proof -
  let ?s = "sendEntry p i n infl s"
  note sh = unsent_shape [OF ok split sent]
  let ?e = "(sHeap s p)\<lparr>ePacketID := i, eLastEpoch := sEpoch s\<rparr>"
  have p: "p \<in> set (sEntries s)" using split by simp
  have nxs: "p \<notin> set xs" and nys: "p \<notin> set ys" using sh(3) by auto
  have i0: "i \<noteq> 0" using i by (simp add: sendable_def)
  have maps: "map (f \<circ> sHeap ?s) (sEntries ?s) = map (f \<circ> sHeap s) xs @ f ?e # map (f \<circ> sHeap s) ys" for f :: "entry \<Rightarrow> 'b"
    by (simp add: sendEntry_def split heap_upd_fresh [OF nxs] heap_upd_fresh [OF nys])
  have ph: "phase (sEpoch s) ?e = 0" using i0 by (simp add: phase_def)
  have ep: "sEpoch ?s = sEpoch s" by (simp add: sendEntry_def)
  have ord: "sorted (map (phase (sEpoch s) \<circ> sHeap s) (xs @ p # ys))"
    using ok by (simp add: queue_ok_def order_ok_def split)
  have "refs_ok ?s" using ok by (simp add: queue_ok_def refs_ok_def sendEntry_def)
  moreover have "inflight_ok ?s" using ok i p by (simp add: queue_ok_def inflight_ok_send)
  moreover have "entry_ok (sEpoch s) ?e" using ok p i0 sh(1) by (auto simp: queue_ok_def entry_ok_def)
  then have "\<forall>q \<in> set (sEntries ?s). entry_ok (sEpoch ?s) (sHeap ?s q)"
    using ok by (auto simp: queue_ok_def sendEntry_def)
  moreover have "order_ok ?s"
    using ord sh(2) by (auto simp: order_ok_def maps ep ph sorted_append)
  moreover have "phase (sEpoch s) (sHeap s p) \<noteq> 0" using sent(2) by (auto simp: phase_def)
  then have "active_ok ?s"
    using ok live by (simp add: queue_ok_def active_ok_def maps ep ph) (simp add: sendEntry_def split)
  moreover have "pendingBytes ?s = pendingBytes s"
    by (simp add: pendingBytes_def maps) (simp add: split entryBytes_def)
  then have "counts_ok ?s" using ok by (simp add: queue_ok_def counts_ok_def) (simp add: sendEntry_def)
  moreover have "int (length (sInflight ?s)) \<le> l"
    using ok room i inflight_bound_send [OF ok live split sent]
    by (cases "ePacketID (sHeap s p) = 0")
      (auto simp: sendable_def sendEntry_def queue_ok_def inflight_ok_def length_update_alist)
  ultimately show ?thesis using ok by (simp add: queue_ok_def)
qed

subsection \<open>\<^verbatim>\<open>Next\<close> always returns\<close>

definition blocked :: "int \<Rightarrow> u64 \<Rightarrow> session_state \<Rightarrow> bool" where
  "blocked l ep s \<longleftrightarrow> sDeleted s \<or> sPaused s \<or> ep \<noteq> sEpoch s \<or> sActiveInflight s \<ge> l"

lemma patchDelivery_some:
  assumes "entry_ok ep e"
  shows "patchDelivery r e = Some ((eData e)
    [0 := if r then eData e ! 0 OR 8 else eData e ! 0 AND NOT 8,
     nat (ePacketIDOffset e) := ucast (drop_bit 8 (ePacketID e)),
     nat (ePacketIDOffset e) + 1 := ucast (ePacketID e)])"
proof -
  have "length (eData e) \<ge> 2" "2 \<le> ePacketIDOffset e" "ePacketIDOffset e \<le> int (length (eData e)) - 2"
    using assms by (auto simp: entry_ok_def invalidQueued_def)
  then show ?thesis by (auto simp: patchDelivery_def Let_def)
qed

text \<open>
  The outcome of \<^verbatim>\<open>Next\<close> on a state that satisfies the invariant: nothing when the session is blocked or
  everything was sent on this connection, otherwise the first entry that was not.
\<close>

definition delivers :: "int \<Rightarrow> session_state \<Rightarrow> nat \<Rightarrow> delivery \<Rightarrow> bool \<Rightarrow> session_state \<Rightarrow> bool" where
  "delivers l s p d fresh s' \<longleftrightarrow>
     \<not> blocked l (sEpoch s) s \<and> fresh = (ePacketID (sHeap s p) = 0)
     \<and> (\<exists>xs ys infl n. sEntries s = xs @ p # ys \<and> (\<forall>x \<in> set xs. eLastEpoch (sHeap s x) = sEpoch s)
        \<and> eLastEpoch (sHeap s p) \<noteq> sEpoch s \<and> sendable p (dPacketID d) infl s
        \<and> s' = sendEntry p (dPacketID d) n infl s
        \<and> patchDelivery (\<not> fresh) (sHeap s' p) = Some (dData d))"

lemma nextDelivery_found:
  assumes ok: "queue_ok l s" and nb: "\<not> blocked l ep s" and f: "firstUnsent (sHeap s) ep (sEntries s) = Some p"
  shows "\<exists>d fresh s'. nextDelivery l ep s = Some (Some (d, fresh), s') \<and> delivers l s p d fresh s'"
proof -
  from nb have ep: "ep = sEpoch s" and live: "\<not> sDeleted s" and room: "sActiveInflight s < l"
    by (auto simp: blocked_def)
  from firstUnsent_SomeE [OF f] obtain xs ys where split: "sEntries s = xs @ p # ys"
    and sent: "\<forall>x \<in> set xs. eLastEpoch (sHeap s x) = sEpoch s" "eLastEpoch (sHeap s p) \<noteq> sEpoch s"
    unfolding ep .
  define fresh where "fresh \<longleftrightarrow> ePacketID (sHeap s p) = 0"
  have "\<exists>i n infl. sendable p i infl s \<and> (if fresh then assignPacketID p s else Some s) =
      Some (s\<lparr>sNextPacketID := n, sHeap := (sHeap s)(p := (sHeap s p)\<lparr>ePacketID := i\<rparr>), sInflight := infl\<rparr>)"
  proof (cases fresh)
    case True
    then have "length (sInflight s) < 65535"
      using inflight_bound_send [OF ok live split sent] room ok by (simp add: fresh_def queue_ok_def)
    from allocPacketID_fresh [OF this, of "sNextPacketID s"] obtain i where
      "allocPacketID (sInflight s) (sNextPacketID s) = Some i" "i \<noteq> 0" "map_of (sInflight s) i = None" .
    with True show ?thesis by (auto simp: assignPacketID_def sendable_def fresh_def)
  next
    case False
    then have "sendable p (ePacketID (sHeap s p)) (sInflight s) s" by (simp add: sendable_def fresh_def)
    with False show ?thesis by (intro exI [of _ "ePacketID (sHeap s p)"] exI [of _ "sNextPacketID s"] exI [of _ "sInflight s"]) simp
  qed
  then obtain i n infl t where i: "sendable p i infl s"
    and a: "(if ePacketID (sHeap s p) \<noteq> 0 then Some s else assignPacketID p s) = Some t"
    and t: "t = s\<lparr>sNextPacketID := n, sHeap := (sHeap s)(p := (sHeap s p)\<lparr>ePacketID := i\<rparr>), sInflight := infl\<rparr>"
    unfolding fresh_def by (metis (full_types))
  let ?s = "sendEntry p i n infl s"
  have m: "(sHeap t p)\<lparr>eLastEpoch := sEpoch s\<rparr> = sHeap ?s p" "ePacketID (sHeap ?s p) = i"
    and s': "t\<lparr>sHeap := (sHeap t)(p := sHeap ?s p), sActiveInflight := sActiveInflight t + 1\<rparr> = ?s"
    by (simp_all add: t sendEntry_def)
  have "entry_ok (sEpoch s) (sHeap ?s p)"
    using queue_ok_send [OF ok live room split sent i, of n] split by (auto simp: queue_ok_def sendEntry_def)
  from patchDelivery_some [OF this, of "\<not> fresh"] obtain d where d: "patchDelivery (\<not> fresh) (sHeap ?s p) = Some d"
    by blast
  have "nextDelivery l ep s = Some (Some (\<lparr>dData = d, dPacketID = i\<rparr>, fresh), ?s)"
    using nb d unfolding nextDelivery_def blocked_def ep Let_def f [unfolded ep] a option.case m s' fresh_def
    by simp
  moreover have "delivers l s p \<lparr>dData = d, dPacketID = i\<rparr> fresh ?s"
    unfolding delivers_def using nb ep split sent i d fresh_def by auto
  ultimately show ?thesis by blast
qed

lemma nextDelivery_total:
  assumes "queue_ok l s"
  shows "(blocked l ep s \<or> (\<forall>p \<in> set (sEntries s). eLastEpoch (sHeap s p) = ep)) \<and> nextDelivery l ep s = Some (None, s)
    \<or> (\<exists>p d fresh s'. nextDelivery l ep s = Some (Some (d, fresh), s') \<and> delivers l s p d fresh s')"
proof (cases "blocked l ep s \<or> firstUnsent (sHeap s) ep (sEntries s) = None")
  case True
  then have "nextDelivery l ep s = Some (None, s)" by (auto simp: nextDelivery_def blocked_def)
  with True show ?thesis unfolding firstUnsent_None by blast
next
  case False
  then obtain p where "firstUnsent (sHeap s) ep (sEntries s) = Some p" by auto
  with nextDelivery_found [OF assms] False show ?thesis by blast
qed

lemma queue_ok_next:
  assumes ok: "queue_ok l s" and n: "nextDelivery l ep s = Some (r, s')"
  shows "queue_ok l s'"
  using nextDelivery_total [OF ok, of ep]
proof (elim disjE exE conjE)
  fix p d fresh t
  assume "nextDelivery l ep s = Some (Some (d, fresh), t)" and d: "delivers l s p d fresh t"
  with n have "s' = t" by simp
  with d ok show ?thesis by (auto simp: delivers_def blocked_def intro: queue_ok_send)
qed (use n ok in auto)

end
