(* ===== verification/SessionDelivery.thy ===== *)
theory SessionDelivery
  imports SessionQueue
begin

text \<open>
  What the session queue promises: at-least-once delivery in order.  The abstract queue is three
  lists, the messages sent on the present connection, those in flight from an earlier connection and
  those never sent.  The locale \<open>delivery_queue\<close> states how the operations act on it; its
  interpretation on the functions of \<open>SessionQueue\<close> is the refinement.
\<close>

section \<open>The abstract queue\<close>

type_synonym template = "byte list \<times> int"

record aqueue =
  aSent :: "(template \<times> u16) list"
  aReplay :: "(template \<times> u16) list"
  aNew :: "template list"

definition messages :: "aqueue \<Rightarrow> template list" where
  "messages a = map fst (aSent a) @ map fst (aReplay a) @ aNew a"

definition usedIDs :: "aqueue \<Rightarrow> u16 set" where
  "usedIDs a = snd ` set (aSent a @ aReplay a)"

definition aPush :: "template \<Rightarrow> aqueue \<Rightarrow> aqueue" where
  "aPush m a = a\<lparr>aNew := aNew a @ [m]\<rparr>"

definition aRestart :: "aqueue \<Rightarrow> aqueue" where
  "aRestart a = a\<lparr>aSent := [], aReplay := aSent a @ aReplay a\<rparr>"

definition aAck :: "u16 \<Rightarrow> aqueue \<Rightarrow> aqueue" where
  "aAck i a = a\<lparr>aSent := filter (\<lambda>x. snd x \<noteq> i) (aSent a), aReplay := filter (\<lambda>x. snd x \<noteq> i) (aReplay a)\<rparr>"

text \<open>The next message: a replay under its old identifier before anything new under an unused one.\<close>

inductive aNext :: "aqueue \<Rightarrow> template \<Rightarrow> u16 \<Rightarrow> bool \<Rightarrow> aqueue \<Rightarrow> bool" where
  replay: "aReplay a = (m, i) # r \<Longrightarrow> i \<noteq> 0 \<Longrightarrow>
    aNext a m i True (a\<lparr>aSent := aSent a @ [(m, i)], aReplay := r\<rparr>)"
| fresh: "aReplay a = [] \<Longrightarrow> aNew a = m # r \<Longrightarrow> i \<notin> usedIDs a \<Longrightarrow> i \<noteq> 0 \<Longrightarrow>
    aNext a m i False (a\<lparr>aSent := aSent a @ [(m, i)], aNew := r\<rparr>)"

inductive_cases aNextE: "aNext a m i dup a'"

text \<open>The bytes of a delivery: the template with its DUP bit and its identifier filled in.\<close>

definition stamp :: "template \<Rightarrow> u16 \<Rightarrow> bool \<Rightarrow> byte list" where
  "stamp m i dup = (fst m)
     [0 := if dup then fst m ! 0 OR 8 else fst m ! 0 AND NOT 8,
      nat (snd m) := ucast (drop_bit 8 i), nat (snd m) + 1 := ucast i]"

lemma messages_aPush [simp]: "messages (aPush m a) = messages a @ [m]"
  by (simp add: messages_def aPush_def)

lemma messages_aRestart [simp]: "messages (aRestart a) = messages a"
  by (simp add: messages_def aRestart_def)

lemma messages_aNext: "aNext a m i dup a' \<Longrightarrow> messages a' = messages a"
  by (auto simp: messages_def elim!: aNextE)

lemma aNext_position:
  "aNext a m i dup a' \<Longrightarrow> length (aSent a) < length (messages a) \<and> messages a ! length (aSent a) = m
     \<and> aSent a' = aSent a @ [(m, i)]"
  by (auto simp: messages_def nth_append elim!: aNextE)

section \<open>Contract\<close>

locale delivery_queue =
  fixes push :: "template \<Rightarrow> 'q \<Rightarrow> 'q"
    and restart :: "'q \<Rightarrow> 'q"
    and nxt :: "'q \<Rightarrow> (delivery option \<times> 'q) option"
    and ack :: "u16 \<Rightarrow> 'q \<Rightarrow> 'q"
    and abs :: "'q \<Rightarrow> aqueue"
    and invar :: "'q \<Rightarrow> bool"
    and running :: "'q \<Rightarrow> bool"
    and window :: int
    and valid :: "template \<Rightarrow> bool"
    and can_restart :: "'q \<Rightarrow> bool"
  assumes push_abs: "invar q \<Longrightarrow> valid m \<Longrightarrow> invar (push m q) \<and> abs (push m q) = aPush m (abs q)"
    and restart_abs: "invar q \<Longrightarrow> can_restart q \<Longrightarrow> invar (restart q) \<and> abs (restart q) = aRestart (abs q)"
    and ack_abs: "invar q \<Longrightarrow> running q \<Longrightarrow> invar (ack i q) \<and> abs (ack i q) = aAck i (abs q) \<and> running (ack i q)"
    and next_total: "invar q \<Longrightarrow> \<exists>r q'. nxt q = Some (r, q')"
    and next_none: "invar q \<Longrightarrow> nxt q = Some (None, q') \<Longrightarrow> q' = q \<and>
      (\<not> running q \<or> int (length (aSent (abs q))) \<ge> window \<or> aReplay (abs q) = [] \<and> aNew (abs q) = [])"
    and next_some: "invar q \<Longrightarrow> nxt q = Some (Some d, q') \<Longrightarrow> running q \<and> running q' \<and> invar q' \<and>
      int (length (aSent (abs q))) < window \<and>
      (\<exists>m dup. aNext (abs q) m (dPacketID d) dup (abs q') \<and> dData d = stamp m (dPacketID d) dup)"
    and distinct_ids: "invar q \<Longrightarrow> distinct (map snd (aSent (abs q) @ aReplay (abs q))) \<and> 0 \<notin> usedIDs (abs q)"
begin

lemma next_delivers:
  assumes "invar q" "running q" "int (length (aSent (abs q))) < window" "length (aSent (abs q)) < length (messages (abs q))"
  obtains d q' where "nxt q = Some (Some d, q')"
proof -
  from next_total [OF assms(1)] obtain r q' where r: "nxt q = Some (r, q')" by blast
  show thesis
  proof (cases r)
    case None
    with next_none [OF assms(1)] r assms(2-4) show ?thesis by (auto simp: messages_def)
  next
    case (Some d)
    with r that show ?thesis by blast
  qed
qed

text \<open>One exchange on a connection without unacknowledged messages delivers the oldest message.\<close>

lemma exchange:
  assumes "invar q" "running q" "0 < window" "aSent (abs q) = []" "messages (abs q) = m # ms"
  shows "\<exists>d q'. nxt q = Some (Some d, q') \<and> dPacketID d \<noteq> 0
     \<and> dData d = stamp m (dPacketID d) (aReplay (abs q) \<noteq> [])
     \<and> invar (ack (dPacketID d) q') \<and> running (ack (dPacketID d) q')
     \<and> aSent (abs (ack (dPacketID d) q')) = [] \<and> messages (abs (ack (dPacketID d) q')) = ms
     \<and> length (aReplay (abs (ack (dPacketID d) q'))) = length (aReplay (abs q)) - 1"
proof -
  from next_delivers [OF assms(1,2)] assms(3-5) obtain d q' where n: "nxt q = Some (Some d, q')" by auto
  from next_some [OF assms(1) n] obtain m' dup where q': "running q'" "invar q'"
    and a: "aNext (abs q) m' (dPacketID d) dup (abs q')" and b: "dData d = stamp m' (dPacketID d) dup" by blast
  from aNext_position [OF a] assms(4,5) have m: "m' = m" by simp
  from a have dup: "dup = (aReplay (abs q) \<noteq> [])" "dPacketID d \<noteq> 0" by (auto elim!: aNextE)
  from ack_abs [OF q'(2,1)] have ack: "invar (ack (dPacketID d) q')" "running (ack (dPacketID d) q')"
    "abs (ack (dPacketID d) q') = aAck (dPacketID d) (abs q')" by auto
  have "dPacketID d \<notin> snd ` set (aReplay (abs q'))"
    using distinct_ids [OF q'(2)] aNext_position [OF a] by simp
  then have id: "filter (\<lambda>x. snd x \<noteq> dPacketID d) (aReplay (abs q')) = aReplay (abs q')"
    by (intro filter_True ballI notI) (metis imageI)
  show ?thesis
    using n b m dup ack a assms(4,5) id
    by (intro exI [of _ d] exI [of _ q']) (auto simp: aAck_def messages_def elim!: aNextE)
qed

end

section \<open>The session queue implements it\<close>

definition tmpl :: "entry \<Rightarrow> template" where
  "tmpl e = (eData e, ePacketIDOffset e)"

definition tagged :: "entry \<Rightarrow> template \<times> u16" where
  "tagged e = (tmpl e, ePacketID e)"

definition pendingEntries :: "session_state \<Rightarrow> entry list" where
  "pendingEntries s = map (sHeap s) (sEntries s)"

definition inPhase :: "nat \<Rightarrow> session_state \<Rightarrow> entry list" where
  "inPhase k s = filter (\<lambda>e. phase (sEpoch s) e = k) (pendingEntries s)"

definition queueView :: "session_state \<Rightarrow> aqueue" where
  "queueView s = \<lparr>aSent = map tagged (inPhase 0 s), aReplay = map tagged (inPhase 1 s), aNew = map tmpl (inPhase 2 s)\<rparr>"

lemma tagged_simps [simp]: "fst \<circ> tagged = tmpl" "snd \<circ> tagged = ePacketID" "snd (tagged e) = ePacketID e"
  by (auto simp: tagged_def)

lemma queueView_notify [simp]: "queueView (notifyLocked s) = queueView s"
  by (simp add: queueView_def inPhase_def pendingEntries_def notifyLocked_def)

lemma sorted_filter_two:
  fixes f :: "'a \<Rightarrow> nat"
  shows "sorted (map f xs) \<Longrightarrow> a < b \<Longrightarrow>
    filter (\<lambda>x. f x = a \<or> f x = b) xs = filter (\<lambda>x. f x = a) xs @ filter (\<lambda>x. f x = b) xs"
proof (induction xs)
  case (Cons x xs)
  then have "f x = b \<Longrightarrow> filter (\<lambda>y. f y = a) xs = []" by (fastforce simp: filter_empty_conv)
  with Cons show ?case by auto
qed simp

lemma sorted_pendingEntries: "queue_ok l s \<Longrightarrow> sorted (map (phase (sEpoch s)) (pendingEntries s))"
  by (simp add: queue_ok_def order_ok_def pendingEntries_def)

text \<open>The pending list in its order is the three parts one after the other.\<close>

lemma messages_queueView:
  assumes "queue_ok l s"
  shows "messages (queueView s) = map tmpl (pendingEntries s)"
proof -
  let ?f = "phase (sEpoch s)" and ?es = "pendingEntries s"
  have three: "filter (\<lambda>e. f e = 0) es @ filter (\<lambda>e. f e = 1) es @ filter (\<lambda>e. f e = 2) es = es"
    if "sorted (map f es)" "\<forall>e. f e \<le> (2 :: nat)" for f and es :: "entry list"
    using that
  proof (induction es)
    case (Cons x xs)
    then have "f x > 0 \<Longrightarrow> filter (\<lambda>e. f e = 0) xs = []" "f x > 1 \<Longrightarrow> filter (\<lambda>e. f e = 1) xs = []"
      by (fastforce simp: filter_empty_conv)+
    moreover have "f x = 0 \<or> f x = 1 \<or> f x = 2" using Cons.prems(2) [rule_format, of x] by linarith
    ultimately show ?case using Cons by (elim disjE) (auto simp: Cons_eq_append_conv)
  qed simp
  have "map tmpl ?es = map tmpl (filter (\<lambda>e. ?f e = 0) ?es @ filter (\<lambda>e. ?f e = 1) ?es @ filter (\<lambda>e. ?f e = 2) ?es)"
    by (subst three) (simp_all add: sorted_pendingEntries [OF assms])
  then show ?thesis by (simp add: messages_def queueView_def inPhase_def)
qed

lemma queueView_push:
  assumes "queue_ok l s"
  shows "queueView (pushEntry now d off s) = aPush (d, off) (queueView s)"
proof -
  let ?e = "\<lparr>eData = d, ePacketIDOffset = off, ePacketID = 0, eLastEpoch = 0, eAccepted = now\<rparr>"
  have "sNextRef s \<notin> set (sEntries s)" using assms by (auto simp: queue_ok_def refs_ok_def)
  then have "pendingEntries (pushEntry now d off s) = pendingEntries s @ [?e]"
    by (auto simp: pendingEntries_def pushEntry_def Let_def notifyLocked_def)
  moreover have "sEpoch (pushEntry now d off s) = sEpoch s" by (simp add: pushEntry_def Let_def notifyLocked_def)
  moreover have "phase (sEpoch s) ?e = 2" by (simp add: phase_def)
  ultimately show ?thesis by (simp add: queueView_def inPhase_def aPush_def tmpl_def)
qed

lemma queueView_begin:
  assumes ok: "queue_ok l s" and wrap: "sEpoch s + 1 \<noteq> 0"
  shows "queueView (beginDelivery s) = aRestart (queueView s)"
proof -
  have new: "phase (sEpoch s + 1) e = max 1 (phase (sEpoch s) e)" if "e \<in> set (pendingEntries s)" for e
  proof -
    have "eLastEpoch e \<le> sEpoch s" using ok that by (auto simp: queue_ok_def entry_ok_def pendingEntries_def)
    from epoch_less_Suc [OF wrap this] show ?thesis by (auto simp: phase_def)
  qed
  have b: "pendingEntries (beginDelivery s) = pendingEntries s" "sEpoch (beginDelivery s) = sEpoch s + 1"
    by (simp_all add: pendingEntries_def beginDelivery_def notifyLocked_def)
  have "inPhase 0 (beginDelivery s) = []" using new by (auto simp: inPhase_def b filter_empty_conv)
  moreover have "inPhase 1 (beginDelivery s) = filter (\<lambda>e. phase (sEpoch s) e = 0 \<or> phase (sEpoch s) e = 1) (pendingEntries s)"
    unfolding inPhase_def b by (rule filter_cong [OF refl]) (auto simp: new max_def split: if_splits)
  then have "inPhase 1 (beginDelivery s) = inPhase 0 s @ inPhase 1 s"
    using sorted_filter_two [OF sorted_pendingEntries [OF ok], of 0 1] by (simp add: inPhase_def)
  moreover have "inPhase 2 (beginDelivery s) = inPhase 2 s"
    unfolding inPhase_def b by (rule filter_cong [OF refl]) (auto simp: new max_def)
  ultimately show ?thesis by (simp add: queueView_def aRestart_def)
qed

definition ackState :: "u16 \<Rightarrow> session_state \<Rightarrow> session_state" where
  "ackState pid s = (case ackEntry pid s of None \<Rightarrow> s | Some (n, s') \<Rightarrow> s')"

lemma aAck_queueView:
  assumes "pendingEntries s' = filter (\<lambda>e. ePacketID e \<noteq> pid \<or> ePacketID e = 0) (pendingEntries s)" "sEpoch s' = sEpoch s"
  shows "queueView s' = aAck pid (queueView s)"
proof -
  have "inPhase k s' = filter (\<lambda>e. ePacketID e \<noteq> pid \<or> ePacketID e = 0) (inPhase k s)" for k
    by (simp add: inPhase_def assms conj_commute)
  moreover have "filter (\<lambda>e. ePacketID e \<noteq> pid \<or> ePacketID e = 0) (inPhase k s) = filter (\<lambda>e. ePacketID e \<noteq> pid) (inPhase k s)"
    if "k < 2" for k using that by (intro filter_cong [OF refl]) (auto simp: inPhase_def phase_def)
  moreover have "filter (\<lambda>e. ePacketID e \<noteq> pid \<or> ePacketID e = 0) (inPhase 2 s) = inPhase 2 s"
    by (auto simp: inPhase_def phase_def filter_id_conv split: if_splits)
  ultimately show ?thesis by (simp add: queueView_def aAck_def filter_map comp_def)
qed

lemma ackState_view:
  assumes ok: "queue_ok l s" and live: "\<not> sDeleted s"
  shows "queueView (ackState pid s) = aAck pid (queueView s)"
proof (cases "ackEntry pid s")
  case None
  with live have "map_of (sInflight s) pid = None" by (simp add: ackEntry_def Let_def split: option.splits)
  then have "\<forall>p \<in> set (sEntries s). ePacketID (sHeap s p) \<noteq> pid \<or> ePacketID (sHeap s p) = 0"
    using ok by (force simp: queue_ok_def inflight_ok_def map_of_eq_None_iff image_iff)
  then have "pendingEntries s = filter (\<lambda>e. ePacketID e \<noteq> pid \<or> ePacketID e = 0) (pendingEntries s)"
    by (auto simp: pendingEntries_def filter_id_conv)
  from aAck_queueView [OF this] show ?thesis by (simp add: ackState_def None)
next
  case (Some r)
  obtain n s' where r: "r = (n, s')" by (cases r)
  obtain p where p: "p \<in> set (sEntries s)" "ePacketID (sHeap s p) = pid" "pid \<noteq> 0"
    and s': "sEntries s' = filter (\<lambda>q. q \<noteq> p) (sEntries s)" "sHeap s' = sHeap s" "sEpoch s' = sEpoch s"
    by (rule ackEntry_SomeE [OF ok Some [unfolded r]]) (rule that; simp add: notifyLocked_def)
  have "q \<noteq> p \<longleftrightarrow> ePacketID (sHeap s q) \<noteq> pid \<or> ePacketID (sHeap s q) = 0" if "q \<in> set (sEntries s)" for q
    using packetID_inj [of s p q] ok p that by (auto simp: queue_ok_def)
  then have "filter (\<lambda>q. q \<noteq> p) (sEntries s) =
      filter (\<lambda>q. ePacketID (sHeap s q) \<noteq> pid \<or> ePacketID (sHeap s q) = 0) (sEntries s)"
    by (intro filter_cong) auto
  then have "pendingEntries s' = filter (\<lambda>e. ePacketID e \<noteq> pid \<or> ePacketID e = 0) (pendingEntries s)"
    by (simp add: pendingEntries_def s' filter_map comp_def)
  from aAck_queueView [OF this s'(3)] show ?thesis by (simp add: ackState_def Some r)
qed

lemma ackState_ok:
  assumes "queue_ok l s"
  shows "queue_ok l (ackState pid s)" and "sDeleted (ackState pid s) = sDeleted s"
    and "sPaused (ackState pid s) = sPaused s" and "sEpoch (ackState pid s) = sEpoch s"
proof -
  show "queue_ok l (ackState pid s)"
    using assms queue_ok_ack by (auto simp: ackState_def split: option.splits)
  show "sDeleted (ackState pid s) = sDeleted s" "sPaused (ackState pid s) = sPaused s"
    "sEpoch (ackState pid s) = sEpoch s"
    by (auto simp: ackState_def ackEntry_def notifyLocked_def Let_def split: option.splits if_splits)
qed

lemma usedIDs_view: "usedIDs (queueView s) = {ePacketID e |e. e \<in> set (pendingEntries s) \<and> ePacketID e \<noteq> 0}"
proof -
  have "snd ` set (map tagged es) = ePacketID ` set es" for es by (simp add: image_comp)
  then have "usedIDs (queueView s) = ePacketID ` (set (inPhase 0 s) \<union> set (inPhase 1 s))"
    by (simp add: usedIDs_def queueView_def image_Un)
  also have "set (inPhase 0 s) \<union> set (inPhase 1 s) = {e \<in> set (pendingEntries s). ePacketID e \<noteq> 0}"
    by (auto simp: inPhase_def phase_def)
  finally show ?thesis by auto
qed

lemma ids_view:
  assumes ok: "queue_ok l s"
  shows "distinct (map snd (aSent (queueView s) @ aReplay (queueView s)))"
proof -
  let ?es = "filter (\<lambda>e. phase (sEpoch s) e = 0 \<or> phase (sEpoch s) e = 1) (pendingEntries s)"
  have "map snd (aSent (queueView s) @ aReplay (queueView s)) = map ePacketID ?es"
    using sorted_filter_two [OF sorted_pendingEntries [OF ok], of 0 1]
    by (simp add: queueView_def inPhase_def)
  also have "?es = map (sHeap s) (filter (\<lambda>p. ePacketID (sHeap s p) \<noteq> 0) (sEntries s))"
    unfolding pendingEntries_def filter_map comp_def
    by (intro arg_cong [of _ _ "map (sHeap s)"] filter_cong refl) (auto simp: phase_def)
  finally have "map snd (aSent (queueView s) @ aReplay (queueView s)) =
      map (ePacketID \<circ> sHeap s) (filter (\<lambda>p. ePacketID (sHeap s p) \<noteq> 0) (sEntries s))" by simp
  moreover have "inj_on (ePacketID \<circ> sHeap s) (set (filter (\<lambda>p. ePacketID (sHeap s p) \<noteq> 0) (sEntries s)))"
    using packetID_inj [of s] ok by (auto simp: inj_on_def queue_ok_def)
  ultimately show ?thesis using ok by (simp add: distinct_map queue_ok_def refs_ok_def)
qed

lemma patchDelivery_stamp:
  "patchDelivery r e = Some d \<Longrightarrow> d = stamp (tmpl e) (ePacketID e) r"
  by (auto simp: patchDelivery_def stamp_def tmpl_def Let_def split: if_splits)

lemma queueView_delivers:
  assumes ok: "queue_ok l s" and del: "delivers l s p d fresh s'"
  shows "aNext (queueView s) (tmpl (sHeap s p)) (dPacketID d) (\<not> fresh) (queueView s')"
    and "dData d = stamp (tmpl (sHeap s p)) (dPacketID d) (\<not> fresh)"
proof -
  let ?i = "dPacketID d"
  from del obtain xs ys infl n where fresh: "fresh = (ePacketID (sHeap s p) = 0)"
    and split: "sEntries s = xs @ p # ys" and sent: "\<forall>x \<in> set xs. eLastEpoch (sHeap s x) = sEpoch s"
      "eLastEpoch (sHeap s p) \<noteq> sEpoch s"
    and i: "sendable p ?i infl s" and s': "s' = sendEntry p ?i n infl s"
    and d: "patchDelivery (\<not> fresh) (sHeap s' p) = Some (dData d)"
    unfolding delivers_def by blast
  note sh = unsent_shape [OF ok split sent]
  let ?e = "(sHeap s p)\<lparr>ePacketID := ?i, eLastEpoch := sEpoch s\<rparr>"
  have ep: "sEpoch s' = sEpoch s" by (simp add: s' sendEntry_def)
  have i0: "?i \<noteq> 0" using i by (simp add: sendable_def)
  have pe: "pendingEntries s = map (sHeap s) xs @ sHeap s p # map (sHeap s) ys"
    by (simp add: pendingEntries_def split)
  have pe': "pendingEntries s' = map (sHeap s) xs @ ?e # map (sHeap s) ys"
    using sh(3) by (auto simp: pendingEntries_def s' sendEntry_def split)
  have t: "tagged ?e = (tmpl (sHeap s p), ?i)" "phase (sEpoch s) ?e = 0" using i0
    by (auto simp: tagged_def tmpl_def phase_def)
  have xs: "filter (\<lambda>e. phase (sEpoch s) e = k) (map (sHeap s) xs) = (if k = 0 then map (sHeap s) xs else [])" for k
    using sh(2) by (auto simp: filter_id_conv filter_empty_conv)
  have ys0: "filter (\<lambda>e. phase (sEpoch s) e = 0) (map (sHeap s) ys) = []"
    using sh(5) by (auto simp: filter_empty_conv)
  show "aNext (queueView s) (tmpl (sHeap s p)) ?i (\<not> fresh) (queueView s')"
  proof (cases fresh)
    case False
    then have ph: "phase (sEpoch s) (sHeap s p) = 1" using fresh sent(2) by (simp add: phase_def)
    from i False have "?i = ePacketID (sHeap s p)" by (simp add: sendable_def fresh)
    then have "aReplay (queueView s) = (tmpl (sHeap s p), ?i) # map tagged (filter (\<lambda>e. phase (sEpoch s) e = 1) (map (sHeap s) ys))"
      by (simp add: queueView_def inPhase_def pe xs [unfolded One_nat_def] ph tagged_def)
    from aNext.replay [OF this i0] False show ?thesis
      by (simp add: queueView_def inPhase_def pe pe' ep xs [unfolded One_nat_def] ph t ys0)
  next
    case True
    then have ph: "phase (sEpoch s) (sHeap s p) = 2" and ys: "\<forall>y \<in> set ys. phase (sEpoch s) (sHeap s y) = 2"
      using fresh sh(4) by (simp_all add: phase_def [of _ "sHeap s p"])
    then have ys2: "filter (\<lambda>e. phase (sEpoch s) e = k) (map (sHeap s) ys) = (if k = 2 then map (sHeap s) ys else [])" for k
      by (auto simp: filter_id_conv filter_empty_conv)
    have rep: "aReplay (queueView s) = []" by (simp add: queueView_def inPhase_def pe xs [unfolded One_nat_def] ph ys2)
    have new: "aNew (queueView s) = tmpl (sHeap s p) # map tmpl (map (sHeap s) ys)"
      by (simp add: queueView_def inPhase_def pe xs ph ys2)
    have "ePacketID (sHeap s q) \<noteq> ?i" if "q \<in> set (sEntries s)" for q
    proof
      assume "ePacketID (sHeap s q) = ?i"
      with that i0 ok have "(?i, q) \<in> set (sInflight s)" by (auto simp: queue_ok_def inflight_ok_def)
      with i True fresh show False by (auto simp: sendable_def map_of_eq_None_iff dest: in_keys)
    qed
    then have "?i \<notin> usedIDs (queueView s)" by (fastforce simp: usedIDs_view pendingEntries_def)
    from aNext.fresh [OF rep new this i0] True show ?thesis
      by (simp add: queueView_def inPhase_def pe pe' ep xs [unfolded One_nat_def] ph t ys2)
  qed
  have "sHeap s' p = ?e" by (simp add: s' sendEntry_def)
  then show "dData d = stamp (tmpl (sHeap s p)) ?i (\<not> fresh)"
    using patchDelivery_stamp [OF d] by (simp add: tmpl_def)
qed

definition nextState :: "int \<Rightarrow> session_state \<Rightarrow> (delivery option \<times> session_state) option" where
  "nextState l s = map_option (\<lambda>(r, s'). (map_option fst r, s')) (nextDelivery l (sEpoch s) s)"

lemma aSent_count:
  assumes "queue_ok l s" and "\<not> sDeleted s"
  shows "int (length (aSent (queueView s))) = sActiveInflight s"
  using assms
  by (simp add: queue_ok_def active_ok_def queueView_def inPhase_def pendingEntries_def
      count_list_eq_length_filter filter_map comp_def eq_commute [of 0])

text \<open>A connection is running once \<^verbatim>\<open>BeginDelivery\<close> was called and delivery is not paused.\<close>

definition running :: "session_state \<Rightarrow> bool" where
  "running s \<longleftrightarrow> \<not> sDeleted s \<and> \<not> sPaused s \<and> sEpoch s \<noteq> 0"

lemma nextState_none:
  assumes ok: "queue_ok l s" and n: "nextState l s = Some (None, s')"
  shows "s' = s \<and> (\<not> running s \<or> int (length (aSent (queueView s))) \<ge> l
    \<or> aReplay (queueView s) = [] \<and> aNew (queueView s) = [])"
proof -
  from nextDelivery_total [OF ok, of "sEpoch s"] n have s': "s' = s"
    and c: "blocked l (sEpoch s) s \<or> (\<forall>p \<in> set (sEntries s). eLastEpoch (sHeap s p) = sEpoch s)"
    by (auto simp: nextState_def)
  show ?thesis
  proof (cases "blocked l (sEpoch s) s \<or> sEpoch s = 0")
    case True
    with s' aSent_count [OF ok] show ?thesis by (auto simp: blocked_def running_def)
  next
    case False
    have "phase (sEpoch s) e = 0" if "e \<in> set (pendingEntries s)" for e
      using that c False ok by (auto simp: pendingEntries_def phase_def queue_ok_def entry_ok_def)
    with s' show ?thesis by (auto simp: queueView_def inPhase_def filter_empty_conv)
  qed
qed

lemma nextState_some:
  assumes ok: "queue_ok l s" and n: "nextState l s = Some (Some d, s')"
  shows "running s \<and> running s' \<and> queue_ok l s' \<and> int (length (aSent (queueView s))) < l
    \<and> (\<exists>m dup. aNext (queueView s) m (dPacketID d) dup (queueView s') \<and> dData d = stamp m (dPacketID d) dup)"
proof -
  from n nextDelivery_total [OF ok, of "sEpoch s"] obtain p fresh where
    nx: "nextDelivery l (sEpoch s) s = Some (Some (d, fresh), s')" and del: "delivers l s p d fresh s'"
    by (auto simp: nextState_def)
  have "sEpoch s \<noteq> 0" using del unsent_shape(1) [OF ok] unfolding delivers_def by blast
  then have "running s" "running s'" "int (length (aSent (queueView s))) < l"
    using del aSent_count [OF ok] by (auto simp: delivers_def blocked_def running_def sendEntry_def)
  with queue_ok_next [OF ok nx] queueView_delivers [OF ok del] show ?thesis by blast
qed

lemma nextState_total:
  assumes "queue_ok l s"
  shows "\<exists>r s'. nextState l s = Some (r, s')"
  using nextDelivery_total [OF assms, of "sEpoch s"] by (auto simp: nextState_def)

interpretation dq: delivery_queue "\<lambda>m. pushEntry now (fst m) (snd m)" beginDelivery "nextState l" ackState
  queueView "queue_ok l" running l "\<lambda>m. \<not> invalidQueued (fst m) (snd m)" "\<lambda>s. sEpoch s + 1 \<noteq> 0"
  for now l
proof
  fix s s' :: session_state and m i d
  assume ok: "queue_ok l s"
  show "queue_ok l (pushEntry now (fst m) (snd m) s) \<and> queueView (pushEntry now (fst m) (snd m) s) = aPush m (queueView s)"
    if "\<not> invalidQueued (fst m) (snd m)"
    using that ok queue_ok_push queueView_push [OF ok, of now "fst m" "snd m"] by simp
  show "queue_ok l (beginDelivery s) \<and> queueView (beginDelivery s) = aRestart (queueView s)" if "sEpoch s + 1 \<noteq> 0"
    using that ok queue_ok_begin queueView_begin by blast
  show "queue_ok l (ackState i s) \<and> queueView (ackState i s) = aAck i (queueView s) \<and> running (ackState i s)" if "running s"
    using that ackState_ok [OF ok, of i] ackState_view [OF ok, of i] by (simp add: running_def)
  show "\<exists>r s'. nextState l s = Some (r, s')" using ok by (rule nextState_total)
  show "s' = s \<and> (\<not> running s \<or> int (length (aSent (queueView s))) \<ge> l \<or> aReplay (queueView s) = [] \<and> aNew (queueView s) = [])"
    if "nextState l s = Some (None, s')" using ok that by (rule nextState_none)
  show "running s \<and> running s' \<and> queue_ok l s' \<and> int (length (aSent (queueView s))) < l \<and>
      (\<exists>m dup. aNext (queueView s) m (dPacketID d) dup (queueView s') \<and> dData d = stamp m (dPacketID d) dup)"
    if "nextState l s = Some (Some d, s')" using ok that by (rule nextState_some)
  show "distinct (map snd (aSent (queueView s) @ aReplay (queueView s))) \<and> 0 \<notin> usedIDs (queueView s)"
    using ids_view [OF ok] by (auto simp: usedIDs_view)
qed

end
