(* ===== verification/SessionStore.thy ===== *)
theory SessionStore
  imports SessionDelivery TopicParse "HOL-Library.List_Lexorder" "HOL-Library.Char_ord"
begin

text \<open>
  The session store (\<^verbatim>\<open>internal/session/store.go\<close> and the store side of \<^verbatim>\<open>queue.go\<close>).  Clients of the
  store keep pointers to \<^verbatim>\<open>State\<close> objects, also after the session was deleted, so a state has an
  address: \<open>stStates\<close> is the heap of states, \<open>stNext\<close> its allocation counter and \<open>stData\<close> the
  map from client identifiers to addresses.  All methods hold the one mutex of the store, so each is a
  state transition.  The clock is a parameter; \<^verbatim>\<open>time.Time.Sub\<close> saturates at the bounds of a 64-bit
  duration.
\<close>

section \<open>State\<close>

record session_store =
  stData :: "(string \<times> nat) list"
  stStates :: "nat \<Rightarrow> session_state"
  stNext :: nat
  stLimits :: session_limits
  stTotals :: snapshot

definition timeSub :: "int \<Rightarrow> int \<Rightarrow> int" where
  "timeSub a b = max (- (2 ^ 63)) (min (2 ^ 63 - 1) (a - b))"

definition newState :: "int \<Rightarrow> string \<Rightarrow> string \<Rightarrow> session_state" where
  "newState now i own = \<lparr>sID = i, sOwner = own, sDeleted = False, sSubscriptions = [],
     sHeap = (\<lambda>_. \<lparr>eData = [], ePacketIDOffset = 0, ePacketID = 0, eLastEpoch = 0, eAccepted = 0\<rparr>),
     sNextRef = 0, sEntries = [], sInflight = [], sNextPacketID = 0, sEpoch = 0, sActiveInflight = 0,
     sPaused = False, sChanged = False, sStats = zeroSnapshot, sConnected = False, sOfflineSince = Some now\<rparr>"

definition Store_NewWithLimits :: "session_limits \<Rightarrow> session_store result" where
  "Store_NewWithLimits l =
     (case Limits_Validate l of
        Some e \<Rightarrow> Inl e
      | None \<Rightarrow> Inr \<lparr>stData = [], stStates = (\<lambda>_. newState 0 [] []), stNext = 0, stLimits = l,
                     stTotals = zeroSnapshot\<rparr>)"

definition setState :: "nat \<Rightarrow> session_state \<Rightarrow> session_store \<Rightarrow> session_store" where
  "setState p s st = st\<lparr>stStates := (stStates st)(p := s)\<rparr>"

section \<open>The queue operations\<close>

definition overSessionLimit :: "byte list \<Rightarrow> session_limits \<Rightarrow> snapshot \<Rightarrow> bool" where
  "overSessionLimit d l t \<longleftrightarrow> mPendingMessages t \<ge> MaxPendingMessagesPerSession l
     \<or> int (length d) > MaxPendingBytesPerSession l - mPendingBytes t"

definition overGlobalLimit :: "byte list \<Rightarrow> session_limits \<Rightarrow> snapshot \<Rightarrow> bool" where
  "overGlobalLimit d l t \<longleftrightarrow> mPendingMessages t \<ge> MaxPendingMessagesGlobal l
     \<or> int (length d) > MaxPendingBytesGlobal l - mPendingBytes t"

definition Admit :: "int \<Rightarrow> nat \<Rightarrow> byte list \<Rightarrow> int \<Rightarrow> session_store \<Rightarrow> drop_reason option result \<times> session_store" where
  "Admit now p d off st =
     (if invalidQueued d off then (Inl (New ''invalid queued publish''), st)
      else
        let s = stStates st p; t = stTotals st
        in if sDeleted s then (Inl (New ''session removed''), st)
           else if overSessionLimit d (stLimits st) (sStats s)
           then (Inr (Some SessionLimit),
                 (setState p (s\<lparr>sStats := (sStats s)\<lparr>mSessionLimitDrops := mSessionLimitDrops (sStats s) + 1\<rparr>\<rparr>) st)
                   \<lparr>stTotals := t\<lparr>mSessionLimitDrops := mSessionLimitDrops t + 1\<rparr>\<rparr>)
           else if overGlobalLimit d (stLimits st) t
           then (Inr (Some GlobalLimit),
                 (setState p (s\<lparr>sStats := (sStats s)\<lparr>mGlobalLimitDrops := mGlobalLimitDrops (sStats s) + 1\<rparr>\<rparr>) st)
                   \<lparr>stTotals := t\<lparr>mGlobalLimitDrops := mGlobalLimitDrops t + 1\<rparr>\<rparr>)
           else (Inr None,
                 (setState p (pushEntry now d off s) st)
                   \<lparr>stTotals := t\<lparr>mPendingMessages := mPendingMessages t + 1,
                                  mPendingBytes := mPendingBytes t + int (length d)\<rparr>\<rparr>))"

definition BeginDelivery :: "nat \<Rightarrow> session_store \<Rightarrow> u64 \<times> session_store" where
  "BeginDelivery p st = (sEpoch (stStates st p) + 1, setState p (beginDelivery (stStates st p)) st)"

definition PauseDelivery :: "nat \<Rightarrow> session_store \<Rightarrow> session_store" where
  "PauseDelivery p st = setState p ((stStates st p)\<lparr>sPaused := True\<rparr>) st"

definition ResumeDelivery :: "nat \<Rightarrow> session_store \<Rightarrow> session_store" where
  "ResumeDelivery p st = setState p (notifyLocked ((stStates st p)\<lparr>sPaused := False\<rparr>)) st"

definition Next :: "u64 \<Rightarrow> nat \<Rightarrow> session_store \<Rightarrow> (delivery option \<times> session_store) option" where
  "Next ep p st =
     (case nextDelivery (MaxInflightMessagesPerSession (stLimits st)) ep (stStates st p) of
        None \<Rightarrow> None
      | Some (None, s) \<Rightarrow> Some (None, setState p s st)
      | Some (Some (d, first), s) \<Rightarrow>
          let t = stTotals st
          in Some (Some d, (setState p s st)\<lparr>stTotals :=
               (if first then t\<lparr>mInflightMessages := mInflightMessages t + 1\<rparr> else t)\<rparr>))"

definition Ack :: "nat \<Rightarrow> u16 \<Rightarrow> session_store \<Rightarrow> session_store" where
  "Ack p pid st =
     (case ackEntry pid (stStates st p) of
        None \<Rightarrow> st
      | Some (n, s) \<Rightarrow>
          let t = stTotals st
          in (setState p s st)\<lparr>stTotals := t\<lparr>mPendingMessages := mPendingMessages t - 1,
               mPendingBytes := mPendingBytes t - n, mInflightMessages := mInflightMessages t - 1\<rparr>\<rparr>)"

definition snapshotLocked :: "int \<Rightarrow> session_state \<Rightarrow> snapshot" where
  "snapshotLocked now s =
     (let r = (sStats s)\<lparr>mSubscriptionCount := int (length (sSubscriptions s)),
                         mInflightMessages := int (length (sInflight s))\<rparr>
      in case sEntries s of [] \<Rightarrow> r | p # _ \<Rightarrow> r\<lparr>mOldestPendingAge := timeSub now (eAccepted (sHeap s p))\<rparr>)"

definition State_Snapshot :: "int \<Rightarrow> nat \<Rightarrow> session_store \<Rightarrow> snapshot" where
  "State_Snapshot now p st = snapshotLocked now (stStates st p)"

definition Store_Snapshot :: "int \<Rightarrow> session_store \<Rightarrow> snapshot" where
  "Store_Snapshot now st =
     foldl (\<lambda>r (i, p). let age = mOldestPendingAge (snapshotLocked now (stStates st p))
                       in if age > mOldestPendingAge r then r\<lparr>mOldestPendingAge := age\<rparr> else r)
       ((stTotals st)\<lparr>mSessionCount := int (length (stData st))\<rparr>) (stData st)"

section \<open>The store operations\<close>

definition Store_Get :: "string \<Rightarrow> session_store \<Rightarrow> nat option" where
  "Store_Get i st = map_of (stData st) i"

definition GetOrCreateOwned :: "int \<Rightarrow> string \<Rightarrow> string \<Rightarrow> session_store \<Rightarrow> (nat \<times> bool) result \<times> session_store" where
  "GetOrCreateOwned now i own st =
     (case map_of (stData st) i of
        Some p \<Rightarrow> if sOwner (stStates st p) \<noteq> own then (Inl ErrSessionOwner, st) else (Inr (p, True), st)
      | None \<Rightarrow>
          let t = stTotals st
          in if int (length (stData st)) \<ge> MaxSessions (stLimits st)
             then (Inl ErrSessionLimit, st\<lparr>stTotals := t\<lparr>mSessionRejections := mSessionRejections t + 1\<rparr>\<rparr>)
             else
               let p = stNext st
               in (Inr (p, False), (setState p (newState now i own) st)
                    \<lparr>stNext := p + 1, stData := AList.update i p (stData st)\<rparr>))"

definition GetOrCreate :: "int \<Rightarrow> string \<Rightarrow> session_store \<Rightarrow> (nat \<times> bool) result \<times> session_store" where
  "GetOrCreate now i st = GetOrCreateOwned now i [] st"

definition deletedState :: "session_state \<Rightarrow> session_state" where
  "deletedState s = notifyLocked (s\<lparr>sDeleted := True, sEntries := [], sInflight := [], sSubscriptions := [],
     sStats := (sStats s)\<lparr>mPendingMessages := 0, mPendingBytes := 0\<rparr>\<rparr>)"

definition deleteLocked :: "string \<Rightarrow> session_store \<Rightarrow> session_store" where
  "deleteLocked i st =
     (case map_of (stData st) i of
        None \<Rightarrow> st
      | Some p \<Rightarrow>
          let s = stStates st p; t = stTotals st
          in (setState p (deletedState s) st)\<lparr>stTotals := t\<lparr>
                mPendingMessages := mPendingMessages t - mPendingMessages (sStats s),
                mPendingBytes := mPendingBytes t - mPendingBytes (sStats s),
                mInflightMessages := mInflightMessages t - int (length (sInflight s)),
                mSubscriptionCount := mSubscriptionCount t - int (length (sSubscriptions s))\<rparr>,
              stData := AList.delete i (stData st)\<rparr>)"

definition Store_Delete :: "string \<Rightarrow> session_store \<Rightarrow> session_store" where
  "Store_Delete i st = deleteLocked i st"

definition overFilterLimit :: "session_limits \<Rightarrow> string \<Rightarrow> bool" where
  "overFilterLimit l flt \<longleftrightarrow> int (length flt) > MaxFilterBytes l \<or> int (count_list flt CHR ''/'') \<ge> MaxFilterLevels l"

definition SetSubscription :: "nat \<Rightarrow> string \<Rightarrow> byte \<Rightarrow> session_store \<Rightarrow> error option \<times> session_store" where
  "SetSubscription p flt qos st =
     (let s = stStates st p; t = stTotals st; l = stLimits st
      in if sDeleted s then (Some (New ''session removed''), st)
         else if overFilterLimit l flt
         then (Some ErrFilterLimit, st\<lparr>stTotals := t\<lparr>mFilterRejections := mFilterRejections t + 1\<rparr>\<rparr>)
         else if map_of (sSubscriptions s) flt = None
              \<and> (int (length (sSubscriptions s)) \<ge> MaxSubscriptionsPerSession l
                 \<or> mSubscriptionCount t \<ge> MaxSubscriptionsGlobal l)
         then (Some ErrSubscriptionLimit, st\<lparr>stTotals := t\<lparr>mSubscriptionRejections := mSubscriptionRejections t + 1\<rparr>\<rparr>)
         else (None, (setState p (s\<lparr>sSubscriptions := AList.update flt qos (sSubscriptions s)\<rparr>) st)
                \<lparr>stTotals := (if map_of (sSubscriptions s) flt = None
                              then t\<lparr>mSubscriptionCount := mSubscriptionCount t + 1\<rparr> else t)\<rparr>))"

definition DeleteSubscription :: "nat \<Rightarrow> string \<Rightarrow> session_store \<Rightarrow> session_store" where
  "DeleteSubscription p flt st =
     (let s = stStates st p; t = stTotals st
      in if map_of (sSubscriptions s) flt \<noteq> None
         then (setState p (s\<lparr>sSubscriptions := AList.delete flt (sSubscriptions s)\<rparr>) st)
                \<lparr>stTotals := t\<lparr>mSubscriptionCount := mSubscriptionCount t - 1\<rparr>\<rparr>
         else st)"

definition MarkConnected :: "nat \<Rightarrow> session_store \<Rightarrow> session_store" where
  "MarkConnected p st =
     (let s = stStates st p
      in if \<not> sDeleted s then setState p (s\<lparr>sConnected := True, sOfflineSince := None\<rparr>) st else st)"

definition MarkDisconnectedAt :: "nat \<Rightarrow> int \<Rightarrow> session_store \<Rightarrow> session_store" where
  "MarkDisconnectedAt p at st =
     (let s = stStates st p
      in if \<not> sDeleted s \<and> sConnected s
         then setState p (s\<lparr>sConnected := False, sOfflineSince := Some at\<rparr>) st else st)"

definition expired :: "session_limits \<Rightarrow> int \<Rightarrow> session_state \<Rightarrow> bool" where
  "expired l now s \<longleftrightarrow> \<not> (OfflineTTL l = 0 \<or> sConnected s
     \<or> (case sOfflineSince s of None \<Rightarrow> True | Some since \<Rightarrow> timeSub now since < OfflineTTL l))"

definition expireLocked :: "nat option \<Rightarrow> int \<Rightarrow> session_store \<Rightarrow> bool \<times> session_store" where
  "expireLocked state now st =
     (case state of
        None \<Rightarrow> (False, st)
      | Some p \<Rightarrow>
          if \<not> expired (stLimits st) now (stStates st p) then (False, st)
          else
            let st = deleteLocked (sID (stStates st p)) st; t = stTotals st
            in (True, st\<lparr>stTotals := t\<lparr>mExpiredSessions := mExpiredSessions t + 1\<rparr>\<rparr>))"

fun expireLoop :: "int \<Rightarrow> (string \<times> nat) list \<Rightarrow> session_store \<Rightarrow> string list \<times> session_store" where
  "expireLoop now [] st = ([], st)"
| "expireLoop now ((i, p) # m) st =
     (case expireLocked (Some p) now st of
        (b, st) \<Rightarrow> (case expireLoop now m st of (is, st) \<Rightarrow> (if b then i # is else is, st)))"

definition Expire :: "int \<Rightarrow> session_store \<Rightarrow> string list \<times> session_store" where
  "Expire now st = (if OfflineTTL (stLimits st) = 0 then ([], st) else expireLoop now (stData st) st)"

definition ExpireSession :: "string \<Rightarrow> int \<Rightarrow> session_store \<Rightarrow> bool \<times> session_store" where
  "ExpireSession i now st = expireLocked (map_of (stData st) i) now st"

definition SnapshotSubscriptions :: "nat \<Rightarrow> session_store \<Rightarrow> (string \<times> byte) list" where
  "SnapshotSubscriptions p st = sort_key fst (sSubscriptions (stStates st p))"

section \<open>Invariant\<close>

definition subscriptions_ok :: "session_limits \<Rightarrow> session_state \<Rightarrow> bool" where
  "subscriptions_ok l s \<longleftrightarrow> wf_map (sSubscriptions s)
     \<and> int (length (sSubscriptions s)) \<le> MaxSubscriptionsPerSession l
     \<and> (\<forall>f \<in> fst ` set (sSubscriptions s). int (length f) \<le> MaxFilterBytes l \<and> int (length (levels f)) \<le> MaxFilterLevels l)"

definition state_ok :: "session_limits \<Rightarrow> session_state \<Rightarrow> bool" where
  "state_ok l s \<longleftrightarrow> queue_ok (MaxInflightMessagesPerSession l) s \<and> subscriptions_ok l s
     \<and> mPendingMessages (sStats s) \<le> MaxPendingMessagesPerSession l
     \<and> mPendingBytes (sStats s) \<le> MaxPendingBytesPerSession l
     \<and> (sConnected s \<longleftrightarrow> sOfflineSince s = None)
     \<and> (sDeleted s \<longrightarrow> sEntries s = [] \<and> sInflight s = [] \<and> sSubscriptions s = [])"

text \<open>What a session contributes to the totals, and the sum over all sessions of the store.\<close>

record load =
  ldMessages :: int
  ldBytes :: int
  ldInflight :: int
  ldSubscriptions :: int

definition loadOf :: "session_state \<Rightarrow> load" where
  "loadOf s = \<lparr>ldMessages = mPendingMessages (sStats s), ldBytes = mPendingBytes (sStats s),
     ldInflight = int (length (sInflight s)), ldSubscriptions = int (length (sSubscriptions s))\<rparr>"

definition total :: "(load \<Rightarrow> int) \<Rightarrow> session_store \<Rightarrow> int" where
  "total f st = (\<Sum>(i, p) \<leftarrow> stData st. f (loadOf (stStates st p)))"

definition totals_ok :: "session_store \<Rightarrow> bool" where
  "totals_ok st \<longleftrightarrow>
     mPendingMessages (stTotals st) = total ldMessages st
     \<and> mPendingBytes (stTotals st) = total ldBytes st
     \<and> mInflightMessages (stTotals st) = total ldInflight st
     \<and> mSubscriptionCount (stTotals st) = total ldSubscriptions st"

definition within_limits :: "session_store \<Rightarrow> bool" where
  "within_limits st \<longleftrightarrow>
     int (length (stData st)) \<le> MaxSessions (stLimits st)
     \<and> mPendingMessages (stTotals st) \<le> MaxPendingMessagesGlobal (stLimits st)
     \<and> mPendingBytes (stTotals st) \<le> MaxPendingBytesGlobal (stLimits st)
     \<and> mSubscriptionCount (stTotals st) \<le> MaxSubscriptionsGlobal (stLimits st)"

definition directory_ok :: "session_store \<Rightarrow> bool" where
  "directory_ok st \<longleftrightarrow> wf_map (stData st)
     \<and> (\<forall>i p. (i, p) \<in> set (stData st) \<longleftrightarrow>
          p < stNext st \<and> \<not> sDeleted (stStates st p) \<and> sID (stStates st p) = i)"

definition store_ok :: "session_store \<Rightarrow> bool" where
  "store_ok st \<longleftrightarrow> Limits_Validate (stLimits st) = None \<and> directory_ok st
     \<and> (\<forall>p < stNext st. state_ok (stLimits st) (stStates st p)) \<and> totals_ok st \<and> within_limits st"

lemma store_okD:
  assumes "store_ok st"
  shows "directory_ok st" "totals_ok st" "within_limits st" "Limits_Validate (stLimits st) = None"
    and "p < stNext st \<Longrightarrow> state_ok (stLimits st) (stStates st p)"
  using assms by (auto simp: store_ok_def)

lemma state_okD:
  assumes "state_ok l s"
  shows "queue_ok (MaxInflightMessagesPerSession l) s"
  using assms by (simp add: state_ok_def)

lemma setState_simps [simp]:
  "stData (setState p s st) = stData st" "stNext (setState p s st) = stNext st"
  "stLimits (setState p s st) = stLimits st" "stTotals (setState p s st) = stTotals st"
  "stStates (setState p s st) = (stStates st)(p := s)"
  by (simp_all add: setState_def)

lemma loadOf_deleted:
  assumes "state_ok l s" and "sDeleted s"
  shows "loadOf s = \<lparr>ldMessages = 0, ldBytes = 0, ldInflight = 0, ldSubscriptions = 0\<rparr>"
  using assms by (auto simp: loadOf_def state_ok_def queue_ok_def counts_ok_def pendingBytes_def)

lemma sum_list_map_upd:
  fixes f :: "'b \<Rightarrow> int"
  shows "distinct (map snd m) \<Longrightarrow>
    (\<Sum>(i, q) \<leftarrow> m. f ((h(p := x)) q)) = (\<Sum>(i, q) \<leftarrow> m. f (h q)) + (if p \<in> snd ` set m then f x - f (h p) else 0)"
proof (induction m)
  case (Cons a m)
  then show ?case by (cases a) auto
qed simp

lemma directory_distinct: "directory_ok st \<Longrightarrow> distinct (map snd (stData st))"
proof -
  assume "directory_ok st"
  then have d: "distinct (stData st)" and "inj_on snd (set (stData st))"
    by (auto simp: directory_ok_def distinct_map inj_on_def)
  then show ?thesis by (simp add: distinct_map)
qed

text \<open>
  Replacing one state: the invariant is kept when the new state is well-formed and the totals change
  by the difference of its load.
\<close>

lemma total_setState:
  assumes "directory_ok st" and "p < stNext st" and "state_ok l (stStates st p)" "state_ok l s"
    and "sDeleted s = sDeleted (stStates st p)"
  shows "total f (setState p s st) = total f st + (f (loadOf s) - f (loadOf (stStates st p)))"
proof (cases "sDeleted (stStates st p)")
  case True
  then have "p \<notin> snd ` set (stData st)" using assms(1) by (auto simp: directory_ok_def)
  moreover have "loadOf s = loadOf (stStates st p)" using True assms(3-5) by (simp add: loadOf_deleted)
  ultimately show ?thesis
    using sum_list_map_upd [OF directory_distinct [OF assms(1)], of "\<lambda>s. f (loadOf s)" "stStates st" p s]
    by (simp add: total_def)
next
  case False
  then have "(sID (stStates st p), p) \<in> set (stData st)" using assms(1,2) by (simp add: directory_ok_def)
  then have "p \<in> snd ` set (stData st)" by (rule rev_image_eqI) simp
  then show ?thesis
    using sum_list_map_upd [OF directory_distinct [OF assms(1)], of "\<lambda>s. f (loadOf s)" "stStates st" p s]
    by (simp add: total_def)
qed

lemma store_ok_update:
  assumes ok: "store_ok st" and p: "p < stNext st" and s: "state_ok (stLimits st) s"
    and same: "sDeleted s = sDeleted (stStates st p)" "sID s = sID (stStates st p)"
    and t: "mPendingMessages t = mPendingMessages (stTotals st) + (ldMessages (loadOf s) - ldMessages (loadOf (stStates st p)))"
      "mPendingBytes t = mPendingBytes (stTotals st) + (ldBytes (loadOf s) - ldBytes (loadOf (stStates st p)))"
      "mInflightMessages t = mInflightMessages (stTotals st) + (ldInflight (loadOf s) - ldInflight (loadOf (stStates st p)))"
      "mSubscriptionCount t = mSubscriptionCount (stTotals st) + (ldSubscriptions (loadOf s) - ldSubscriptions (loadOf (stStates st p)))"
    and lim: "mPendingMessages t \<le> MaxPendingMessagesGlobal (stLimits st)"
      "mPendingBytes t \<le> MaxPendingBytesGlobal (stLimits st)" "mSubscriptionCount t \<le> MaxSubscriptionsGlobal (stLimits st)"
  shows "store_ok ((setState p s st)\<lparr>stTotals := t\<rparr>)"
proof -
  let ?st = "(setState p s st)\<lparr>stTotals := t\<rparr>"
  note D = store_okD [OF ok]
  have tot: "total f ?st = total f st + (f (loadOf s) - f (loadOf (stStates st p)))" for f
    using total_setState [OF D(1) p D(5) [OF p] s same(1), of f] by (simp add: total_def)
  have "directory_ok ?st" using D(1) same by (auto simp: directory_ok_def)
  moreover have "totals_ok ?st" using D(2) t by (simp add: totals_ok_def tot)
  moreover have "within_limits ?st" using D(3) lim by (simp add: within_limits_def)
  ultimately show ?thesis using D(4,5) s by (auto simp: store_ok_def)
qed

lemma store_ok_setState:
  assumes "store_ok st" "p < stNext st" "state_ok (stLimits st) s" "sDeleted s = sDeleted (stStates st p)"
    and "sID s = sID (stStates st p)" and "loadOf s = loadOf (stStates st p)"
  shows "store_ok (setState p s st)"
proof -
  have "store_ok ((setState p s st)\<lparr>stTotals := stTotals st\<rparr>)"
    by (rule store_ok_update) (use assms store_okD(3) [OF assms(1)] in \<open>auto simp: within_limits_def\<close>)
  then show ?thesis by (simp add: setState_def)
qed

section \<open>Every operation keeps the invariant\<close>

lemma queue_ok_inert [simp]:
  "queue_ok l (s\<lparr>sStats := (sStats s)\<lparr>mSessionLimitDrops := a\<rparr>\<rparr>) = queue_ok l s"
  "queue_ok l (s\<lparr>sStats := (sStats s)\<lparr>mGlobalLimitDrops := a\<rparr>\<rparr>) = queue_ok l s"
  "queue_ok l (s\<lparr>sPaused := b\<rparr>) = queue_ok l s"
  "queue_ok l (s\<lparr>sConnected := b, sOfflineSince := c\<rparr>) = queue_ok l s"
  "queue_ok l (s\<lparr>sSubscriptions := m\<rparr>) = queue_ok l s"
  by (simp_all add: queue_ok_def queue_defs pendingBytes_def)

lemma notifyLocked_sel [simp]:
  "sDeleted (notifyLocked s) = sDeleted s" "sID (notifyLocked s) = sID s" "loadOf (notifyLocked s) = loadOf s"
  "state_ok l (notifyLocked s) = state_ok l s"
  by (simp_all add: notifyLocked_def loadOf_def state_ok_def subscriptions_ok_def queue_ok_def queue_defs pendingBytes_def)

lemma Admit_cases:
  obtains (invalid) "invalidQueued d off" "Admit now p d off st = (Inl (New ''invalid queued publish''), st)"
  | (removed) "\<not> invalidQueued d off" "sDeleted (stStates st p)" "Admit now p d off st = (Inl (New ''session removed''), st)"
  | (session) "\<not> invalidQueued d off" "\<not> sDeleted (stStates st p)"
      "overSessionLimit d (stLimits st) (sStats (stStates st p))"
      "Admit now p d off st = (Inr (Some SessionLimit),
        (setState p ((stStates st p)\<lparr>sStats := (sStats (stStates st p))
           \<lparr>mSessionLimitDrops := mSessionLimitDrops (sStats (stStates st p)) + 1\<rparr>\<rparr>) st)
          \<lparr>stTotals := (stTotals st)\<lparr>mSessionLimitDrops := mSessionLimitDrops (stTotals st) + 1\<rparr>\<rparr>)"
  | (global) "\<not> invalidQueued d off" "\<not> sDeleted (stStates st p)"
      "\<not> overSessionLimit d (stLimits st) (sStats (stStates st p))" "overGlobalLimit d (stLimits st) (stTotals st)"
      "Admit now p d off st = (Inr (Some GlobalLimit),
        (setState p ((stStates st p)\<lparr>sStats := (sStats (stStates st p))
           \<lparr>mGlobalLimitDrops := mGlobalLimitDrops (sStats (stStates st p)) + 1\<rparr>\<rparr>) st)
          \<lparr>stTotals := (stTotals st)\<lparr>mGlobalLimitDrops := mGlobalLimitDrops (stTotals st) + 1\<rparr>\<rparr>)"
  | (push) "\<not> invalidQueued d off" "\<not> sDeleted (stStates st p)"
      "\<not> overSessionLimit d (stLimits st) (sStats (stStates st p))" "\<not> overGlobalLimit d (stLimits st) (stTotals st)"
      "Admit now p d off st = (Inr None, (setState p (pushEntry now d off (stStates st p)) st)
          \<lparr>stTotals := (stTotals st)\<lparr>mPendingMessages := mPendingMessages (stTotals st) + 1,
                                      mPendingBytes := mPendingBytes (stTotals st) + int (length d)\<rparr>\<rparr>)"
  unfolding Admit_def Let_def by argo

lemma Admit_ok:
  assumes ok: "store_ok st" and p: "p < stNext st"
  shows "store_ok (snd (Admit now p d off st))"
proof -
  let ?s = "stStates st p"
  note s = store_okD(5) [OF ok p] and t = store_okD(3) [OF ok]
  show ?thesis
  proof (cases rule: Admit_cases [of d off now p st])
    case session
    show ?thesis unfolding session(4) snd_conv
      by (rule store_ok_update [OF ok p])
         (use s t in \<open>auto simp: state_ok_def subscriptions_ok_def loadOf_def within_limits_def\<close>)
  next
    case global
    show ?thesis unfolding global(5) snd_conv
      by (rule store_ok_update [OF ok p])
         (use s t in \<open>auto simp: state_ok_def subscriptions_ok_def loadOf_def within_limits_def\<close>)
  next
    case push
    have "queue_ok (MaxInflightMessagesPerSession (stLimits st)) (pushEntry now d off ?s)"
      using s push(1) by (simp add: queue_ok_push state_ok_def)
    then have "state_ok (stLimits st) (pushEntry now d off ?s)"
      using s push(2,3)
      by (simp add: state_ok_def subscriptions_ok_def overSessionLimit_def pushEntry_def Let_def notifyLocked_def)
    then show ?thesis unfolding push(5) snd_conv
      by (rule store_ok_update [OF ok p])
         (use push(4) t in \<open>simp_all add: pushEntry_def Let_def loadOf_def notifyLocked_def overGlobalLimit_def within_limits_def\<close>)
  qed (use ok in simp_all)
qed

lemma BeginDelivery_ok:
  assumes ok: "store_ok st" and p: "p < stNext st" and wrap: "sEpoch (stStates st p) + 1 \<noteq> 0"
  shows "store_ok (snd (BeginDelivery p st))"
proof -
  note s = store_okD(5) [OF ok p]
  have "queue_ok (MaxInflightMessagesPerSession (stLimits st)) (beginDelivery (stStates st p))"
    using s wrap by (simp add: queue_ok_begin state_ok_def)
  then have "state_ok (stLimits st) (beginDelivery (stStates st p))"
    using s by (simp add: state_ok_def subscriptions_ok_def beginDelivery_def notifyLocked_def)
  then show ?thesis
    unfolding BeginDelivery_def snd_conv
    by (rule store_ok_setState [OF ok p]) (simp_all add: beginDelivery_def notifyLocked_def loadOf_def)
qed

lemma state_ok_inert [simp]:
  "state_ok l (s\<lparr>sPaused := b\<rparr>) = state_ok l s" "loadOf (s\<lparr>sPaused := b\<rparr>) = loadOf s"
  "loadOf (s\<lparr>sConnected := b, sOfflineSince := c\<rparr>) = loadOf s"
  "state_ok l s \<Longrightarrow> b = (c = None) \<Longrightarrow> state_ok l (s\<lparr>sConnected := b, sOfflineSince := c\<rparr>)"
  by (simp_all add: state_ok_def subscriptions_ok_def loadOf_def)

lemma PauseDelivery_ok: "store_ok st \<Longrightarrow> p < stNext st \<Longrightarrow> store_ok (PauseDelivery p st)"
  unfolding PauseDelivery_def by (rule store_ok_setState) (simp_all add: store_okD(5))

lemma ResumeDelivery_ok: "store_ok st \<Longrightarrow> p < stNext st \<Longrightarrow> store_ok (ResumeDelivery p st)"
  unfolding ResumeDelivery_def by (rule store_ok_setState) (simp_all add: store_okD(5))

lemma MarkConnected_ok: "store_ok st \<Longrightarrow> p < stNext st \<Longrightarrow> store_ok (MarkConnected p st)"
  unfolding MarkConnected_def Let_def by (simp add: store_ok_setState store_okD(5))

lemma MarkDisconnectedAt_ok: "store_ok st \<Longrightarrow> p < stNext st \<Longrightarrow> store_ok (MarkDisconnectedAt p at st)"
  unfolding MarkDisconnectedAt_def Let_def by (simp add: store_ok_setState store_okD(5))

lemma Next_total:
  assumes ok: "store_ok st" and p: "p < stNext st"
  shows "\<exists>r st'. Next ep p st = Some (r, st')"
  using nextDelivery_total [OF state_okD [OF store_okD(5) [OF ok p]], of ep]
  by (auto simp: Next_def Let_def)

lemma delivers_load:
  assumes "state_ok l s" and d: "delivers (MaxInflightMessagesPerSession l) s p d first s'"
  shows "state_ok l s'" and "sDeleted s' = sDeleted s" and "sID s' = sID s"
    and "loadOf s' = (loadOf s)\<lparr>ldInflight := ldInflight (loadOf s) + (if first then 1 else 0)\<rparr>"
proof -
  let ?l = "MaxInflightMessagesPerSession l"
  from d obtain xs ys infl n where nb: "\<not> sDeleted s" "sActiveInflight s < ?l" and first: "first = (ePacketID (sHeap s p) = 0)"
    and sp: "sEntries s = xs @ p # ys" "\<forall>x \<in> set xs. eLastEpoch (sHeap s x) = sEpoch s" "eLastEpoch (sHeap s p) \<noteq> sEpoch s"
    and i: "sendable p (dPacketID d) infl s" and s': "s' = sendEntry p (dPacketID d) n infl s"
    unfolding delivers_def blocked_def by auto
  have q: "queue_ok ?l s'" unfolding s' by (rule queue_ok_send [OF state_okD [OF assms(1)] nb sp i])
  show "sDeleted s' = sDeleted s" "sID s' = sID s" by (simp_all add: s' sendEntry_def)
  show "state_ok l s'"
    using q assms(1) nb(1) unfolding s' by (simp add: state_ok_def subscriptions_ok_def sendEntry_def)
  have "wf_map (sInflight s)" using assms(1) by (simp add: state_ok_def queue_ok_def inflight_ok_def)
  then have "int (length infl) = int (length (sInflight s)) + (if first then 1 else 0)"
    using i by (auto simp: sendable_def first length_update_alist)
  then show "loadOf s' = (loadOf s)\<lparr>ldInflight := ldInflight (loadOf s) + (if first then 1 else 0)\<rparr>"
    by (simp add: loadOf_def s' sendEntry_def)
qed

lemma Next_ok:
  assumes ok: "store_ok st" and p: "p < stNext st" and n: "Next ep p st = Some (r, st')"
  shows "store_ok st'"
proof -
  let ?s = "stStates st p" and ?l = "MaxInflightMessagesPerSession (stLimits st)"
  note s = store_okD(5) [OF ok p]
  from nextDelivery_total [OF state_okD [OF s], of ep]
  consider (none) "nextDelivery ?l ep ?s = Some (None, ?s)"
    | (some) q d first s' where "nextDelivery ?l ep ?s = Some (Some (d, first), s')" "delivers ?l ?s q d first s'"
    by blast
  then show ?thesis
  proof cases
    case none
    with n have "st' = setState p ?s st" by (simp add: Next_def)
    then have "st' = st" by (simp add: setState_def)
    with ok show ?thesis by simp
  next
    case some
    then have st': "st' = (setState p s' st)\<lparr>stTotals := (if first
        then (stTotals st)\<lparr>mInflightMessages := mInflightMessages (stTotals st) + 1\<rparr> else stTotals st)\<rparr>"
      using n by (simp add: Next_def Let_def)
    show ?thesis unfolding st'
      by (rule store_ok_update [OF ok p])
         (use delivers_load [OF s some(2)] store_okD(3) [OF ok] in \<open>auto simp: within_limits_def\<close>)
  qed
qed

lemma Ack_ok:
  assumes ok: "store_ok st" and p: "p < stNext st"
  shows "store_ok (Ack p pid st)"
proof (cases "ackEntry pid (stStates st p)")
  case None
  with ok show ?thesis by (simp add: Ack_def)
next
  case (Some r)
  let ?s = "stStates st p"
  obtain n s' where r: "ackEntry pid ?s = Some (n, s')" using Some by (cases r) auto
  note s = store_okD(5) [OF ok p]
  note q = queue_ok_ack [OF state_okD [OF s] r]
  obtain x where x: "(pid, x) \<in> set (sInflight ?s)" "\<not> sDeleted ?s" "n = int (length (eData (sHeap ?s x)))"
    and s': "sInflight s' = AList.delete pid (sInflight ?s)" "sDeleted s' = sDeleted ?s" "sID s' = sID ?s"
      "sSubscriptions s' = sSubscriptions ?s" "sConnected s' = sConnected ?s" "sOfflineSince s' = sOfflineSince ?s"
      "mPendingMessages (sStats s') = mPendingMessages (sStats ?s) - 1"
      "mPendingBytes (sStats s') = mPendingBytes (sStats ?s) - n"
    by (rule ackEntry_SomeE [OF state_okD [OF s] r]) (rule that; simp add: notifyLocked_def)
  have "wf_map (sInflight ?s)" using s by (simp add: state_ok_def queue_ok_def inflight_ok_def)
  from length_delete_present [OF this map_of_is_SomeI [OF this x(1)]]
  have len: "int (length (sInflight s')) = int (length (sInflight ?s)) - 1" by (simp add: s')
  have "state_ok (stLimits st) s'"
    using q s x(2) by (auto simp: state_ok_def subscriptions_ok_def s' x(3))
  then show ?thesis unfolding Ack_def r option.case prod.case Let_def
    by (rule store_ok_update [OF ok p])
       (use store_okD(3) [OF ok] x(3) len in \<open>auto simp: within_limits_def loadOf_def s'\<close>)
qed

lemma length_levels: "length (levels f) = Suc (count_list f CHR ''/'')"
  by (induction f) (auto split: list.splits)

lemma SetSubscription_cases:
  obtains (removed) "sDeleted (stStates st p)" "SetSubscription p f q st = (Some (New ''session removed''), st)"
  | (flt) "\<not> sDeleted (stStates st p)" "overFilterLimit (stLimits st) f"
      "SetSubscription p f q st = (Some ErrFilterLimit,
        st\<lparr>stTotals := (stTotals st)\<lparr>mFilterRejections := mFilterRejections (stTotals st) + 1\<rparr>\<rparr>)"
  | (limit) "\<not> sDeleted (stStates st p)" "\<not> overFilterLimit (stLimits st) f" "map_of (sSubscriptions (stStates st p)) f = None"
      "int (length (sSubscriptions (stStates st p))) \<ge> MaxSubscriptionsPerSession (stLimits st)
       \<or> mSubscriptionCount (stTotals st) \<ge> MaxSubscriptionsGlobal (stLimits st)"
      "SetSubscription p f q st = (Some ErrSubscriptionLimit,
        st\<lparr>stTotals := (stTotals st)\<lparr>mSubscriptionRejections := mSubscriptionRejections (stTotals st) + 1\<rparr>\<rparr>)"
  | (stored) "\<not> sDeleted (stStates st p)" "\<not> overFilterLimit (stLimits st) f"
      "\<not> (map_of (sSubscriptions (stStates st p)) f = None \<and>
        (int (length (sSubscriptions (stStates st p))) \<ge> MaxSubscriptionsPerSession (stLimits st)
         \<or> mSubscriptionCount (stTotals st) \<ge> MaxSubscriptionsGlobal (stLimits st)))"
      "SetSubscription p f q st = (None,
        (setState p ((stStates st p)\<lparr>sSubscriptions := AList.update f q (sSubscriptions (stStates st p))\<rparr>) st)
          \<lparr>stTotals := (if map_of (sSubscriptions (stStates st p)) f = None
             then (stTotals st)\<lparr>mSubscriptionCount := mSubscriptionCount (stTotals st) + 1\<rparr> else stTotals st)\<rparr>)"
  unfolding SetSubscription_def Let_def by argo

text \<open>Rejections only count.\<close>

lemma store_ok_totals:
  "store_ok st \<Longrightarrow> mPendingMessages t = mPendingMessages (stTotals st) \<Longrightarrow> mPendingBytes t = mPendingBytes (stTotals st)
   \<Longrightarrow> mInflightMessages t = mInflightMessages (stTotals st) \<Longrightarrow> mSubscriptionCount t = mSubscriptionCount (stTotals st)
   \<Longrightarrow> store_ok (st\<lparr>stTotals := t\<rparr>)"
  by (simp add: store_ok_def directory_ok_def totals_ok_def within_limits_def total_def)

lemma SetSubscription_ok:
  assumes ok: "store_ok st" and p: "p < stNext st"
  shows "store_ok (snd (SetSubscription p f q st))"
proof (cases rule: SetSubscription_cases [of st p f q])
  case stored
  let ?s = "stStates st p"
  note s = store_okD(5) [OF ok p]
  from s have wf: "wf_map (sSubscriptions ?s)" by (simp add: state_ok_def subscriptions_ok_def)
  have "int (length f) \<le> MaxFilterBytes (stLimits st)" "int (length (levels f)) \<le> MaxFilterLevels (stLimits st)"
    using stored(2) by (auto simp: overFilterLimit_def length_levels)
  moreover have "int (length (AList.update f q (sSubscriptions ?s))) \<le> MaxSubscriptionsPerSession (stLimits st)"
    using s stored(3) by (auto simp: length_update_alist [OF wf] state_ok_def subscriptions_ok_def)
  ultimately have "subscriptions_ok (stLimits st) (?s\<lparr>sSubscriptions := AList.update f q (sSubscriptions ?s)\<rparr>)"
    using s by (auto simp: state_ok_def subscriptions_ok_def wf_map_update set_update_alist)
  then have "state_ok (stLimits st) (?s\<lparr>sSubscriptions := AList.update f q (sSubscriptions ?s)\<rparr>)"
    using s stored(1) by (simp add: state_ok_def)
  then show ?thesis unfolding stored(4) snd_conv
    by (rule store_ok_update [OF ok p])
       (use store_okD(3) [OF ok] stored(3) in \<open>auto simp: within_limits_def loadOf_def length_update_alist [OF wf]\<close>)
qed (use ok in \<open>simp_all add: store_ok_totals\<close>)

lemma DeleteSubscription_ok:
  assumes ok: "store_ok st" and p: "p < stNext st"
  shows "store_ok (DeleteSubscription p f st)"
proof (cases "map_of (sSubscriptions (stStates st p)) f")
  case None
  with ok show ?thesis by (simp add: DeleteSubscription_def)
next
  case (Some q)
  let ?s = "stStates st p"
  note s = store_okD(5) [OF ok p]
  from s have wf: "wf_map (sSubscriptions ?s)" by (simp add: state_ok_def subscriptions_ok_def)
  note len = length_delete_present [OF wf Some]
  have "state_ok (stLimits st) (?s\<lparr>sSubscriptions := AList.delete f (sSubscriptions ?s)\<rparr>)"
    using s len by (auto simp: state_ok_def subscriptions_ok_def wf_map_delete set_delete_alist)
  moreover have "DeleteSubscription p f st = (setState p (?s\<lparr>sSubscriptions := AList.delete f (sSubscriptions ?s)\<rparr>) st)
      \<lparr>stTotals := (stTotals st)\<lparr>mSubscriptionCount := mSubscriptionCount (stTotals st) - 1\<rparr>\<rparr>"
    using Some by (simp add: DeleteSubscription_def Let_def)
  ultimately show ?thesis
    by (auto intro!: store_ok_update [OF ok p])
       (use store_okD(3) [OF ok] in \<open>auto simp: within_limits_def loadOf_def len\<close>)
qed

lemma newState_ok:
  assumes "Limits_Validate l = None"
  shows "state_ok l (newState now i own)"
proof -
  have "0 < MaxSubscriptionsPerSession l" "0 < MaxPendingMessagesPerSession l" "0 < MaxPendingBytesPerSession l"
    "0 < MaxInflightMessagesPerSession l" "MaxInflightMessagesPerSession l \<le> 65535"
    using assms by (simp_all add: Limits_Validate_def split: if_splits)
  then show ?thesis
    by (simp add: state_ok_def subscriptions_ok_def newState_def queue_ok_def queue_defs pendingBytes_def zeroSnapshot_def)
qed

lemma loadOf_newState:
  "loadOf (newState now i own) = \<lparr>ldMessages = 0, ldBytes = 0, ldInflight = 0, ldSubscriptions = 0\<rparr>"
  by (simp add: loadOf_def newState_def zeroSnapshot_def)

lemma total_create:
  assumes ok: "directory_ok st" and new: "map_of (stData st) i = None" and zero: "f (loadOf s) = 0"
  shows "total f ((setState (stNext st) s st)\<lparr>stNext := Suc (stNext st), stData := AList.update i (stNext st) (stData st)\<rparr>)
    = total f st"
proof -
  let ?h = "(stStates st)(stNext st := s)"
  from ok have wf: "wf_map (stData st)" and "stNext st \<notin> snd ` set (stData st)" by (auto simp: directory_ok_def)
  then have "(\<Sum>(i, q) \<leftarrow> stData st. f (loadOf (?h q))) = total f st"
    using sum_list_map_upd [OF directory_distinct [OF ok], of "\<lambda>s. f (loadOf s)" "stStates st" "stNext st" s]
    by (simp add: total_def)
  moreover have "(\<Sum>(i, q) \<leftarrow> AList.update i (stNext st) (stData st). f (loadOf (?h q)))
      = (\<Sum>(i, q) \<leftarrow> stData st. f (loadOf (?h q))) + f (loadOf s)"
    using sum_list_update_alist [OF wf, of "\<lambda>q. f (loadOf (?h q))" i "stNext st"] new by simp
  ultimately show ?thesis using zero by (simp add: total_def)
qed

lemma GetOrCreateOwned_ok:
  assumes ok: "store_ok st"
  shows "store_ok (snd (GetOrCreateOwned now i own st))"
proof (cases "map_of (stData st) i")
  case (Some p)
  with ok show ?thesis by (simp add: GetOrCreateOwned_def)
next
  case None
  note D = store_okD [OF ok]
  show ?thesis
  proof (cases "int (length (stData st)) \<ge> MaxSessions (stLimits st)")
    case True
    with None ok show ?thesis by (simp add: GetOrCreateOwned_def Let_def store_ok_totals)
  next
    case False
    let ?p = "stNext st" and ?s = "newState now i own"
    let ?st = "(setState ?p ?s st)\<lparr>stNext := ?p + 1, stData := AList.update i ?p (stData st)\<rparr>"
    have wf: "wf_map (stData st)" using D(1) by (simp add: directory_ok_def)
    have "{q \<in> set (stData st). fst q \<noteq> i} = set (stData st)"
      using None by (auto simp: map_of_eq_None_iff dest: in_keys)
    then have "set (AList.update i ?p (stData st)) = insert (i, ?p) (set (stData st))"
      by (simp add: set_update_alist [OF wf])
    then have "directory_ok ?st"
      using D(1) by (auto simp: directory_ok_def wf_map_update newState_def less_Suc_eq)
    moreover have "totals_ok ?st"
      using D(2) by (simp add: totals_ok_def total_create [OF D(1) None] loadOf_newState)
    moreover have "within_limits ?st"
      using D(3) False None by (simp add: within_limits_def length_update_alist [OF wf])
    moreover have "\<forall>p < stNext ?st. state_ok (stLimits ?st) (stStates ?st p)"
      using D(4,5) by (auto simp: less_Suc_eq newState_ok)
    ultimately have "store_ok ?st" using D(4) by (simp add: store_ok_def)
    then show ?thesis using None False by (simp add: GetOrCreateOwned_def Let_def)
  qed
qed

lemma deletedState_ok:
  assumes "state_ok l s" and "Limits_Validate l = None"
  shows "state_ok l (deletedState s)"
proof -
  have "0 < MaxSubscriptionsPerSession l" "0 < MaxPendingMessagesPerSession l" "0 < MaxPendingBytesPerSession l"
    "0 < MaxInflightMessagesPerSession l" "MaxInflightMessagesPerSession l \<le> 65535"
    using assms(2) by (simp_all add: Limits_Validate_def split: if_splits)
  with assms(1) show ?thesis
    by (simp add: deletedState_def notifyLocked_def state_ok_def subscriptions_ok_def queue_ok_def queue_defs
        pendingBytes_def)
qed

lemma total_delete:
  assumes ok: "directory_ok st" and i: "map_of (stData st) i = Some p"
  shows "total f ((setState p s st)\<lparr>stTotals := t, stData := AList.delete i (stData st)\<rparr>)
    = total f st - f (loadOf (stStates st p))"
proof -
  let ?m = "AList.delete i (stData st)"
  from ok have wf: "wf_map (stData st)" by (simp add: directory_ok_def)
  have ip: "(i, p) \<in> set (stData st)" using i by (rule map_of_SomeD)
  have "p \<notin> snd ` set ?m" using ok ip by (auto simp: set_delete_alist directory_ok_def)
  moreover have "distinct (map snd ?m)"
    using directory_distinct [OF ok] by (auto simp: AList.delete_eq distinct_map intro: inj_on_subset)
  ultimately have "(\<Sum>(j, q) \<leftarrow> ?m. f (loadOf (((stStates st)(p := s)) q))) = (\<Sum>(j, q) \<leftarrow> ?m. f (loadOf (stStates st q)))"
    using sum_list_map_upd [of ?m "\<lambda>s. f (loadOf s)" "stStates st" p s] by simp
  then show ?thesis
    using sum_list_delete_alist [OF wf, of "\<lambda>q. f (loadOf (stStates st q))" i] i by (simp add: total_def)
qed

lemma deleteLocked_ok:
  assumes ok: "store_ok st"
  shows "store_ok (deleteLocked i st)"
proof (cases "map_of (stData st) i")
  case None
  with ok show ?thesis by (simp add: deleteLocked_def)
next
  case (Some p)
  note D = store_okD [OF ok]
  let ?s = "stStates st p" and ?t = "stTotals st"
  let ?st = "(setState p (deletedState ?s) st)\<lparr>stTotals := ?t\<lparr>
                mPendingMessages := mPendingMessages ?t - mPendingMessages (sStats ?s),
                mPendingBytes := mPendingBytes ?t - mPendingBytes (sStats ?s),
                mInflightMessages := mInflightMessages ?t - int (length (sInflight ?s)),
                mSubscriptionCount := mSubscriptionCount ?t - int (length (sSubscriptions ?s))\<rparr>,
              stData := AList.delete i (stData st)\<rparr>"
  have wf: "wf_map (stData st)" using D(1) by (simp add: directory_ok_def)
  have ip: "(i, p) \<in> set (stData st)" using Some by (rule map_of_SomeD)
  then have p: "p < stNext st" "sID ?s = i" using D(1) by (auto simp: directory_ok_def)
  note s = D(5) [OF p(1)]
  have uniq: "q = p" if "(i, q) \<in> set (stData st)" for q using that ip wf by (rule eq_key_imp_eq_value [rotated 1])
  have "directory_ok ?st"
    using D(1) uniq p(2)
    by (auto simp: directory_ok_def wf_map_delete set_delete_alist deletedState_def notifyLocked_def)
  moreover have "totals_ok ?st" using D(2) by (simp add: totals_ok_def total_delete [OF D(1) Some] loadOf_def)
  moreover have "0 \<le> mPendingMessages (sStats ?s)" "0 \<le> mPendingBytes (sStats ?s)"
    using s by (auto simp: state_ok_def queue_ok_def counts_ok_def pendingBytes_def entryBytes_def intro!: sum_list_nonneg)
  then have "within_limits ?st"
    using D(3) length_delete_le [of i "stData st"] by (simp add: within_limits_def)
  moreover have "\<forall>q < stNext ?st. state_ok (stLimits ?st) (stStates ?st q)"
    using D(4,5) s by (simp add: deletedState_ok)
  ultimately have "store_ok ?st" using D(4) by (simp add: store_ok_def)
  then show ?thesis using Some by (simp add: deleteLocked_def Let_def)
qed

subsection \<open>Expiry\<close>

lemma expireLocked_step:
  assumes ok: "store_ok st" and ip: "(i, p) \<in> set (stData st)"
    and e: "expireLocked (Some p) now st = (b, st')"
  shows "store_ok st'" and "stLimits st' = stLimits st" and "stNext st' = stNext st"
    and "b = expired (stLimits st) now (stStates st p)"
    and "stData st' = (if b then AList.delete i (stData st) else stData st)"
    and "stStates st' = (if b then (stStates st)(p := deletedState (stStates st p)) else stStates st)"
proof -
  have d: "directory_ok st" using store_okD(1) [OF ok] .
  then have i: "sID (stStates st p) = i" and "map_of (stData st) i = Some p"
    using ip by (auto simp: directory_ok_def)
  then have del: "stLimits (deleteLocked i st) = stLimits st" "stNext (deleteLocked i st) = stNext st"
    "stData (deleteLocked i st) = AList.delete i (stData st)"
    "stStates (deleteLocked i st) = (stStates st)(p := deletedState (stStates st p))"
    by (simp_all add: deleteLocked_def Let_def)
  show "store_ok st'" "stLimits st' = stLimits st" "stNext st' = stNext st"
    "b = expired (stLimits st) now (stStates st p)"
    "stData st' = (if b then AList.delete i (stData st) else stData st)"
    "stStates st' = (if b then (stStates st)(p := deletedState (stStates st p)) else stStates st)"
    using e ok deleteLocked_ok [OF ok, of i] del
    by (auto simp: expireLocked_def i Let_def store_ok_totals split: if_splits)
qed

lemma expireLoop_spec:
  "store_ok st \<Longrightarrow> wf_map m \<Longrightarrow> set m \<subseteq> set (stData st) \<Longrightarrow> expireLoop now m st = (is, st') \<Longrightarrow>
   store_ok st' \<and> stLimits st' = stLimits st \<and> stNext st' = stNext st
   \<and> is = map fst (filter (\<lambda>(i, p). expired (stLimits st) now (stStates st p)) m)
   \<and> set (stData st') = set (stData st) - {x \<in> set m. expired (stLimits st) now (stStates st (snd x))}
   \<and> (\<forall>q. stStates st' q = (if \<exists>i. (i, q) \<in> set m \<and> expired (stLimits st) now (stStates st q)
        then deletedState (stStates st q) else stStates st q))"
proof (induction m arbitrary: st st' "is")
  case (Cons x m)
  obtain i p where x: "x = (i, p)" by (cases x)
  obtain b st1 where e: "expireLocked (Some p) now st = (b, st1)" by (cases "expireLocked (Some p) now st")
  obtain js st2 where l: "expireLoop now m st1 = (js, st2)" by (cases "expireLoop now m st1")
  have ip: "(i, p) \<in> set (stData st)" and notin: "i \<notin> fst ` set m" using Cons.prems by (auto simp: x)
  note step = expireLocked_step [OF Cons.prems(1) ip e]
  have dir: "directory_ok st" using store_okD(1) [OF Cons.prems(1)] .
  have other: "q \<noteq> p" if "(j, q) \<in> set m" for j q
  proof
    assume "q = p"
    with that ip Cons.prems(3) dir have "j = i" by (auto simp: directory_ok_def)
    with that notin show False by (auto dest: in_keys)
  qed
  have same: "stStates st1 q = stStates st q" if "(j, q) \<in> set m" for j q
    using other [OF that] by (simp add: step(6))
  then have same2: "stStates st1 (snd y) = stStates st (snd y)" if "y \<in> set m" for y
    using that by (metis prod.collapse)
  have sub: "set m \<subseteq> set (stData st1)"
    using Cons.prems(3) notin by (auto simp: x step(5) set_delete_alist dest: in_keys)
  have IH: "store_ok st2 \<and> stLimits st2 = stLimits st \<and> stNext st2 = stNext st
   \<and> js = map fst (filter (\<lambda>(i, p). expired (stLimits st) now (stStates st p)) m)
   \<and> set (stData st2) = set (stData st1) - {x \<in> set m. expired (stLimits st) now (stStates st (snd x))}
   \<and> (\<forall>q. stStates st2 q = (if \<exists>i. (i, q) \<in> set m \<and> expired (stLimits st) now (stStates st q)
        then deletedState (stStates st q) else stStates st1 q))"
  proof -
    have wf: "wf_map m" using Cons.prems(2) by simp
    have f: "filter (\<lambda>(i, p). expired (stLimits st) now (stStates st1 p)) m = filter (\<lambda>(i, p). expired (stLimits st) now (stStates st p)) m"
      "{x \<in> set m. expired (stLimits st) now (stStates st1 (snd x))} = {x \<in> set m. expired (stLimits st) now (stStates st (snd x))}"
    proof -
      show "filter (\<lambda>(i, p). expired (stLimits st) now (stStates st1 p)) m = filter (\<lambda>(i, p). expired (stLimits st) now (stStates st p)) m"
        by (rule filter_cong) (simp_all add: split_def same2)
      show "{x \<in> set m. expired (stLimits st) now (stStates st1 (snd x))} = {x \<in> set m. expired (stLimits st) now (stStates st (snd x))}"
        by (rule Collect_cong) (metis same2)
    qed
    have g: "(\<exists>i. (i, q) \<in> set m \<and> expired (stLimits st) now (stStates st1 q)) \<longleftrightarrow> (\<exists>i. (i, q) \<in> set m \<and> expired (stLimits st) now (stStates st q))"
      "(\<exists>i. (i, q) \<in> set m \<and> expired (stLimits st) now (stStates st q)) \<Longrightarrow> stStates st1 q = stStates st q" for q
      using same by metis+
    show ?thesis using Cons.IH [OF step(1) wf sub l] unfolding step(2,3) f g(1) using g(2) by presburger
  qed
  have st': "st' = st2" "is = (if b then i # js else js)" using Cons.prems(4) by (auto simp: x e l)
  have uniq: "q = p" if "(i, q) \<in> set (stData st)" for q
  proof -
    have "wf_map (stData st)" using dir by (simp add: directory_ok_def)
    then show ?thesis using that ip eq_key_imp_eq_value [of "stData st" i p q] by blast
  qed
  have "set (AList.delete i (stData st)) = set (stData st) - {(i, p)}"
    by (auto simp: set_delete_alist dest: uniq)
  then have "set (stData st1) = set (stData st) - (if b then {(i, p)} else {})"
    by (simp add: step(5))
  then have data: "set (stData st2) = set (stData st) - {y \<in> set (x # m). expired (stLimits st) now (stStates st (snd y))}"
    using IH by (auto simp: x step(4))
  have states: "stStates st2 q = (if \<exists>j. (j, q) \<in> set (x # m) \<and> expired (stLimits st) now (stStates st q)
        then deletedState (stStates st q) else stStates st q)" for q
    using IH other [of _ q] by (cases "q = p") (auto simp: x step(4,6))
  have ids: "is = map fst (filter (\<lambda>(i, p). expired (stLimits st) now (stStates st p)) (x # m))"
    using IH by (simp add: st' x step(4))
  show ?case unfolding st'(1) using IH data states ids by blast
qed auto

lemma Expire_ok: "store_ok st \<Longrightarrow> store_ok (snd (Expire now st))"
  using expireLoop_spec [of st "stData st" now] store_okD(1) [of st]
  by (cases "expireLoop now (stData st) st") (auto simp: Expire_def directory_ok_def)

lemma ExpireSession_ok:
  assumes "store_ok st"
  shows "store_ok (snd (ExpireSession i now st))"
proof (cases "map_of (stData st) i")
  case (Some p)
  then show ?thesis
    using expireLocked_step(1) [OF assms map_of_SomeD [OF Some]]
    by (cases "expireLocked (Some p) now st") (auto simp: ExpireSession_def)
qed (use assms in \<open>simp add: ExpireSession_def expireLocked_def\<close>)

lemma expired_iff:
  assumes "0 \<le> OfflineTTL l" "OfflineTTL l < 2 ^ 63"
  shows "expired l now s \<longleftrightarrow> OfflineTTL l \<noteq> 0 \<and> \<not> sConnected s
    \<and> (\<exists>since. sOfflineSince s = Some since \<and> now - since \<ge> OfflineTTL l)"
  using assms by (auto simp: expired_def timeSub_def split: option.splits)

section \<open>Runs of the store\<close>

text \<open>
  The methods of the store and of the states it handed out, in any order.  \<^verbatim>\<open>BeginDelivery\<close> is called
  fewer than \<open>2 ^ 64\<close> times on a session, so the epoch does not wrap.
\<close>

inductive store_step :: "session_store \<Rightarrow> session_store \<Rightarrow> bool" where
  admit: "p < stNext st \<Longrightarrow> store_step st (snd (Admit now p d off st))"
| begin_delivery: "p < stNext st \<Longrightarrow> sEpoch (stStates st p) + 1 \<noteq> 0 \<Longrightarrow> store_step st (snd (BeginDelivery p st))"
| pause: "p < stNext st \<Longrightarrow> store_step st (PauseDelivery p st)"
| resume: "p < stNext st \<Longrightarrow> store_step st (ResumeDelivery p st)"
| next_delivery: "p < stNext st \<Longrightarrow> Next ep p st = Some (r, st') \<Longrightarrow> store_step st st'"
| ack: "p < stNext st \<Longrightarrow> store_step st (Ack p pid st)"
| get_or_create: "store_step st (snd (GetOrCreateOwned now i own st))"
| delete: "store_step st (Store_Delete i st)"
| set_subscription: "p < stNext st \<Longrightarrow> store_step st (snd (SetSubscription p f q st))"
| delete_subscription: "p < stNext st \<Longrightarrow> store_step st (DeleteSubscription p f st)"
| mark_connected: "p < stNext st \<Longrightarrow> store_step st (MarkConnected p st)"
| mark_disconnected: "p < stNext st \<Longrightarrow> store_step st (MarkDisconnectedAt p at st)"
| expire: "store_step st (snd (Expire now st))"
| expire_session: "store_step st (snd (ExpireSession i now st))"

inductive store_reachable :: "session_limits \<Rightarrow> session_store \<Rightarrow> bool" for l where
  init: "Store_NewWithLimits l = Inr st \<Longrightarrow> store_reachable l st"
| step: "store_reachable l st \<Longrightarrow> store_step st st' \<Longrightarrow> store_reachable l st'"

lemma store_step_ok: "store_step st st' \<Longrightarrow> store_ok st \<Longrightarrow> store_ok st'"
  by (induction rule: store_step.induct)
     (auto simp: Store_Delete_def intro: Admit_ok BeginDelivery_ok PauseDelivery_ok ResumeDelivery_ok Next_ok Ack_ok
       GetOrCreateOwned_ok deleteLocked_ok SetSubscription_ok DeleteSubscription_ok MarkConnected_ok
       MarkDisconnectedAt_ok Expire_ok ExpireSession_ok)

lemma Store_New_ok:
  assumes "Store_NewWithLimits l = Inr st"
  shows "store_ok st"
proof -
  from assms have v: "Limits_Validate l = None" by (auto simp: Store_NewWithLimits_def split: option.splits)
  then have "0 < MaxSessions l" "0 < MaxPendingMessagesGlobal l" "0 < MaxPendingBytesGlobal l" "0 < MaxSubscriptionsGlobal l"
    by (auto simp: Limits_Validate_def split: if_splits)
  with assms v show ?thesis
    by (auto simp: Store_NewWithLimits_def store_ok_def directory_ok_def totals_ok_def within_limits_def total_def zeroSnapshot_def)
qed

lemma store_reachable_ok: "store_reachable l st \<Longrightarrow> store_ok st"
  by (induction rule: store_reachable.induct) (auto intro: Store_New_ok store_step_ok)

subsection \<open>The queue of a session\<close>

definition view :: "session_store \<Rightarrow> nat \<Rightarrow> aqueue" where
  "view st p = queueView (stStates st p)"

abbreviation window :: "session_store \<Rightarrow> int" where
  "window st \<equiv> MaxInflightMessagesPerSession (stLimits st)"

lemma Next_nextState:
  "nextState (window st) (stStates st p) = Some (r, s') \<Longrightarrow>
   \<exists>t. Next (sEpoch (stStates st p)) p st = Some (r, (setState p s' st)\<lparr>stTotals := t\<rparr>)"
  by (auto simp: nextState_def Next_def Let_def split: option.splits prod.splits)
     (rule exI [of _ "stTotals st"], simp add: setState_def)

lemma Next_SomeE:
  assumes ok: "store_ok st" "p < stNext st" and n: "Next ep p st = Some (Some d, st')"
  obtains s' t where "ep = sEpoch (stStates st p)" and "nextState (window st) (stStates st p) = Some (Some d, s')"
    and "st' = (setState p s' st)\<lparr>stTotals := t\<rparr>"
proof -
  from n obtain b s' t where nd: "nextDelivery (window st) ep (stStates st p) = Some (Some (d, b), s')"
    and st': "st' = (setState p s' st)\<lparr>stTotals := t\<rparr>"
    by (auto simp: Next_def Let_def split: option.splits prod.splits)
  from nd have "ep = sEpoch (stStates st p)" by (auto simp: nextDelivery_def split: if_splits)
  with nd st' that show thesis by (simp add: nextState_def)
qed

lemma Ack_state: "stStates (Ack p i st) = (stStates st)(p := ackState i (stStates st p))"
  by (auto simp: Ack_def ackState_def Let_def split: option.splits)

lemma Ack_simps [simp]: "stNext (Ack p i st) = stNext st" "stLimits (Ack p i st) = stLimits st"
  by (auto simp: Ack_def Let_def split: option.splits)

lemma limits_const [simp]:
  "stLimits (snd (Admit now p d off st)) = stLimits st" "stLimits (snd (BeginDelivery p st)) = stLimits st"
  "stLimits (PauseDelivery p st) = stLimits st" "stLimits (ResumeDelivery p st) = stLimits st"
  "stLimits (snd (GetOrCreateOwned now i own st)) = stLimits st" "stLimits (deleteLocked i st) = stLimits st"
  "stLimits (snd (SetSubscription p f q st)) = stLimits st" "stLimits (DeleteSubscription p f st) = stLimits st"
  "stLimits (MarkConnected p st) = stLimits st" "stLimits (MarkDisconnectedAt p at st) = stLimits st"
  "stLimits (snd (expireLocked x now st)) = stLimits st"
  by (simp_all add: Admit_def BeginDelivery_def PauseDelivery_def ResumeDelivery_def GetOrCreateOwned_def deleteLocked_def
      SetSubscription_def DeleteSubscription_def MarkConnected_def MarkDisconnectedAt_def expireLocked_def Let_def
      split: option.splits)

lemma limits_const_expire [simp]:
  "stLimits (snd (Expire now st)) = stLimits st" "stLimits (snd (ExpireSession i now st)) = stLimits st"
proof -
  have "stLimits (snd (expireLoop now m st)) = stLimits st" for m
  proof (induction m arbitrary: st)
    case (Cons x m)
    obtain i p where x: "x = (i, p)" by (cases x)
    show ?case using Cons.IH [of "snd (expireLocked (Some p) now st)"] by (simp add: x split_def)
  qed simp
  then show "stLimits (snd (Expire now st)) = stLimits st" by (simp add: Expire_def)
  show "stLimits (snd (ExpireSession i now st)) = stLimits st" by (simp add: ExpireSession_def)
qed

lemma limits_const_next: "Next ep p st = Some (r, st') \<Longrightarrow> stLimits st' = stLimits st"
  by (auto simp: Next_def Let_def split: option.splits prod.splits)

lemma store_reachable_limits: "store_reachable l st \<Longrightarrow> stLimits st = l"
proof (induction rule: store_reachable.induct)
  case (step st st')
  from step(2) have "stLimits st' = stLimits st"
    by (induction rule: store_step.induct) (auto simp: Store_Delete_def dest: limits_const_next)
  with step show ?case by simp
qed (auto simp: Store_NewWithLimits_def split: option.splits)

section \<open>Properties of the session store\<close>

text \<open>
  C16: the limits of the session store hold and its accounting is exact, after any sequence of
  operations on any of its sessions, deleted ones included. The global counters are the sums over the
  live sessions, and pending messages and bytes, messages in flight, subscriptions and sessions stay
  within their limits, per session and globally.
\<close>

theorem store_accounting:
  assumes "store_reachable l st"
  shows "mPendingMessages (stTotals st) = (\<Sum>(i, p) \<leftarrow> stData st. int (length (sEntries (stStates st p))))
    \<and> mPendingBytes (stTotals st) =
        (\<Sum>(i, p) \<leftarrow> stData st. \<Sum>e \<leftarrow> pendingEntries (stStates st p). int (length (eData e)))
    \<and> mInflightMessages (stTotals st) = (\<Sum>(i, p) \<leftarrow> stData st. int (length (sInflight (stStates st p))))
    \<and> mSubscriptionCount (stTotals st) = (\<Sum>(i, p) \<leftarrow> stData st. int (length (sSubscriptions (stStates st p))))
    \<and> int (length (stData st)) \<le> MaxSessions l
    \<and> mPendingMessages (stTotals st) \<le> MaxPendingMessagesGlobal l
    \<and> mPendingBytes (stTotals st) \<le> MaxPendingBytesGlobal l
    \<and> mSubscriptionCount (stTotals st) \<le> MaxSubscriptionsGlobal l
    \<and> (\<forall>p < stNext st. int (length (sEntries (stStates st p))) \<le> MaxPendingMessagesPerSession l
        \<and> (\<Sum>e \<leftarrow> pendingEntries (stStates st p). int (length (eData e))) \<le> MaxPendingBytesPerSession l
        \<and> int (length (sInflight (stStates st p))) \<le> MaxInflightMessagesPerSession l
        \<and> int (length (sSubscriptions (stStates st p))) \<le> MaxSubscriptionsPerSession l)"
proof -
  note ok = store_reachable_ok [OF assms] and l = store_reachable_limits [OF assms]
  note D = store_okD [OF ok]
  have s: "mPendingMessages (sStats (stStates st p)) = int (length (sEntries (stStates st p)))"
    "mPendingBytes (sStats (stStates st p)) = (\<Sum>e \<leftarrow> pendingEntries (stStates st p). int (length (eData e)))"
    if "p < stNext st" for p
    using D(5) [OF that]
    by (simp_all add: state_ok_def queue_ok_def counts_ok_def pendingBytes_def pendingEntries_def entryBytes_def comp_def)
  have live: "p < stNext st" if "(i, p) \<in> set (stData st)" for i p using D(1) that by (auto simp: directory_ok_def)
  have cong: "(\<Sum>(i, p) \<leftarrow> stData st. f p) = (\<Sum>(i, p) \<leftarrow> stData st. (g p :: int))"
    if "\<And>p. p < stNext st \<Longrightarrow> f p = g p" for f g
    using that live by (intro arg_cong [of _ _ sum_list] map_cong) auto
  show ?thesis
    using D(2,3) D(5) [unfolded state_ok_def subscriptions_ok_def queue_ok_def]
      cong [of "\<lambda>p. mPendingMessages (sStats (stStates st p))"] cong [of "\<lambda>p. mPendingBytes (sStats (stStates st p))"]
    by (simp add: totals_ok_def within_limits_def total_def loadOf_def l s)
qed

definition limits_ex :: session_limits where
  "limits_ex = DefaultLimits\<lparr>MaxInflightMessagesPerSession := 1, OfflineTTL := 10\<rparr>"

definition store0_ex :: session_store where
  "store0_ex = \<lparr>stData = [], stStates = (\<lambda>_. newState 0 [] []), stNext = 0, stLimits = limits_ex, stTotals = zeroSnapshot\<rparr>"

text \<open>A session, and a pending message with topic \<^verbatim>\<open>a\<close> and one byte of payload.\<close>

definition store_ex :: session_store where
  "store_ex = snd (GetOrCreateOwned 0 ''c'' ''u'' store0_ex)"

definition data_ex :: "byte list" where
  "data_ex = [0x32, 6, 0, 1, 97, 0, 0, 7]"

definition pending_ex :: session_store where
  "pending_ex = snd (Admit 5 0 data_ex 5 store_ex)"

lemma store_ex_reachable: "store_reachable limits_ex store_ex"
proof -
  have "Store_NewWithLimits limits_ex = Inr store0_ex"
    by (simp add: Store_NewWithLimits_def Limits_Validate_def limits_ex_def DefaultLimits_def second_def store0_ex_def)
  then have "store_reachable limits_ex store0_ex" by (rule store_reachable.init)
  from store_reachable.step [OF this store_step.get_or_create] show ?thesis by (simp add: store_ex_def)
qed

lemma store_ex_simps [simp]: "stNext store_ex = 1" "stLimits store_ex = limits_ex" "stStates store_ex 0 = newState 0 ''c'' ''u''"
  "stData store_ex = [(''c'', 0)]"
  by (simp_all add: store_ex_def store0_ex_def GetOrCreateOwned_def Let_def limits_ex_def DefaultLimits_def)

lemma data_ex_valid: "\<not> invalidQueued data_ex 5"
  by (simp add: invalidQueued_def data_ex_def)

lemma pending_ex_admitted: "Admit 5 0 data_ex 5 store_ex = (Inr None, pending_ex)"
  using data_ex_valid
  by (simp add: pending_ex_def Admit_def Let_def overSessionLimit_def overGlobalLimit_def)
     (simp add: store_ex_def store0_ex_def GetOrCreateOwned_def newState_def zeroSnapshot_def limits_ex_def DefaultLimits_def
       data_ex_def Let_def)

lemma pending_ex_state: "stStates pending_ex 0 = pushEntry 5 data_ex 5 (newState 0 ''c'' ''u'')"
proof (cases rule: Admit_cases [of data_ex 5 5 0 store_ex])
  case push
  from push(5) show ?thesis unfolding pending_ex_def by simp
qed (simp_all add: pending_ex_admitted)

lemma pending_ex_reachable: "store_reachable limits_ex pending_ex"
  unfolding pending_ex_def by (rule store_reachable.step [OF store_ex_reachable store_step.admit]) simp

theorem store_accounting_witness:
  "mPendingMessages (stTotals pending_ex) = 1 \<and> mPendingMessages (stTotals pending_ex) \<le> 100000"
proof -
  have "mPendingMessages (stTotals pending_ex) \<le> MaxPendingMessagesGlobal limits_ex"
    using store_accounting [OF pending_ex_reachable] by blast
  moreover have "mPendingMessages (stTotals pending_ex) = 1"
    using data_ex_valid
    by (simp add: pending_ex_def Admit_def Let_def overSessionLimit_def overGlobalLimit_def)
       (simp add: store_ex_def store0_ex_def GetOrCreateOwned_def newState_def zeroSnapshot_def limits_ex_def DefaultLimits_def
         data_ex_def Let_def)
  ultimately show ?thesis by (simp add: limits_ex_def DefaultLimits_def)
qed

text \<open>
  C8: the delivery queue of a session is an at-least-once queue in order. On the three-part abstract
  queue, an accepted \<^verbatim>\<open>Admit\<close> appends the message, a dropped or refused one changes nothing,
  \<^verbatim>\<open>BeginDelivery\<close> schedules every message in flight for replay, \<^verbatim>\<open>Next\<close> hands out the oldest message to
  replay under its old identifier with DUP set or, when there is none, the oldest new message under an
  unused non-zero identifier with DUP clear, and \<^verbatim>\<open>Ack\<close> removes exactly the message with the
  acknowledged identifier. No operation on one session touches the queue of another.
\<close>

theorem session_queue_refines:
  assumes "store_reachable l st" and "p < stNext st"
  shows "(Admit now p d off st = (Inr None, st1) \<longrightarrow> view st1 p = aPush (d, off) (view st p))
    \<and> (Admit now p d off st = (r, st1) \<and> r \<noteq> Inr None \<longrightarrow> view st1 p = view st p)
    \<and> (sEpoch (stStates st p) + 1 \<noteq> 0 \<longrightarrow> view (snd (BeginDelivery p st)) p = aRestart (view st p))
    \<and> (Next ep p st = Some (Some dl, st2) \<longrightarrow>
        (\<exists>m dup. aNext (view st p) m (dPacketID dl) dup (view st2 p) \<and> dData dl = stamp m (dPacketID dl) dup))
    \<and> (Next ep p st = Some (None, st2) \<longrightarrow> view st2 p = view st p)
    \<and> (\<not> sDeleted (stStates st p) \<longrightarrow> view (Ack p pid st) p = aAck pid (view st p))
    \<and> (q \<noteq> p \<longrightarrow> stStates (snd (Admit now p d off st)) q = stStates st q
        \<and> stStates (snd (BeginDelivery p st)) q = stStates st q \<and> stStates (Ack p pid st) q = stStates st q
        \<and> (Next ep p st = Some (x, st3) \<longrightarrow> stStates st3 q = stStates st q))"
proof -
  let ?s = "stStates st p"
  note ok = store_reachable_ok [OF assms(1)]
  note q = state_okD [OF store_okD(5) [OF ok assms(2)]]
  have admit: "view st1 p = (if r' = Inr None then aPush (d, off) (view st p) else view st p)"
    if "Admit now p d off st = (r', st1)" for r'
    using that dq.push_abs [OF q, of "(d, off)" now]
    by (cases rule: Admit_cases [of d off now p st])
       (auto simp: view_def queueView_def inPhase_def pendingEntries_def)
  have "\<exists>m dup. aNext (view st p) m (dPacketID dl) dup (view st2 p) \<and> dData dl = stamp m (dPacketID dl) dup"
    if n: "Next ep p st = Some (Some dl, st2)"
  proof -
    obtain s' t where "nextState (window st) ?s = Some (Some dl, s')" "st2 = (setState p s' st)\<lparr>stTotals := t\<rparr>"
      using ok assms(2) n by (rule Next_SomeE)
    with dq.next_some [OF q this(1)] show ?thesis by (simp add: view_def)
  qed
  moreover have "view st2 p = view st p" if "Next ep p st = Some (None, st2)"
    using that nextDelivery_total [OF q, of ep] by (auto simp: Next_def view_def Let_def split: option.splits prod.splits)
  moreover have "view (snd (BeginDelivery p st)) p = aRestart (view st p)" if "sEpoch ?s + 1 \<noteq> 0"
    using dq.restart_abs [OF q that] by (simp add: view_def BeginDelivery_def)
  moreover have "view (Ack p pid st) p = aAck pid (view st p)" if "\<not> sDeleted ?s"
    using ackState_view [OF q that, of pid] by (simp add: view_def Ack_state)
  moreover have "stStates (snd (Admit now p d off st)) q = stStates st q
        \<and> stStates (snd (BeginDelivery p st)) q = stStates st q \<and> stStates (Ack p pid st) q = stStates st q
        \<and> (Next ep p st = Some (x, st3) \<longrightarrow> stStates st3 q = stStates st q)" if "q \<noteq> p"
    using that by (auto simp: Admit_def BeginDelivery_def Ack_state Next_def Let_def split: option.splits prod.splits)
  ultimately show ?thesis using admit by auto
qed

theorem session_queue_refines_witness:
  "view pending_ex 0 = aPush (data_ex, 5) (view store_ex 0) \<and> messages (view pending_ex 0) = [(data_ex, 5)]"
proof -
  have "view pending_ex 0 = aPush (data_ex, 5) (view store_ex 0)"
    using session_queue_refines [OF store_ex_reachable, of 0 5 data_ex 5 pending_ex] pending_ex_admitted by simp
  then show ?thesis
    by (simp add: view_def messages_def aPush_def queueView_def inPhase_def pendingEntries_def newState_def)
qed

text \<open>
  C25: \<^verbatim>\<open>Next\<close> always returns: the search for a free packet identifier ends and no index is out of
  range. It returns nothing exactly when the session is deleted or paused, the epoch is not the current
  one, the in-flight window is full, or every pending message was already sent in this epoch; then the
  store is unchanged.
\<close>

theorem Next_returns:
  assumes "store_reachable l st" and "p < stNext st"
  shows "\<exists>r st'. Next ep p st = Some (r, st')
    \<and> (r = None \<longleftrightarrow> sDeleted (stStates st p) \<or> sPaused (stStates st p) \<or> ep \<noteq> sEpoch (stStates st p)
        \<or> sActiveInflight (stStates st p) \<ge> MaxInflightMessagesPerSession l
        \<or> (\<forall>e \<in> set (pendingEntries (stStates st p)). eLastEpoch e = ep))
    \<and> (r = None \<longrightarrow> st' = st)"
proof -
  let ?s = "stStates st p"
  note q = state_okD [OF store_okD(5) [OF store_reachable_ok [OF assms(1)] assms(2)]]
  have l: "l = stLimits st" using store_reachable_limits [OF assms(1)] by simp
  have same: "setState p ?s st = st" by (simp add: setState_def)
  from nextDelivery_total [OF q, of ep] show ?thesis
  proof (elim disjE exE conjE)
    fix x d fresh s'
    assume n: "nextDelivery (window st) ep ?s = Some (Some (d, fresh), s')" and "delivers (window st) ?s x d fresh s'"
    then have "ep = sEpoch ?s" "\<not> blocked (window st) ep ?s" "x \<in> set (sEntries ?s)" "eLastEpoch (sHeap ?s x) \<noteq> sEpoch ?s"
      by (auto simp: delivers_def nextDelivery_def blocked_def split: if_splits)
    with n show ?thesis by (auto simp: Next_def Let_def l blocked_def pendingEntries_def)
  qed (auto simp: Next_def l same blocked_def pendingEntries_def)
qed

theorem Next_returns_witness:
  "\<exists>st'. Next 0 0 pending_ex = Some (None, st') \<and> st' = pending_ex"
proof -
  have p: "0 < stNext pending_ex" by (simp add: pending_ex_def Admit_def Let_def)
  have "\<forall>e \<in> set (pendingEntries (stStates pending_ex 0)). eLastEpoch e = 0"
    by (simp add: pending_ex_state pendingEntries_def pushEntry_def newState_def notifyLocked_def Let_def)
  with Next_returns [OF pending_ex_reachable p, of 0] show ?thesis by blast
qed

text \<open>A connection that acknowledges each delivery before it asks for the next one.\<close>

fun drain :: "nat \<Rightarrow> u64 \<Rightarrow> nat \<Rightarrow> session_store \<Rightarrow> (delivery list \<times> session_store) option" where
  "drain 0 ep p st = Some ([], st)"
| "drain (Suc n) ep p st =
     (case Next ep p st of
        None \<Rightarrow> None
      | Some (None, st) \<Rightarrow> Some ([], st)
      | Some (Some d, st) \<Rightarrow>
          map_option (\<lambda>(ds, st). (d # ds, st)) (drain n ep p (Ack p (dPacketID d) st)))"

lemma nextState_epoch:
  assumes "queue_ok l s" "nextState l s = Some (r, s')"
  shows "sEpoch s' = sEpoch s"
  using nextDelivery_total [OF assms(1), of "sEpoch s"] assms(2)
  by (auto simp: nextState_def delivers_def sendEntry_def)

lemma drain_run:
  assumes "store_ok st" and "p < stNext st" and "running (stStates st p)" and "aSent (view st p) = []"
    and "messages (view st p) = ms"
  shows "\<exists>ds st'. drain (length ms) (sEpoch (stStates st p)) p st = Some (ds, st') \<and> length ds = length ms
    \<and> (\<forall>k < length ms. dPacketID (ds ! k) \<noteq> 0
         \<and> dData (ds ! k) = stamp (ms ! k) (dPacketID (ds ! k)) (k < length (aReplay (view st p))))
    \<and> messages (view st' p) = []"
  using assms
proof (induction ms arbitrary: st)
  case (Cons m ms)
  let ?s = "stStates st p" and ?ep = "sEpoch (stStates st p)"
  note q = state_okD [OF store_okD(5) [OF Cons.prems(1,2)]]
  have w: "0 < window st" using store_okD(4) [OF Cons.prems(1)] by (auto simp: Limits_Validate_def split: if_splits)
  from dq.exchange [OF q Cons.prems(3) w Cons.prems(4,5) [unfolded view_def]] obtain d s' where
    n: "nextState (window st) ?s = Some (Some d, s')" and i: "dPacketID d \<noteq> 0"
    and b: "dData d = stamp m (dPacketID d) (aReplay (view st p) \<noteq> [])"
    and s2: "running (ackState (dPacketID d) s')" "aSent (queueView (ackState (dPacketID d) s')) = []"
      "messages (queueView (ackState (dPacketID d) s')) = ms"
      "length (aReplay (queueView (ackState (dPacketID d) s'))) = length (aReplay (view st p)) - 1"
    unfolding view_def by blast
  from Next_nextState [OF n] obtain t where N: "Next ?ep p st = Some (Some d, (setState p s' st)\<lparr>stTotals := t\<rparr>)" ..
  let ?st1 = "(setState p s' st)\<lparr>stTotals := t\<rparr>"
  let ?st2 = "Ack p (dPacketID d) ?st1"
  have st2: "stStates ?st2 p = ackState (dPacketID d) s'" by (simp add: Ack_state)
  have "queue_ok (window st) s'" using dq.next_some [OF q n] by blast
  then have ep: "sEpoch (stStates ?st2 p) = ?ep"
    using ackState_ok(4) nextState_epoch [OF q n] by (simp add: st2)
  have ok1: "store_ok ?st1" using Next_ok [OF Cons.prems(1,2) N] .
  then have "store_ok ?st2" by (rule Ack_ok) (simp add: Cons.prems(2))
  moreover have "p < stNext ?st2" using Cons.prems(2) by simp
  ultimately obtain ds st' where ds: "drain (length ms) ?ep p ?st2 = Some (ds, st')" "length ds = length ms"
    "messages (view st' p) = []" "\<forall>k < length ms. dPacketID (ds ! k) \<noteq> 0
      \<and> dData (ds ! k) = stamp (ms ! k) (dPacketID (ds ! k)) (k < length (aReplay (view st p)) - 1)"
    using Cons.IH [of ?st2] s2 ep by (auto simp: view_def st2)
  have "dPacketID ((d # ds) ! k) \<noteq> 0 \<and> dData ((d # ds) ! k) =
      stamp ((m # ms) ! k) (dPacketID ((d # ds) ! k)) (k < length (aReplay (view st p)))" if "k < length (m # ms)" for k
    using ds(4) b i that by (cases k) (auto simp: less_diff_conv)
  moreover have "drain (length (m # ms)) ?ep p st = Some (d # ds, st')" using N ds(1) by simp
  ultimately show ?case using ds(2,3) by (metis length_Cons)
qed simp

text \<open>
  C7: nothing admitted is lost. When a live session reconnects, a client that acknowledges what it
  receives gets every pending message exactly once in admission order: first those that were in flight,
  with DUP set, then the new ones with DUP clear. Afterwards the queue is empty.
\<close>

theorem reconnect_delivers_everything:
  assumes "store_reachable l st" and "p < stNext st" and "\<not> sDeleted (stStates st p)" and "\<not> sPaused (stStates st p)"
    and "sEpoch (stStates st p) + 1 \<noteq> 0" and "BeginDelivery p st = (ep, st0)"
  shows "\<exists>ds st'. drain (length (messages (view st p))) ep p st0 = Some (ds, st')
    \<and> length ds = length (messages (view st p))
    \<and> (\<forall>k < length (messages (view st p)). dPacketID (ds ! k) \<noteq> 0 \<and> dData (ds ! k) =
         stamp (messages (view st p) ! k) (dPacketID (ds ! k)) (k < length (aSent (view st p)) + length (aReplay (view st p))))
    \<and> messages (view st' p) = []"
proof -
  note ok = store_reachable_ok [OF assms(1)]
  note q = state_okD [OF store_okD(5) [OF ok assms(2)]]
  have st0: "st0 = snd (BeginDelivery p st)" "ep = sEpoch (stStates st p) + 1" "stStates st0 p = beginDelivery (stStates st p)"
    using assms(6) by (auto simp: BeginDelivery_def)
  have v: "view st0 p = aRestart (view st p)" using dq.restart_abs [OF q assms(5)] by (simp add: view_def st0(3))
  have "store_ok st0" using BeginDelivery_ok [OF ok assms(2,5)] by (simp add: st0)
  moreover have "p < stNext st0" using assms(2) by (simp add: st0 BeginDelivery_def)
  moreover have "running (stStates st0 p)" "sEpoch (stStates st0 p) = ep"
    using assms(3-5) by (simp_all add: st0(2,3) running_def beginDelivery_def notifyLocked_def)
  moreover have "aSent (view st0 p) = []" "length (aReplay (view st0 p)) = length (aSent (view st p)) + length (aReplay (view st p))"
    by (simp_all add: v aRestart_def)
  ultimately show ?thesis using drain_run [of st0 p "messages (view st p)"] by (simp add: v)
qed

theorem reconnect_delivers_everything_witness:
  "\<exists>d st'. drain 1 1 0 (snd (BeginDelivery 0 pending_ex)) = Some ([d], st')
     \<and> dData d = stamp (data_ex, 5) (dPacketID d) False \<and> messages (view st' 0) = []"
proof -
  let ?s = "pushEntry 5 data_ex 5 (newState 0 ''c'' ''u'')"
  have p: "0 < stNext pending_ex" by (simp add: pending_ex_def Admit_def Let_def)
  have s: "\<not> sDeleted (stStates pending_ex 0)" "\<not> sPaused (stStates pending_ex 0)" "sEpoch (stStates pending_ex 0) + 1 \<noteq> 0"
    "BeginDelivery 0 pending_ex = (1, snd (BeginDelivery 0 pending_ex))"
    by (simp_all add: pending_ex_state BeginDelivery_def pushEntry_def newState_def notifyLocked_def Let_def)
  have v: "messages (view pending_ex 0) = [(data_ex, 5)]" "aSent (view pending_ex 0) = []" "aReplay (view pending_ex 0) = []"
    by (simp_all add: view_def messages_def queueView_def inPhase_def pendingEntries_def pending_ex_state pushEntry_def
        newState_def notifyLocked_def Let_def tmpl_def phase_def)
  from reconnect_delivers_everything [OF pending_ex_reachable p s] show ?thesis
    by (auto simp: v length_Suc_conv)
qed

text \<open>
  C28: \<^verbatim>\<open>Admit\<close> decides by what is really queued. A malformed publication and a deleted session are
  errors; otherwise the message is dropped for the session's limit, or else for the global limit,
  exactly when queueing it would exceed a limit on the number or the total size of pending messages.
\<close>

theorem Admit_exact:
  assumes "store_reachable l st" and "p < stNext st"
  shows "fst (Admit now p d off st) =
    (if invalidQueued d off then Inl (New ''invalid queued publish'')
     else if sDeleted (stStates st p) then Inl (New ''session removed'')
     else if int (length (sEntries (stStates st p))) + 1 > MaxPendingMessagesPerSession l
       \<or> (\<Sum>e \<leftarrow> pendingEntries (stStates st p). int (length (eData e))) + int (length d) > MaxPendingBytesPerSession l
     then Inr (Some SessionLimit)
     else if (\<Sum>(i, q) \<leftarrow> stData st. int (length (sEntries (stStates st q)))) + 1 > MaxPendingMessagesGlobal l
       \<or> (\<Sum>(i, q) \<leftarrow> stData st. \<Sum>e \<leftarrow> pendingEntries (stStates st q). int (length (eData e))) + int (length d)
          > MaxPendingBytesGlobal l
     then Inr (Some GlobalLimit)
     else Inr None)"
proof -
  note ok = store_reachable_ok [OF assms(1)] and l = store_reachable_limits [OF assms(1)]
  have s: "mPendingMessages (sStats (stStates st q)) = int (length (sEntries (stStates st q)))"
    "mPendingBytes (sStats (stStates st q)) = (\<Sum>e \<leftarrow> pendingEntries (stStates st q). int (length (eData e)))"
    if "q < stNext st" for q
    using store_okD(5) [OF ok that]
    by (simp_all add: state_ok_def queue_ok_def counts_ok_def pendingBytes_def pendingEntries_def entryBytes_def comp_def)
  have live: "q < stNext st" if "(i, q) \<in> set (stData st)" for i q
    using store_okD(1) [OF ok] that by (auto simp: directory_ok_def)
  have "mPendingMessages (stTotals st) = (\<Sum>(i, q) \<leftarrow> stData st. int (length (sEntries (stStates st q))))"
    "mPendingBytes (stTotals st) = (\<Sum>(i, q) \<leftarrow> stData st. \<Sum>e \<leftarrow> pendingEntries (stStates st q). int (length (eData e)))"
    using store_okD(2) [OF ok] live s
    by (auto simp: totals_ok_def total_def loadOf_def intro!: arg_cong [of _ _ sum_list])
  then show ?thesis
    using s [OF assms(2)] by (auto simp: Admit_def Let_def overSessionLimit_def overGlobalLimit_def l)
qed

theorem Admit_exact_witness:
  "fst (Admit 5 0 data_ex 5 store_ex) = Inr None \<and> fst (Admit 5 0 [0x30, 0] 5 store_ex) = Inl (New ''invalid queued publish'')"
  using Admit_exact [OF store_ex_reachable, of 0 5 data_ex 5] Admit_exact [OF store_ex_reachable, of 0 5 "[0x30, 0]" 5]
  by (simp add: pending_ex_admitted) (simp add: invalidQueued_def)

text \<open>
  C27: the periodic sweep deletes exactly the sessions that have been offline for at least the
  configured time. A connected session never expires, the reported identifiers are those no longer in
  the store, and every other session is untouched.
\<close>

theorem Expire_exact:
  assumes "store_reachable l st" and "0 < OfflineTTL l" and "OfflineTTL l < 2 ^ 63" and "Expire now st = (ids, st')"
  shows "set ids = {i. \<exists>p since. Store_Get i st = Some p \<and> \<not> sConnected (stStates st p)
      \<and> sOfflineSince (stStates st p) = Some since \<and> now - since \<ge> OfflineTTL l}
    \<and> distinct ids
    \<and> (\<forall>i. Store_Get i st' = (if i \<in> set ids then None else Store_Get i st))
    \<and> (\<forall>i p. Store_Get i st' = Some p \<longrightarrow> stStates st' p = stStates st p)"
proof -
  note ok = store_reachable_ok [OF assms(1)] and l = store_reachable_limits [OF assms(1)]
  have wf: "wf_map (stData st)" and dir: "directory_ok st" using store_okD(1) [OF ok] by (auto simp: directory_ok_def)
  have "expireLoop now (stData st) st = (ids, st')" using assms(2,4) by (simp add: Expire_def l)
  note E = expireLoop_spec [OF ok wf subset_refl this, unfolded l]
  have ids: "ids = map fst (filter (\<lambda>(i, p). expired l now (stStates st p)) (stData st))" using E by blast
  have wf': "wf_map (stData st')" using store_okD(1) [of st'] E by (simp add: directory_ok_def)
  have get: "Store_Get i st = Some p \<longleftrightarrow> (i, p) \<in> set (stData st)" for i p by (simp add: Store_Get_def wf)
  have get': "Store_Get i st' = Some p \<longleftrightarrow> (i, p) \<in> set (stData st) \<and> \<not> expired l now (stStates st p)" for i p
    using E by (auto simp: Store_Get_def wf')
  have mem: "i \<in> set ids \<longleftrightarrow> (\<exists>p. Store_Get i st = Some p \<and> expired l now (stStates st p))" for i
    by (force simp: ids get image_iff)
  have "Store_Get i st' = (if i \<in> set ids then None else Store_Get i st)" for i
  proof (cases "Store_Get i st'")
    case None
    then show ?thesis using get [of i] get' [of i] mem [of i] by (cases "Store_Get i st") auto
  next
    case (Some p)
    then have "Store_Get i st = Some p" "\<not> expired l now (stStates st p)" using get get' by auto
    with Some show ?thesis using mem by auto
  qed
  moreover have "distinct ids" unfolding ids by (rule distinct_map_filter [OF wf])
  moreover have "stStates st' p = stStates st p" if "Store_Get i st' = Some p" for i p
    using that E get' dir by (auto simp: directory_ok_def)
  ultimately show ?thesis
    using mem expired_iff [of l] assms(2,3) by auto
qed

theorem Expire_exact_witness:
  "fst (Expire 9 store_ex) = [] \<and> fst (Expire 10 store_ex) = [''c''] \<and> Store_Get ''c'' (snd (Expire 10 store_ex)) = None"
proof -
  have l: "0 < OfflineTTL limits_ex" "OfflineTTL limits_ex < 2 ^ 63" by (simp_all add: limits_ex_def)
  note X9 = Expire_exact [OF store_ex_reachable l surjective_pairing [of "Expire 9 store_ex"]]
  note X10 = Expire_exact [OF store_ex_reachable l surjective_pairing [of "Expire 10 store_ex"]]
  have g: "Store_Get i store_ex = (if i = ''c'' then Some 0 else None)" for i by (simp add: Store_Get_def)
  have c: "sOfflineSince (newState 0 ''c'' ''u'') = Some 0" "\<not> sConnected (newState 0 ''c'' ''u'')" "OfflineTTL limits_ex = 10"
    by (simp_all add: newState_def limits_ex_def)
  have nine: "set (fst (Expire 9 store_ex)) = {}" using X9 by (auto simp: g c split: if_splits)
  have "set (fst (Expire 10 store_ex)) = {''c''}" "distinct (fst (Expire 10 store_ex))"
    using X10 by (auto simp: g c split: if_splits)
  then have ten: "fst (Expire 10 store_ex) = [''c'']" by (cases "fst (Expire 10 store_ex)") (auto simp: subset_singleton_iff)
  with nine X10 show ?thesis by simp
qed

text \<open>The identity of a state never changes.\<close>

definition identity :: "session_state \<Rightarrow> string \<times> string" where
  "identity s = (sID s, sOwner s)"

lemma identity_ops [simp]:
  "identity (notifyLocked s) = identity s" "identity (pushEntry now d off s) = identity s"
  "identity (beginDelivery s) = identity s" "identity (deletedState s) = identity s"
  "identity (s\<lparr>sPaused := b\<rparr>) = identity s" "identity (s\<lparr>sConnected := b, sOfflineSince := c\<rparr>) = identity s"
  "identity (s\<lparr>sSubscriptions := m\<rparr>) = identity s" "identity (s\<lparr>sStats := t\<rparr>) = identity s"
  by (simp_all add: identity_def notifyLocked_def pushEntry_def beginDelivery_def deletedState_def Let_def)

lemma identity_next:
  assumes "queue_ok l s" "nextDelivery l ep s = Some (r, s')"
  shows "identity s' = identity s"
  using nextDelivery_total [OF assms(1), of ep] assms(2)
  by (auto simp: delivers_def sendEntry_def identity_def)

lemma identity_ack: "identity (ackState i s) = identity s"
  by (auto simp: ackState_def ackEntry_def identity_def notifyLocked_def Let_def split: option.splits)

lemma identity_const:
  assumes step: "store_step st st'" and ok: "store_ok st" and p: "p < stNext st"
  shows "identity (stStates st' p) = identity (stStates st p)"
  using step
proof cases
  case (admit q now d off)
  then show ?thesis by (cases rule: Admit_cases [of d off now q st]) auto
next
  case (next_delivery q ep r)
  with identity_next [OF state_okD [OF store_okD(5) [OF ok next_delivery(1)]], of ep] show ?thesis
    by (auto simp: Next_def Let_def split: option.splits prod.splits)
next
  case (expire now)
  have wf: "wf_map (stData st)" using store_okD(1) [OF ok] by (simp add: directory_ok_def)
  obtain ids st2 where e: "expireLoop now (stData st) st = (ids, st2)" by (cases "expireLoop now (stData st) st")
  with expireLoop_spec [OF ok wf subset_refl e] show ?thesis by (auto simp: expire Expire_def)
next
  case (expire_session i now)
  show ?thesis
  proof (cases "map_of (stData st) i")
    case (Some x)
    obtain b st2 where e: "expireLocked (Some x) now st = (b, st2)" by (cases "expireLocked (Some x) now st")
    from expireLocked_step(6) [OF ok map_of_SomeD [OF Some] e] show ?thesis
      using e by (auto simp: expire_session ExpireSession_def Some)
  qed (simp add: expire_session ExpireSession_def expireLocked_def)
qed (use p in \<open>auto simp: BeginDelivery_def PauseDelivery_def ResumeDelivery_def Ack_state identity_ack GetOrCreateOwned_def
     Store_Delete_def deleteLocked_def SetSubscription_def DeleteSubscription_def MarkConnected_def MarkDisconnectedAt_def
     Let_def split: option.splits\<close>)

text \<open>
  C26: a session belongs to one identity for ever. \<^verbatim>\<open>GetOrCreateOwned\<close> hands out a session only to its
  owner, a new session is empty, a claim by somebody else is an error that changes nothing, and no
  operation of the store changes the identifier or the owner of a session.
\<close>

theorem session_ownership:
  assumes "store_reachable l st"
  shows "(GetOrCreateOwned now i own st = (Inr (p, present), st1) \<longrightarrow>
       Store_Get i st1 = Some p \<and> sOwner (stStates st1 p) = own \<and> sID (stStates st1 p) = i
       \<and> (if present then st1 = st
          else Store_Get i st = None \<and> messages (view st1 p) = [] \<and> sSubscriptions (stStates st1 p) = []))
    \<and> (Store_Get i st = Some q \<and> sOwner (stStates st q) \<noteq> own \<longrightarrow>
       GetOrCreateOwned now i own st = (Inl ErrSessionOwner, st))
    \<and> (store_step st st2 \<and> q < stNext st \<longrightarrow>
       sOwner (stStates st2 q) = sOwner (stStates st q) \<and> sID (stStates st2 q) = sID (stStates st q))"
proof -
  note ok = store_reachable_ok [OF assms]
  have dir: "sID (stStates st x) = i" if "map_of (stData st) i = Some x" for x
    using store_okD(1) [OF ok] map_of_SomeD [OF that] by (auto simp: directory_ok_def)
  have "Store_Get i st1 = Some p \<and> sOwner (stStates st1 p) = own \<and> sID (stStates st1 p) = i
       \<and> (if present then st1 = st
          else Store_Get i st = None \<and> messages (view st1 p) = [] \<and> sSubscriptions (stStates st1 p) = [])"
    if "GetOrCreateOwned now i own st = (Inr (p, present), st1)"
    using that dir
    by (auto simp: GetOrCreateOwned_def Store_Get_def Let_def newState_def view_def messages_def queueView_def inPhase_def
        pendingEntries_def map_of_update_iff split: option.splits if_splits)
  then show ?thesis
    using identity_const [OF _ ok, of st2 q] by (auto simp: GetOrCreateOwned_def Store_Get_def identity_def)
qed

theorem session_ownership_witness:
  "GetOrCreateOwned 3 ''c'' ''v'' store_ex = (Inl ErrSessionOwner, store_ex)"
proof -
  have "Store_Get ''c'' store_ex = Some 0" "sOwner (stStates store_ex 0) \<noteq> ''v''"
    by (simp_all add: Store_Get_def newState_def)
  with session_ownership [OF store_ex_reachable, of 3 "''c''" "''v''"] show ?thesis by blast
qed

lemma SnapshotSubscriptions_spec:
  assumes "wf_map (sSubscriptions (stStates st p))"
  shows "map_of (SnapshotSubscriptions p st) = map_of (sSubscriptions (stStates st p))"
    and "wf_map (SnapshotSubscriptions p st)" and "sorted (map fst (SnapshotSubscriptions p st))"
proof -
  let ?m = "sSubscriptions (stStates st p)"
  have wf: "wf_map (sort_key fst ?m)" using assms by (simp add: distinct_map)
  then show "wf_map (SnapshotSubscriptions p st)" by (simp add: SnapshotSubscriptions_def)
  show "sorted (map fst (SnapshotSubscriptions p st))" by (simp add: SnapshotSubscriptions_def)
  show "map_of (SnapshotSubscriptions p st) = map_of ?m"
    unfolding SnapshotSubscriptions_def using map_of_inject_set [OF wf assms] by simp
qed

lemma wf_subscriptions: "store_ok st \<Longrightarrow> p < stNext st \<Longrightarrow> wf_map (sSubscriptions (stStates st p))"
  using store_okD(5) [of st p] by (simp add: state_ok_def subscriptions_ok_def)

lemma stNext_subscriptions:
  "stNext (snd (SetSubscription p f q st)) = stNext st" "stNext (DeleteSubscription p f st) = stNext st"
  by (simp_all add: SetSubscription_def DeleteSubscription_def Let_def)

text \<open>
  C29: the subscriptions of a session are a bounded map. Storing one fails exactly when the filter is
  too long or too deep, or when it is new and the session or the broker is at its limit; on success the
  sorted snapshot shows it with its QoS and all others unchanged, on failure nothing changes. Removing
  one removes exactly it.
\<close>

theorem subscription_map:
  assumes "store_reachable l st" and "p < stNext st" and "\<not> sDeleted (stStates st p)"
    and "SetSubscription p f q st = (e, st1)"
  shows "e = (if int (length f) > MaxFilterBytes l \<or> int (length (levels f)) > MaxFilterLevels l then Some ErrFilterLimit
       else if map_of (SnapshotSubscriptions p st) f = None
         \<and> (int (length (SnapshotSubscriptions p st)) \<ge> MaxSubscriptionsPerSession l
            \<or> (\<Sum>(i, q) \<leftarrow> stData st. int (length (sSubscriptions (stStates st q)))) \<ge> MaxSubscriptionsGlobal l)
       then Some ErrSubscriptionLimit else None)
    \<and> map_of (SnapshotSubscriptions p st1) =
        (if e = None then (map_of (SnapshotSubscriptions p st))(f \<mapsto> q) else map_of (SnapshotSubscriptions p st))
    \<and> map_of (SnapshotSubscriptions p (DeleteSubscription p f st)) = (map_of (SnapshotSubscriptions p st))(f := None)
    \<and> sorted (map fst (SnapshotSubscriptions p st)) \<and> distinct (map fst (SnapshotSubscriptions p st))"
proof -
  let ?m = "sSubscriptions (stStates st p)"
  note ok = store_reachable_ok [OF assms(1)] and l = store_reachable_limits [OF assms(1)]
  note wf = wf_subscriptions [OF ok assms(2)]
  note snap = SnapshotSubscriptions_spec [OF wf]
  have len: "length (SnapshotSubscriptions p st) = length ?m" by (simp add: SnapshotSubscriptions_def)
  have tot: "mSubscriptionCount (stTotals st) = (\<Sum>(i, q) \<leftarrow> stData st. int (length (sSubscriptions (stStates st q))))"
    using store_okD(2) [OF ok] by (simp add: totals_ok_def total_def loadOf_def)
  have "store_ok st1" "p < stNext st1"
    using SetSubscription_ok [OF ok assms(2), of f q] stNext_subscriptions(1) [of p f q st] assms(2,4) by simp_all
  note st1 = wf_subscriptions [OF this]
    wf_subscriptions [OF DeleteSubscription_ok [OF ok assms(2), of f] assms(2) [folded stNext_subscriptions(2) [of p f st]]]
  have "map_of (sSubscriptions (stStates (DeleteSubscription p f st) p)) = (map_of ?m)(f := None)"
    by (auto simp: DeleteSubscription_def Let_def map_of_delete_iff)
  moreover have "e = (if int (length f) > MaxFilterBytes l \<or> int (length (levels f)) > MaxFilterLevels l then Some ErrFilterLimit
       else if map_of ?m f = None
         \<and> (int (length ?m) \<ge> MaxSubscriptionsPerSession l \<or> mSubscriptionCount (stTotals st) \<ge> MaxSubscriptionsGlobal l)
       then Some ErrSubscriptionLimit else None)
    \<and> map_of (sSubscriptions (stStates st1 p)) = (if e = None then (map_of ?m)(f \<mapsto> q) else map_of ?m)"
    using assms(3,4)
    by (cases rule: SetSubscription_cases [of st p f q])
       (auto simp: overFilterLimit_def length_levels l map_of_update_iff)
  ultimately show ?thesis
    unfolding SnapshotSubscriptions_spec(1) [OF st1(1)] SnapshotSubscriptions_spec(1) [OF st1(2)] snap(1) len tot [symmetric]
    using snap(2,3) by blast
qed

theorem subscription_map_witness:
  "SetSubscription 0 ''a/b'' 1 store_ex = (None, snd (SetSubscription 0 ''a/b'' 1 store_ex))
   \<and> map_of (SnapshotSubscriptions 0 (snd (SetSubscription 0 ''a/b'' 1 store_ex))) ''a/b'' = Some 1"
proof -
  have p: "0 < stNext store_ex" "\<not> sDeleted (stStates store_ex 0)" by (simp_all add: newState_def)
  note X = subscription_map [OF store_ex_reachable p surjective_pairing [of "SetSubscription 0 ''a/b'' 1 store_ex"]]
  have s: "SnapshotSubscriptions 0 store_ex = []" by (simp add: SnapshotSubscriptions_def newState_def)
  have "fst (SetSubscription 0 ''a/b'' 1 store_ex) = None"
    using X by (simp add: s limits_ex_def DefaultLimits_def newState_def)
  with X show ?thesis by (simp add: prod_eq_iff)
qed

end
