(* ===== verification/Outbound.thy ===== *)
theory Outbound
  imports SessionDelivery
begin

text \<open>
  Outbound publications (\<^verbatim>\<open>internal/server/server.go\<close>, from \<^verbatim>\<open>deliveryQoS\<close> to the end of the file): the
  QoS of a delivery, the packet sent to a subscriber, the QoS 1 template whose packet identifier the
  session queue fills in, and the cache that encodes a publication at most once per QoS.  The encoder
  \<^verbatim>\<open>encodePublishFn\<close> of the server is a parameter; by default it is \<^verbatim>\<open>encodePublishPacket\<close>, that is
  \<^verbatim>\<open>EncodePublish\<close> into a pooled buffer.
\<close>

section \<open>Definitions\<close>

definition deliveryQoS :: "byte \<Rightarrow> byte \<Rightarrow> byte" where
  "deliveryQoS publishQoS subscriptionQoS =
     (if subscriptionQoS < publishQoS then subscriptionQoS else publishQoS)"

definition newOutboundPublish :: "publish_packet \<Rightarrow> byte \<Rightarrow> publish_packet" where
  "newOutboundPublish pub qos = \<lparr>pTopic = pTopic pub, pPayload = pPayload pub, pRetain = pRetain pub,
     pDUP = False, pQoS = qos, pPacketID = 0\<rparr>"

type_synonym publish_encoder = "publish_packet \<Rightarrow> byte list result"

definition encodePublishPacket :: publish_encoder where
  "encodePublishPacket pub = EncodePublish pub"

function encodedLengthLoop :: "nat \<Rightarrow> nat \<Rightarrow> nat" where
  "encodedLengthLoop sz n =
     (let sz = sz + 1; n = n div 128 in if n = 0 then sz else encodedLengthLoop sz n)"
  by pat_completeness auto
termination
  by (relation "measure snd") auto

declare encodedLengthLoop.simps [simp del]

definition encodedLengthSize :: "nat \<Rightarrow> nat" where
  "encodedLengthSize n = encodedLengthLoop 0 n"

definition publishPacketIDOffset :: "string \<Rightarrow> nat \<Rightarrow> nat" where
  "publishPacketIDOffset topic payloadLen =
     (let remainingLength = 2 + length topic + 2 + payloadLen
      in 1 + encodedLengthSize remainingLength + 2 + length topic)"

record publish_template =
  tRaw :: "byte list"
  tPacketIDOffset :: nat

definition newPublishTemplate :: "publish_encoder \<Rightarrow> publish_packet \<Rightarrow> publish_template result" where
  "newPublishTemplate encodeFn pub =
     (if pQoS pub \<noteq> 1 then Inl (New ''publish template requires QoS 1'')
      else
        case encodeFn \<lparr>pTopic = pTopic pub, pPayload = pPayload pub, pRetain = pRetain pub, pDUP = False,
                       pQoS = pQoS pub, pPacketID = 1\<rparr> of
          Inl e \<Rightarrow> Inl e
        | Inr raw \<Rightarrow> Inr \<lparr>tRaw = raw, tPacketIDOffset = publishPacketIDOffset (pTopic pub) (length (pPayload pub))\<rparr>)"

record delivery_cache =
  cQos0 :: "byte list option"
  cQos1 :: "publish_template option"

definition emptyCache :: delivery_cache where
  "emptyCache = \<lparr>cQos0 = None, cQos1 = None\<rparr>"

definition qos0Payload :: "publish_encoder \<Rightarrow> publish_packet \<Rightarrow> delivery_cache \<Rightarrow> byte list result \<times> delivery_cache" where
  "qos0Payload encodeFn pub c =
     (case cQos0 c of
        Some raw \<Rightarrow> (Inr raw, c)
      | None \<Rightarrow> (case encodeFn pub of Inl e \<Rightarrow> (Inl e, c) | Inr raw \<Rightarrow> (Inr raw, c\<lparr>cQos0 := Some raw\<rparr>)))"

definition qos1Template :: "publish_encoder \<Rightarrow> publish_packet \<Rightarrow> delivery_cache \<Rightarrow> publish_template result \<times> delivery_cache" where
  "qos1Template encodeFn pub c =
     (case cQos1 c of
        Some t \<Rightarrow> (Inr t, c)
      | None \<Rightarrow> (case newPublishTemplate encodeFn pub of Inl e \<Rightarrow> (Inl e, c) | Inr t \<Rightarrow> (Inr t, c\<lparr>cQos1 := Some t\<rparr>)))"

section \<open>Sizes\<close>

lemma encodedLengthLoop_size: "encodedLengthLoop k n = k + length (encodeRemainingBytes n)"
proof (induction k n rule: encodedLengthLoop.induct)
  case (1 k n)
  show ?case
    by (subst encodedLengthLoop.simps, subst encodeRemainingBytes.simps)
       (use "1.IH" in \<open>auto simp: Let_def\<close>)
qed

text \<open>The size computed without encoding is the size of the encoded length.\<close>

lemma encodedLengthSize_eq: "encodedLengthSize n = length (encodeRemainingBytes n)"
  by (simp add: encodedLengthSize_def encodedLengthLoop_size)

lemma publishPacketIDOffset_eq:
  "publishPacketIDOffset t k = 1 + length (encodeRemainingBytes (2 + length t + 2 + k)) + 2 + length t"
  by (simp add: publishPacketIDOffset_def Let_def encodedLengthSize_eq)

section \<open>Templates\<close>

definition qos1Packet :: "publish_packet \<Rightarrow> u16 \<Rightarrow> bool \<Rightarrow> publish_packet" where
  "qos1Packet pub i dup = \<lparr>pTopic = pTopic pub, pPayload = pPayload pub, pRetain = pRetain pub, pDUP = dup,
     pQoS = 1, pPacketID = i\<rparr>"

lemma publishFlags_dup:
  "publishFlags (qos1Packet p i dup) = (if dup then publishFlags (qos1Packet p j False) OR 8
     else publishFlags (qos1Packet p j False) AND NOT 8)"
  by (simp add: publishFlags_def qos1Packet_def)

lemma EncodePublish_qos1:
  "i \<noteq> 0 \<Longrightarrow> EncodePublish (qos1Packet p i dup) = Inr bs \<longleftrightarrow>
     validateTopicName (pTopic p) = None \<and> publishBodyLength (qos1Packet p 1 False) \<le> MaxRemainingLength
     \<and> bs = [publishFlags (qos1Packet p i dup)] @ encodeRemainingBytes (publishBodyLength (qos1Packet p 1 False))
         @ put16 (of_nat (length (pTopic p))) @ bytes_of_string (pTopic p) @ put16 i @ pPayload p"
  by (auto simp: EncodePublish_Inr_iff qos1Packet_def publishBodyLength_def)

lemma list_update_after: "length xs = k \<Longrightarrow> (xs @ y # ys)[k := z] = xs @ z # ys"
  by auto

text \<open>Filling in an identifier and the DUP bit gives the bytes the encoder writes for that packet.\<close>

lemma stamp_encode:
  assumes e: "EncodePublish (qos1Packet p 1 False) = Inr raw" and i: "i \<noteq> 0"
  shows "EncodePublish (qos1Packet p i dup) =
    Inr (stamp (raw, int (publishPacketIDOffset (pTopic p) (length (pPayload p)))) i dup)"
proof -
  let ?n = "publishBodyLength (qos1Packet p 1 False)"
  let ?pre = "encodeRemainingBytes ?n @ put16 (of_nat (length (pTopic p))) @ bytes_of_string (pTopic p)"
  let ?off = "publishPacketIDOffset (pTopic p) (length (pPayload p))"
  from e have v: "validateTopicName (pTopic p) = None" "?n \<le> MaxRemainingLength"
    and raw: "raw = [publishFlags (qos1Packet p 1 False)] @ ?pre @ put16 1 @ pPayload p"
    unfolding EncodePublish_qos1 [OF one_neq_zero] by auto
  have off: "?off = Suc (length ?pre)"
    by (simp add: publishPacketIDOffset_eq publishBodyLength_def qos1Packet_def put16_def)
  have "stamp (raw, int ?off) i dup =
      [publishFlags (qos1Packet p i dup)] @ ?pre @ put16 i @ pPayload p"
    unfolding raw stamp_def fst_conv snd_conv nat_int off publishFlags_dup [of p i dup 1]
    by (simp add: put16_def list_update_append)
  with v show ?thesis using EncodePublish_qos1 [OF i, of p dup] by simp
qed

lemma publishFlags_qos1:
  "drop_bit 4 (publishFlags (qos1Packet p i dup)) = 3" "drop_bit 1 (publishFlags (qos1Packet p i dup)) AND 3 = 1"
  by (simp_all add: publishFlags_def qos1Packet_def)

lemma template_valid:
  assumes "EncodePublish (qos1Packet p 1 False) = Inr raw"
  shows "\<not> invalidQueued raw (int (publishPacketIDOffset (pTopic p) (length (pPayload p))))"
proof -
  let ?n = "publishBodyLength (qos1Packet p 1 False)"
  from assms have raw: "raw = [publishFlags (qos1Packet p 1 False)] @ encodeRemainingBytes ?n
      @ put16 (of_nat (length (pTopic p))) @ bytes_of_string (pTopic p) @ put16 1 @ pPayload p"
    unfolding EncodePublish_qos1 [OF one_neq_zero] by auto
  have "length raw = publishPacketIDOffset (pTopic p) (length (pPayload p)) + 2 + length (pPayload p)"
    unfolding raw by (simp add: publishPacketIDOffset_eq publishBodyLength_def qos1Packet_def put16_def)
  moreover have "2 \<le> publishPacketIDOffset (pTopic p) (length (pPayload p))"
    by (simp add: publishPacketIDOffset_eq)
  moreover have "raw ! 0 = publishFlags (qos1Packet p 1 False)" by (simp add: raw)
  ultimately show ?thesis by (simp add: invalidQueued_def publishFlags_qos1 [simplified])
qed

lemma newPublishTemplate_Inr:
  "newPublishTemplate encodePublishPacket pub = Inr t \<longleftrightarrow>
     pQoS pub = 1 \<and> EncodePublish (qos1Packet pub 1 False) = Inr (tRaw t)
     \<and> tPacketIDOffset t = publishPacketIDOffset (pTopic pub) (length (pPayload pub))"
  by (cases t) (auto simp: newPublishTemplate_def encodePublishPacket_def qos1Packet_def split: sum.splits)

text \<open>
  C33: a QoS 1 template is sound. Whatever identifier the session queue writes at the computed offset,
  and whether it sets DUP or not, the bytes are a well-formed PUBLISH that decodes to the topic,
  payload and RETAIN flag of the publication with exactly that identifier and DUP flag; and the queue
  accepts the template.
\<close>

theorem template_roundtrip:
  assumes "newPublishTemplate encodePublishPacket pub = Inr t" and "i \<noteq> 0"
    and "int (length (tRaw t)) \<le> m" and "m \<le> int MaxPacketSize"
  shows "\<not> invalidQueued (tRaw t) (int (tPacketIDOffset t))
    \<and> length (stamp (tRaw t, int (tPacketIDOffset t)) i dup) = length (tRaw t)
    \<and> DecodeWithLimit m \<lparr>rbuf = stamp (tRaw t, int (tPacketIDOffset t)) i dup @ ys, rfin = e, rN = None\<rparr> =
      Inr (PublishPacket \<lparr>pTopic = pTopic pub, pPayload = pPayload pub, pRetain = pRetain pub, pDUP = dup,
             pQoS = 1, pPacketID = i\<rparr>, \<lparr>rbuf = ys, rfin = e, rN = None\<rparr>)"
proof -
  from assms(1) have e: "EncodePublish (qos1Packet pub 1 False) = Inr (tRaw t)"
    and off: "tPacketIDOffset t = publishPacketIDOffset (pTopic pub) (length (pPayload pub))"
    by (simp_all add: newPublishTemplate_Inr)
  have len: "length (stamp (tRaw t, int (tPacketIDOffset t)) i dup) = length (tRaw t)" by (simp add: stamp_def)
  with DecodeWithLimit_EncodePublish [OF stamp_encode [OF e assms(2)] _ assms(4)] assms(3) template_valid [OF e]
  show ?thesis by (simp add: off qos1Packet_def)
qed

theorem template_roundtrip_witness:
  "newPublishTemplate encodePublishPacket \<lparr>pTopic = ''a'', pPayload = [7], pRetain = False, pDUP = False, pQoS = 1, pPacketID = 0\<rparr>
     = Inr \<lparr>tRaw = [0x32, 6, 0, 1, 97, 0, 1, 7], tPacketIDOffset = 5\<rparr>
   \<and> DecodeWithLimit 64 \<lparr>rbuf = stamp ([0x32, 6, 0, 1, 97, 0, 1, 7], 5) 9 True, rfin = EOF, rN = None\<rparr>
     = Inr (PublishPacket \<lparr>pTopic = ''a'', pPayload = [7], pRetain = False, pDUP = True, pQoS = 1, pPacketID = 9\<rparr>,
         \<lparr>rbuf = [], rfin = EOF, rN = None\<rparr>)"
proof -
  let ?p = "\<lparr>pTopic = ''a'', pPayload = [7], pRetain = False, pDUP = False, pQoS = 1, pPacketID = 0\<rparr>"
  let ?t = "\<lparr>tRaw = [0x32, 6, 0, 1, 97, 0, 1, 7], tPacketIDOffset = 5\<rparr> :: publish_template"
  have l: "encodeRemainingBytes 6 = [6]" by (subst encodeRemainingBytes.simps) (simp add: Let_def)
  have t: "newPublishTemplate encodePublishPacket ?p = Inr ?t"
    unfolding newPublishTemplate_Inr EncodePublish_qos1 [OF one_neq_zero]
    by (simp add: publishPacketIDOffset_eq validateTopicName_def validateUTF8String_def ValidString_def
        containsNUL_def containsWildcard_def publishBodyLength_def MaxRemainingLength_def qos1Packet_def
        publishFlags_def put16_def bytes_of_string_def l)
  have m: "int (length (tRaw ?t)) \<le> 64" "64 \<le> int MaxPacketSize" by (simp_all add: MaxPacketSize_def MaxRemainingLength_def)
  have i: "(9 :: u16) \<noteq> 0" by simp
  from template_roundtrip [OF t i m, of True "[]" EOF] t show ?thesis by simp
qed

section \<open>The delivery cache\<close>

definition cache_ok :: "publish_encoder \<Rightarrow> publish_packet \<Rightarrow> delivery_cache \<Rightarrow> bool" where
  "cache_ok encodeFn pub c \<longleftrightarrow>
     (\<forall>raw. cQos0 c = Some raw \<longrightarrow> encodeFn (newOutboundPublish pub 0) = Inr raw)
     \<and> (\<forall>t. cQos1 c = Some t \<longrightarrow> newPublishTemplate encodeFn (newOutboundPublish pub 1) = Inr t)"

lemma cache_ok_empty [simp]: "cache_ok f pub emptyCache"
  by (simp add: cache_ok_def emptyCache_def)

lemma qos0Payload_ok:
  "cache_ok f pub c \<Longrightarrow> fst (qos0Payload f (newOutboundPublish pub 0) c) = f (newOutboundPublish pub 0)
     \<and> cache_ok f pub (snd (qos0Payload f (newOutboundPublish pub 0) c))"
  by (auto simp: cache_ok_def qos0Payload_def split: option.splits sum.splits)

lemma qos1Template_ok:
  "cache_ok f pub c \<Longrightarrow> fst (qos1Template f (newOutboundPublish pub 1) c) = newPublishTemplate f (newOutboundPublish pub 1)
     \<and> cache_ok f pub (snd (qos1Template f (newOutboundPublish pub 1) c))"
  by (auto simp: cache_ok_def qos1Template_def split: option.splits sum.splits)

end
