(* ===== verification/Password.thy ===== *)
theory Password
  imports Prelude
begin

text \<open>
  Password hashes (\<^verbatim>\<open>internal/auth/password.go\<close>) and what they use of the Go library: SHA-256, HMAC and
  PBKDF2, which determine the stored key, and the strict standard base64 encoding of salt and key.
  The library returns errors only in restricted modes the broker does not select, so key derivation is
  total here.  The random salt of \<^verbatim>\<open>HashPassword\<close> is a parameter.
\<close>

section \<open>SHA-256\<close>

type_synonym u32 = "32 word"

definition rotr32 :: "nat \<Rightarrow> u32 \<Rightarrow> u32" where
  "rotr32 n x = drop_bit n x OR push_bit (32 - n) x"

text \<open>
  The constants of the algorithm are the first 32 bits of the fractional parts of the cube roots
  (round constants) and square roots (initial state) of the first primes.
\<close>

fun rootBits :: "nat \<Rightarrow> nat \<Rightarrow> nat \<Rightarrow> nat \<Rightarrow> nat" where
  "rootBits e n r 0 = r"
| "rootBits e n r (Suc k) = rootBits e n (if (r + 2 ^ k) ^ e \<le> n then r + 2 ^ k else r) k"

definition primesUpTo :: "nat \<Rightarrow> nat list" where
  "primesUpTo m = filter (\<lambda>n. list_all (\<lambda>d. n mod d \<noteq> 0) [2..<n]) [2..<Suc m]"

definition rootFraction :: "nat \<Rightarrow> nat \<Rightarrow> u32" where
  "rootFraction e p = of_nat (rootBits e (p * 2 ^ (32 * e)) 0 38)"

definition sha256K :: "u32 list" where
  "sha256K = map (rootFraction 3) (primesUpTo 311)"

definition sha256Init :: "u32 list" where
  "sha256Init = map (rootFraction 2) (primesUpTo 19)"

fun be32 :: "byte list \<Rightarrow> u32 list" where
  "be32 (a # b # c # d # r) =
     (push_bit 24 (ucast a) OR push_bit 16 (ucast b) OR push_bit 8 (ucast c) OR ucast d) # be32 r"
| "be32 _ = []"

definition put32 :: "u32 \<Rightarrow> byte list" where
  "put32 w = [ucast (drop_bit 24 w), ucast (drop_bit 16 w), ucast (drop_bit 8 w), ucast w]"

definition put64 :: "u64 \<Rightarrow> byte list" where
  "put64 w = map (\<lambda>i. ucast (drop_bit (56 - 8 * i) w)) [0..<8]"

definition sha256Pad :: "byte list \<Rightarrow> byte list" where
  "sha256Pad m = m @ [0x80] @ replicate ((119 - length m mod 64) mod 64) 0 @ put64 (of_nat (8 * length m))"

text \<open>The message schedule, newest word first.\<close>

fun schedule :: "nat \<Rightarrow> u32 list \<Rightarrow> u32 list" where
  "schedule 0 ws = ws"
| "schedule (Suc n) ws =
     (let w15 = ws ! 14; w2 = ws ! 1;
          s0 = rotr32 7 w15 XOR rotr32 18 w15 XOR drop_bit 3 w15;
          s1 = rotr32 17 w2 XOR rotr32 19 w2 XOR drop_bit 10 w2
      in schedule n ((ws ! 15 + s0 + ws ! 6 + s1) # ws))"

fun shaRound :: "u32 \<times> u32 \<Rightarrow> u32 list \<Rightarrow> u32 list" where
  "shaRound (k, w) [a, b, c, d, e, f, g, h] =
     (let s1 = rotr32 6 e XOR rotr32 11 e XOR rotr32 25 e;
          ch = (e AND f) XOR (NOT e AND g);
          t1 = h + s1 + ch + k + w;
          s0 = rotr32 2 a XOR rotr32 13 a XOR rotr32 22 a;
          maj = (a AND b) XOR (a AND c) XOR (b AND c)
      in [t1 + (s0 + maj), a, b, c, d + t1, e, f, g])"
| "shaRound _ hs = hs"

definition compress :: "u32 list \<Rightarrow> byte list \<Rightarrow> u32 list" where
  "compress hs block = map2 (+) hs (fold shaRound (zip sha256K (rev (schedule 48 (rev (be32 block))))) hs)"

function shaBlocks :: "u32 list \<Rightarrow> byte list \<Rightarrow> u32 list" where
  "shaBlocks hs m = (if m = [] then hs else shaBlocks (compress hs (take 64 m)) (drop 64 m))"
  by pat_completeness auto
termination
  by (relation "measure (\<lambda>(hs, m). length m)") auto

declare shaBlocks.simps [simp del]

definition sha256 :: "byte list \<Rightarrow> byte list" where
  "sha256 m = concat (map put32 (shaBlocks sha256Init (sha256Pad m)))"

section \<open>HMAC and PBKDF2\<close>

definition hmac :: "byte list \<Rightarrow> byte list \<Rightarrow> byte list" where
  "hmac key m =
     (let k = (if length key > 64 then sha256 key else key);
          k = k @ replicate (64 - length k) 0
      in sha256 (map ((XOR) 0x5c) k @ sha256 (map ((XOR) 0x36) k @ m)))"

fun pbkdf2Loop :: "byte list \<Rightarrow> nat \<Rightarrow> byte list \<Rightarrow> byte list \<Rightarrow> byte list" where
  "pbkdf2Loop password 0 u t = t"
| "pbkdf2Loop password (Suc n) u t = (let u = hmac password u in pbkdf2Loop password n u (map2 (XOR) t u))"

definition pbkdf2Block :: "byte list \<Rightarrow> byte list \<Rightarrow> nat \<Rightarrow> nat \<Rightarrow> byte list" where
  "pbkdf2Block password salt iter i =
     (let u = hmac password (salt @ put32 (of_nat i)) in pbkdf2Loop password (iter - 1) u u)"

definition pbkdf2Key :: "string \<Rightarrow> byte list \<Rightarrow> nat \<Rightarrow> nat \<Rightarrow> byte list" where
  "pbkdf2Key password salt iter keyLen =
     take keyLen (concat (map (pbkdf2Block (bytes_of_string password) salt iter) [1..<(keyLen + 31) div 32 + 1]))"

section \<open>Base64\<close>

definition b64Alphabet :: string where
  "b64Alphabet = ''ABCDEFGHIJKLMNOPQRSTUVWXYZabcdefghijklmnopqrstuvwxyz0123456789+/''"

definition b64Char :: "nat \<Rightarrow> char" where
  "b64Char n = b64Alphabet ! n"

fun b64Encode :: "byte list \<Rightarrow> string" where
  "b64Encode (a # b # c # r) =
     (let n = unat a * 65536 + unat b * 256 + unat c
      in [b64Char (n div 262144), b64Char (n div 4096 mod 64), b64Char (n div 64 mod 64), b64Char (n mod 64)] @ b64Encode r)"
| "b64Encode [a, b] =
     (let n = unat a * 65536 + unat b * 256
      in [b64Char (n div 262144), b64Char (n div 4096 mod 64), b64Char (n div 64 mod 64), CHR ''=''])"
| "b64Encode [a] =
     (let n = unat a * 65536 in [b64Char (n div 262144), b64Char (n div 4096 mod 64), CHR ''='', CHR ''=''])"
| "b64Encode [] = []"

fun indexOf :: "char \<Rightarrow> string \<Rightarrow> nat option" where
  "indexOf c [] = None"
| "indexOf c (x # xs) = (if c = x then Some 0 else map_option Suc (indexOf c xs))"

definition b64Value :: "char \<Rightarrow> nat option" where
  "b64Value c = indexOf c b64Alphabet"

text \<open>
  Groups of four characters; only the last one may be padded, and then its unused bits must be zero
  (\<^verbatim>\<open>Strict\<close>).  The decoder ignores carriage returns and newlines anywhere.
\<close>

fun b64Groups :: "string \<Rightarrow> byte list option" where
  "b64Groups [] = Some []"
| "b64Groups (a # b # c # d # r) =
     (case (b64Value a, b64Value b) of
        (Some i, Some j) \<Rightarrow>
          if c = CHR ''='' \<and> d = CHR ''='' then
            if r = [] \<and> j mod 16 = 0 then Some [of_nat (i * 4 + j div 16)] else None
          else (case b64Value c of
            None \<Rightarrow> None
          | Some k \<Rightarrow>
              if d = CHR ''='' then
                if r = [] \<and> k mod 4 = 0 then Some [of_nat (i * 4 + j div 16), of_nat (j mod 16 * 16 + k div 4)] else None
              else (case (b64Value d, b64Groups r) of
                (Some l, Some bs) \<Rightarrow>
                  Some ([of_nat (i * 4 + j div 16), of_nat (j mod 16 * 16 + k div 4), of_nat (k mod 4 * 64 + l)] @ bs)
              | _ \<Rightarrow> None))
      | _ \<Rightarrow> None)"
| "b64Groups _ = None"

definition b64Decode :: "string \<Rightarrow> byte list option" where
  "b64Decode s = b64Groups (filter (\<lambda>c. c \<noteq> CHR 0x0D \<and> c \<noteq> CHR 0x0A) s)"

section \<open>Password hashes\<close>

definition passwordIterations :: nat where
  "passwordIterations = 600000"

record password_hash =
  phSalt :: "byte list"
  phKey :: "byte list"

fun splitOn :: "char \<Rightarrow> string \<Rightarrow> string list" where
  "splitOn c [] = [[]]"
| "splitOn c (x # xs) =
     (if x = c then [] # splitOn c xs
      else (case splitOn c xs of [] \<Rightarrow> [[x]] | p # ps \<Rightarrow> (x # p) # ps))"

text \<open>The outcome of \<^verbatim>\<open>rand.Read\<close> on the sixteen salt bytes is the first argument.\<close>

definition HashPassword :: "byte list result \<Rightarrow> string \<Rightarrow> string result" where
  "HashPassword randRead password =
     (case randRead of
        Inl e \<Rightarrow> Inl e
      | Inr salt \<Rightarrow>
          let key = pbkdf2Key password salt passwordIterations 32
          in Inr (''pbkdf2-sha256$600000$'' @ b64Encode salt @ ''$'' @ b64Encode key))"

definition parsePasswordHash :: "string \<Rightarrow> password_hash result" where
  "parsePasswordHash encoded =
     (let parts = splitOn (CHR ''$'') encoded
      in if length parts \<noteq> 4 \<or> parts ! 0 \<noteq> ''pbkdf2-sha256'' \<or> parts ! 1 \<noteq> ''600000''
         then Inl (New ''invalid password hash'')
         else
           case (b64Decode (parts ! 2), b64Decode (parts ! 3)) of
             (Some salt, Some key) \<Rightarrow>
               if length salt \<noteq> 16 \<or> length key \<noteq> 32 then Inl (New ''invalid password hash'')
               else Inr \<lparr>phSalt = salt, phKey = key\<rparr>
           | _ \<Rightarrow> Inl (New ''invalid password hash''))"

definition verify :: "string \<Rightarrow> password_hash \<Rightarrow> error option" where
  "verify password h =
     (if pbkdf2Key password (phSalt h) passwordIterations 32 = phKey h then None else Some ErrCredentials)"

definition VerifyPassword :: "string \<Rightarrow> string \<Rightarrow> error option" where
  "VerifyPassword encoded password =
     (case parsePasswordHash encoded of Inl e \<Rightarrow> Some e | Inr h \<Rightarrow> verify password h)"

section \<open>Lengths\<close>

lemma length_shaRound: "length (shaRound x hs) = length hs"
  by (induction x hs rule: shaRound.induct) (simp_all add: Let_def)

lemma length_fold_shaRound: "length (fold shaRound xs hs) = length hs"
  by (induction xs arbitrary: hs) (simp_all add: length_shaRound)

lemma length_shaBlocks: "length (shaBlocks hs m) = length hs"
proof (induction hs m rule: shaBlocks.induct)
  case (1 hs m)
  then show ?case by (subst shaBlocks.simps) (simp add: compress_def length_fold_shaRound)
qed

lemma length_sha256Init: "length sha256Init = 8"
proof -
  have "length (primesUpTo 19) = 8" by code_simp
  then show ?thesis by (simp add: sha256Init_def)
qed

lemma length_sha256 [simp]: "length (sha256 m) = 32"
proof -
  have "length (concat (map put32 ws)) = 4 * length ws" for ws by (induction ws) (simp_all add: put32_def)
  then show ?thesis by (simp add: sha256_def length_shaBlocks length_sha256Init)
qed

lemma length_hmac [simp]: "length (hmac k m) = 32"
  by (simp add: hmac_def Let_def)

lemma length_pbkdf2Loop: "length t = 32 \<Longrightarrow> length (pbkdf2Loop p n u t) = 32"
  by (induction n arbitrary: u t) (simp_all add: Let_def)

lemma length_pbkdf2Key: "length (pbkdf2Key p s n 32) = 32"
  by (simp add: pbkdf2Key_def pbkdf2Block_def Let_def length_pbkdf2Loop)

section \<open>Base64 round trip\<close>

lemma b64_table:
  "list_all (\<lambda>n. b64Value (b64Char n) = Some n \<and> b64Char n \<noteq> CHR ''='' \<and> b64Char n \<noteq> CHR ''$''
     \<and> b64Char n \<noteq> CHR 0x0D \<and> b64Char n \<noteq> CHR 0x0A) [0..<64]"
  by code_simp

lemma b64Char_good:
  assumes "n < 64"
  shows "b64Value (b64Char n) = Some n" "b64Char n \<noteq> CHR ''=''" "b64Char n \<noteq> CHR ''$''"
    "b64Char n \<noteq> CHR 0x0D" "b64Char n \<noteq> CHR 0x0A"
  using b64_table assms by (auto simp: list_all_iff)

lemma sextets:
  fixes a b c :: nat
  assumes "b < 256" "c < 256"
  defines "n \<equiv> a * 65536 + b * 256 + c"
  shows "n div 262144 = a div 4" and "n div 4096 mod 64 = a mod 4 * 16 + b div 16"
    and "n div 64 mod 64 = b mod 16 * 4 + c div 64" and "n mod 64 = c mod 64"
proof -
  have n1: "n div 65536 = a" and n2: "n div 256 = a * 256 + b" using assms by auto
  have "n div 262144 = n div 65536 div 4" by (simp flip: div_mult2_eq)
  then show "n div 262144 = a div 4" by (simp add: n1)
  have "n div 4096 = n div 256 div 16" by (simp flip: div_mult2_eq)
  then have "n div 4096 = (b + a * 16 * 16) div 16" by (simp add: n2 add.commute)
  then have "n div 4096 = a * 16 + b div 16" by (subst (asm) div_mult_self1) simp_all
  moreover have "a * 16 = a div 4 * 64 + a mod 4 * 16" using div_mult_mod_eq [of a 4] by linarith
  ultimately have "n div 4096 = (a mod 4 * 16 + b div 16) + a div 4 * 64" by simp
  then have "n div 4096 mod 64 = (a mod 4 * 16 + b div 16) mod 64" by (simp only: mod_mult_self1)
  moreover have "a mod 4 \<le> 3" "b div 16 \<le> 15" using assms(1) by auto
  ultimately show "n div 4096 mod 64 = a mod 4 * 16 + b div 16" by simp
  have n64: "n = c + (a * 1024 + b * 4) * 64" by (simp add: n_def)
  show "n mod 64 = c mod 64" unfolding n64 by (rule mod_mult_self1)
  have "n div 64 = (a * 1024 + b * 4) + c div 64" unfolding n64 by (subst div_mult_self1) simp_all
  moreover have "b * 4 = b div 16 * 64 + b mod 16 * 4" using div_mult_mod_eq [of b 16] by linarith
  ultimately have "n div 64 = (b mod 16 * 4 + c div 64) + (a * 16 + b div 16) * 64" by simp
  then have "n div 64 mod 64 = (b mod 16 * 4 + c div 64) mod 64" by (simp only: mod_mult_self1)
  moreover have "b mod 16 \<le> 15" "c div 64 \<le> 3" using assms(2) by auto
  ultimately show "n div 64 mod 64 = b mod 16 * 4 + c div 64" by simp
qed

lemma byte_split:
  fixes a :: byte
  shows "unat a < 256" "of_nat (unat a div 4 * 4 + unat a mod 4) = a" "of_nat (unat a div 16 * 16 + unat a mod 16) = a"
    "of_nat (unat a div 64 * 64 + unat a mod 64) = a"
  using unat_byte_less [of a] by (simp_all add: div_mult_mod_eq)

lemma sextet_bounds:
  fixes a b c :: byte
  shows "unat a div 4 < 64" "unat a mod 4 * 16 + unat b div 16 < 64" "unat b mod 16 * 4 + unat c div 64 < 64"
    "unat c mod 64 < 64" "unat a mod 4 * 16 < 64" "unat b mod 16 * 4 < 64"
proof -
  have d: "unat a div 4 < 64" "unat b div 16 < 16" "unat c div 64 < 4"
    using unat_byte_less [of a] unat_byte_less [of b] unat_byte_less [of c] by (simp_all add: less_mult_imp_div_less)
  have m: "unat a mod 4 < 4" "unat b mod 16 < 16" "unat c mod 64 < 64" by simp_all
  show "unat a div 4 < 64" "unat a mod 4 * 16 + unat b div 16 < 64" "unat b mod 16 * 4 + unat c div 64 < 64"
    "unat c mod 64 < 64" "unat a mod 4 * 16 < 64" "unat b mod 16 * 4 < 64"
    using d m by linarith+
qed

lemma sextet_parts:
  fixes a b c :: byte
  shows "(unat a mod 4 * 16 + unat b div 16) div 16 = unat a mod 4" "(unat a mod 4 * 16 + unat b div 16) mod 16 = unat b div 16"
    "(unat b mod 16 * 4 + unat c div 64) div 4 = unat b mod 16" "(unat b mod 16 * 4 + unat c div 64) mod 4 = unat c div 64"
    "unat b div 16 mod 16 = unat b div 16" "unat c div 64 mod 4 = unat c div 64"
proof -
  have "unat b div 16 < 16" "unat c div 64 < 4"
    using unat_byte_less [of b] unat_byte_less [of c] by (simp_all add: less_mult_imp_div_less)
  then show "(unat a mod 4 * 16 + unat b div 16) div 16 = unat a mod 4" "(unat a mod 4 * 16 + unat b div 16) mod 16 = unat b div 16"
    "(unat b mod 16 * 4 + unat c div 64) div 4 = unat b mod 16" "(unat b mod 16 * 4 + unat c div 64) mod 4 = unat c div 64"
    "unat b div 16 mod 16 = unat b div 16" "unat c div 64 mod 4 = unat c div 64"
    by simp_all
qed

lemmas b64_good = sextet_bounds [THEN b64Char_good(1)] sextet_bounds [THEN b64Char_good(2)] sextet_bounds [THEN b64Char_good(3)]
  sextet_bounds [THEN b64Char_good(4)] sextet_bounds [THEN b64Char_good(5)]

lemma b64Groups_encode: "b64Groups (b64Encode bs) = Some bs"
proof (induction bs rule: b64Encode.induct)
  case (1 a b c r)
  note s = sextets [OF byte_split(1) [of b] byte_split(1) [of c], of "unat a"]
  show ?case using 1 by (simp add: Let_def s b64_good sextet_parts byte_split del: of_nat_add of_nat_mult)
next
  case (2 a b)
  note s = sextets [OF byte_split(1) [of b], of 0 "unat a", simplified]
  show ?case by (simp add: Let_def s b64_good sextet_parts byte_split del: of_nat_add of_nat_mult)
next
  case (3 a)
  note s = sextets [of 0 0 "unat a", simplified]
  show ?case by (simp add: Let_def s b64_good byte_split del: of_nat_add of_nat_mult)
qed simp

lemma b64Encode_chars: "c \<in> set (b64Encode bs) \<Longrightarrow> c \<noteq> CHR ''$'' \<and> c \<noteq> CHR 0x0D \<and> c \<noteq> CHR 0x0A"
proof (induction bs rule: b64Encode.induct)
  case (1 a b x r)
  note s = sextets [OF byte_split(1) [of b] byte_split(1) [of x], of "unat a"]
  from 1 b64_good show ?case by (auto simp: Let_def s)
next
  case (2 a b)
  note s = sextets [OF byte_split(1) [of b], of 0 "unat a", simplified]
  from 2 b64_good show ?case by (auto simp: Let_def s)
next
  case (3 a)
  note s = sextets [of 0 0 "unat a", simplified]
  from 3 b64_good show ?case by (auto simp: Let_def s)
qed simp

lemma b64Decode_encode: "b64Decode (b64Encode bs) = Some bs"
proof -
  have "filter (\<lambda>c. c \<noteq> CHR 0x0D \<and> c \<noteq> CHR 0x0A) (b64Encode bs) = b64Encode bs"
    using b64Encode_chars [of _ bs] by (intro filter_True) blast
  then show ?thesis by (simp add: b64Decode_def b64Groups_encode)
qed

section \<open>Stored hashes\<close>

lemma splitOn_last: "c \<notin> set a \<Longrightarrow> splitOn c a = [a]"
  by (induction a) auto

lemma splitOn_append: "c \<notin> set a \<Longrightarrow> splitOn c (a @ c # b) = a # splitOn c b"
  by (induction a) auto

lemma splitOn_hash:
  "splitOn (CHR ''$'') (''pbkdf2-sha256$600000$'' @ b64Encode salt @ ''$'' @ b64Encode key) =
     [''pbkdf2-sha256'', ''600000'', b64Encode salt, b64Encode key]"
proof -
  have nd: "CHR ''$'' \<notin> set (b64Encode bs)" for bs using b64Encode_chars [of "CHR ''$''" bs] by blast
  have "splitOn (CHR ''$'') (b64Encode salt @ ''$'' @ b64Encode key) = [b64Encode salt, b64Encode key]"
    using splitOn_append [OF nd, of salt "b64Encode key"] splitOn_last [OF nd, of key] by simp
  then show ?thesis by simp
qed

lemma parsePasswordHash_encoded:
  assumes "length salt = 16" and "length key = 32"
  shows "parsePasswordHash (''pbkdf2-sha256$600000$'' @ b64Encode salt @ ''$'' @ b64Encode key) =
    Inr \<lparr>phSalt = salt, phKey = key\<rparr>"
  unfolding parsePasswordHash_def splitOn_hash Let_def using assms by (simp add: b64Decode_encode)

lemma parsePasswordHash_lengths:
  "parsePasswordHash s = Inr h \<Longrightarrow> length (phSalt h) = 16 \<and> length (phKey h) = 32"
  by (auto simp: parsePasswordHash_def Let_def split: if_splits option.splits)

text \<open>
  C34: a hash made by \<^verbatim>\<open>HashPassword\<close> verifies the password it was made from, and any other password
  is accepted exactly when PBKDF2 derives the same key from it; every other outcome is
  \<^verbatim>\<open>ErrCredentials\<close>.  When the random source fails no hash is made.
\<close>

theorem VerifyPassword_HashPassword:
  assumes "length salt = 16"
  shows "(\<exists>encoded. HashPassword (Inr salt) pw = Inr encoded
      \<and> VerifyPassword encoded pw = None
      \<and> VerifyPassword encoded pw' =
          (if pbkdf2Key pw' salt passwordIterations 32 = pbkdf2Key pw salt passwordIterations 32
           then None else Some ErrCredentials))
    \<and> HashPassword (Inl e) pw = Inl e"
proof -
  let ?s = "''pbkdf2-sha256$600000$'' @ b64Encode salt @ ''$'' @ b64Encode (pbkdf2Key pw salt passwordIterations 32)"
  have h: "HashPassword (Inr salt) pw = Inr ?s" by (simp add: HashPassword_def Let_def)
  have v: "VerifyPassword ?s p = (if pbkdf2Key p salt passwordIterations 32 = pbkdf2Key pw salt passwordIterations 32
      then None else Some ErrCredentials)" for p
    unfolding VerifyPassword_def parsePasswordHash_encoded [OF assms length_pbkdf2Key] by (simp add: verify_def)
  have "VerifyPassword ?s pw = None" unfolding v by simp
  moreover have "HashPassword (Inl e) pw = Inl e" by (simp add: HashPassword_def)
  ultimately show ?thesis using h v [of pw'] by blast
qed

theorem VerifyPassword_HashPassword_witness:
  "\<exists>encoded. HashPassword (Inr (replicate 16 7)) ''secret'' = Inr encoded \<and> VerifyPassword encoded ''secret'' = None"
proof -
  have "length (replicate 16 (7 :: byte)) = 16" by simp
  from VerifyPassword_HashPassword [OF this, of "''secret''" "''secret''" EOF] show ?thesis by blast
qed

end
