(* ===== verification/Auth.thy ===== *)
theory Auth
  imports Password TopicParse
begin

text \<open>
  The local authentication policy (\<^verbatim>\<open>internal/auth/local.go\<close>): validation of the configured users,
  authentication under a bounded number of concurrent key derivations, and the permission checks.  The
  channel \<^verbatim>\<open>slots\<close> is the number of slots in use next to its capacity \<^verbatim>\<open>GOMAXPROCS\<close>, a parameter of
  \<^verbatim>\<open>New\<close>.  The two observations of the context's error in \<^verbatim>\<open>Authenticate\<close> are its arguments.
\<close>

section \<open>Policies\<close>

record User =
  uUsername :: string
  uPasswordHash :: string
  uClientIDs :: "string list"
  uPublish :: "string list"
  uSubscribe :: "string list"

record user =
  kClientIDs :: "string list"
  kPublish :: "string list"
  kSubscribe :: "string list"
  kHash :: password_hash

record Local =
  lUsers :: "(string \<times> user) list"
  lSlots :: nat
  lCapacity :: nat
  lDummy :: password_hash

definition validName :: "string \<Rightarrow> bool" where
  "validName value \<longleftrightarrow> value \<noteq> '''' \<and> length value \<le> 65535 \<and> ValidString value \<and> \<not> containsNUL value"

fun addClientIDs :: "string list \<Rightarrow> string list \<Rightarrow> string list result" where
  "addClientIDs [] ids = Inr ids"
| "addClientIDs (i # is) ids =
     (if \<not> validName i \<or> containsWildcard i \<or> i \<in> set ids then Inl (New ''invalid or duplicate client id'')
      else addClientIDs is (i # ids))"

fun newLoop :: "User list \<Rightarrow> (string \<times> user) list \<Rightarrow> string list \<Rightarrow> (string \<times> user) list result" where
  "newLoop [] us ids = Inr us"
| "newLoop (entry # es) us ids =
     (if \<not> validName (uUsername entry) \<or> uClientIDs entry = [] then Inl (New ''invalid identity configuration'')
      else if map_of us (uUsername entry) \<noteq> None then Inl (New ''duplicate username'')
      else case parsePasswordHash (uPasswordHash entry) of
        Inl e \<Rightarrow> Inl e
      | Inr hash \<Rightarrow>
          (case addClientIDs (uClientIDs entry) ids of
             Inl e \<Rightarrow> Inl e
           | Inr ids \<Rightarrow>
               if \<not> list_all (\<lambda>filter. ValidateTopicFilter filter = None) (uPublish entry @ uSubscribe entry)
               then Inl (New ''invalid permission filter'')
               else newLoop es (AList.update (uUsername entry)
                      \<lparr>kClientIDs = uClientIDs entry, kPublish = uPublish entry, kSubscribe = uSubscribe entry, kHash = hash\<rparr> us)
                      ids))"

definition Auth_New :: "nat \<Rightarrow> User list \<Rightarrow> Local result" where
  "Auth_New gomaxprocs users =
     (if users = [] then Inl (New ''credentials require at least one user'')
      else case newLoop users [] [] of
        Inl e \<Rightarrow> Inl e
      | Inr us \<Rightarrow> Inr \<lparr>lUsers = us, lSlots = 0, lCapacity = gomaxprocs,
                     lDummy = \<lparr>phSalt = replicate 16 0, phKey = replicate 32 0\<rparr>\<rparr>)"

section \<open>Authentication\<close>

definition acquireSlot :: "Local \<Rightarrow> Local option" where
  "acquireSlot l = (if lSlots l < lCapacity l then Some (l\<lparr>lSlots := lSlots l + 1\<rparr>) else None)"

definition releaseSlot :: "Local \<Rightarrow> Local" where
  "releaseSlot l = l\<lparr>lSlots := lSlots l - 1\<rparr>"

text \<open>
  \<open>ctxErr\<close> is what \<^verbatim>\<open>ctx.Err()\<close> returns on entry, \<open>ctxErr'\<close> what it returns after the key derivation.
\<close>

definition Authenticate ::
  "error option \<Rightarrow> error option \<Rightarrow> string \<Rightarrow> string \<Rightarrow> Local \<Rightarrow> string result \<times> Local" where
  "Authenticate ctxErr ctxErr' username password l =
     (case ctxErr of
        Some e \<Rightarrow> (Inl e, l)
      | None \<Rightarrow>
          (case acquireSlot l of
             None \<Rightarrow> (Inl ErrBusy, l)
           | Some l \<Rightarrow>
               let entry = map_of (lUsers l) username;
                   hash = (case entry of Some u \<Rightarrow> kHash u | None \<Rightarrow> lDummy l);
                   err = verify password hash
               in (case ctxErr' of
                     Some e \<Rightarrow> Inl e
                   | None \<Rightarrow> if entry = None \<or> err \<noteq> None then Inl ErrCredentials else Inr username,
                   releaseSlot l)))"

section \<open>Permissions\<close>

text \<open>A missing identity reads the zero user, which has no permissions.\<close>

definition permissions :: "(user \<Rightarrow> string list) \<Rightarrow> string \<Rightarrow> Local \<Rightarrow> string list" where
  "permissions field identity l = (case map_of (lUsers l) identity of None \<Rightarrow> [] | Some u \<Rightarrow> field u)"

definition CanUseClientID :: "string \<Rightarrow> string \<Rightarrow> Local \<Rightarrow> bool" where
  "CanUseClientID identity i l = list_ex (\<lambda>allowed. allowed = i) (permissions kClientIDs identity l)"

definition CanPublish :: "string \<Rightarrow> string \<Rightarrow> Local \<Rightarrow> bool" where
  "CanPublish identity name l =
     (if \<not> validName name \<or> containsWildcard name then False
      else list_ex (\<lambda>allowed. MatchFilter allowed name) (permissions kPublish identity l))"

text \<open>As in \<^verbatim>\<open>CoversFilter\<close>, \<open>None\<close> is a panic.\<close>

fun anyCovers :: "string list \<Rightarrow> string \<Rightarrow> bool option" where
  "anyCovers [] flt = Some False"
| "anyCovers (allowed # as) flt =
     (case CoversFilter allowed flt of
        None \<Rightarrow> None
      | Some b \<Rightarrow> if b then Some True else anyCovers as flt)"

definition CanSubscribe :: "string \<Rightarrow> string \<Rightarrow> Local \<Rightarrow> bool option" where
  "CanSubscribe identity flt l =
     (if ValidateTopicFilter flt \<noteq> None then Some False
      else anyCovers (permissions kSubscribe identity l) flt)"

lemma concat_distinct_owner:
  "distinct (concat (map f xs)) \<Longrightarrow> x \<in> set xs \<Longrightarrow> y \<in> set xs \<Longrightarrow> c \<in> set (f x) \<Longrightarrow> c \<in> set (f y) \<Longrightarrow> x = y"
  by (induction xs) auto

section \<open>Construction\<close>

text \<open>What the configuration of one user must satisfy on its own.\<close>

definition user_ok :: "User \<Rightarrow> bool" where
  "user_ok u \<longleftrightarrow> validName (uUsername u) \<and> uClientIDs u \<noteq> []
     \<and> (\<forall>i \<in> set (uClientIDs u). validName i \<and> \<not> containsWildcard i)
     \<and> (\<exists>h. parsePasswordHash (uPasswordHash u) = Inr h)
     \<and> (\<forall>f \<in> set (uPublish u) \<union> set (uSubscribe u). ValidateTopicFilter f = None)"

definition users_ok :: "User list \<Rightarrow> bool" where
  "users_ok us \<longleftrightarrow> us \<noteq> [] \<and> (\<forall>u \<in> set us. user_ok u) \<and> distinct (map uUsername us)
     \<and> distinct (concat (map uClientIDs us))"

definition userEntry :: "User \<Rightarrow> string \<times> user" where
  "userEntry u = (uUsername u, \<lparr>kClientIDs = uClientIDs u, kPublish = uPublish u, kSubscribe = uSubscribe u,
     kHash = projr (parsePasswordHash (uPasswordHash u))\<rparr>)"

lemma update_absent: "map_of m k = None \<Longrightarrow> AList.update k v m = m @ [(k, v)]"
  by (induction m) (auto split: if_splits)

lemma addClientIDs_iff:
  "addClientIDs is ids = Inr ids' \<longleftrightarrow>
     (\<forall>i \<in> set is. validName i \<and> \<not> containsWildcard i) \<and> distinct is \<and> set is \<inter> set ids = {} \<and> ids' = rev is @ ids"
  by (induction "is" arbitrary: ids) auto

lemma newLoop_iff:
  "newLoop es us ids = Inr us' \<longleftrightarrow>
     (\<forall>e \<in> set es. user_ok e) \<and> distinct (map uUsername es) \<and> uUsername ` set es \<inter> fst ` set us = {}
     \<and> distinct (concat (map uClientIDs es)) \<and> set (concat (map uClientIDs es)) \<inter> set ids = {}
     \<and> us' = us @ map userEntry es"
proof (induction es arbitrary: us ids)
  case (Cons e es)
  show ?case
  proof (cases "user_ok e \<and> uUsername e \<notin> fst ` set us \<and> distinct (uClientIDs e) \<and> set (uClientIDs e) \<inter> set ids = {}")
    case True
    then obtain h where h: "parsePasswordHash (uPasswordHash e) = Inr h" by (auto simp: user_ok_def)
    have a: "addClientIDs (uClientIDs e) ids = Inr (rev (uClientIDs e) @ ids)"
      using True by (auto simp: addClientIDs_iff user_ok_def)
    have f: "list_all (\<lambda>filter. ValidateTopicFilter filter = None) (uPublish e @ uSubscribe e)"
      using True by (auto simp: user_ok_def list_all_iff)
    have m: "map_of us (uUsername e) = None" using True by (simp add: map_of_eq_None_iff)
    have "newLoop (e # es) us ids = newLoop es (us @ [userEntry e]) (rev (uClientIDs e) @ ids)"
      using True h a f m by (simp add: user_ok_def update_absent userEntry_def)
    then show ?thesis using True by (auto simp: Cons.IH userEntry_def)
  next
    case False
    have "newLoop (e # es) us ids \<noteq> Inr us'"
    proof
      assume "newLoop (e # es) us ids = Inr us'"
      then have "user_ok e \<and> uUsername e \<notin> fst ` set us \<and> distinct (uClientIDs e) \<and> set (uClientIDs e) \<inter> set ids = {}"
        by (auto simp: user_ok_def addClientIDs_iff list_all_iff map_of_eq_None_iff
            split: if_splits sum.splits)
      with False show False by blast
    qed
    then show ?thesis using False by auto
  qed
qed auto

lemma Auth_New_iff:
  "Auth_New procs users = Inr l \<longleftrightarrow> users_ok users \<and>
     l = \<lparr>lUsers = map userEntry users, lSlots = 0, lCapacity = procs,
          lDummy = \<lparr>phSalt = replicate 16 0, phKey = replicate 32 0\<rparr>\<rparr>"
proof (cases "newLoop users [] []")
  case (Inl e)
  with newLoop_iff [of users "[]" "[]" "map userEntry users"] have "users = [] \<or> \<not> users_ok users"
    by (auto simp: users_ok_def)
  with Inl show ?thesis by (auto simp: Auth_New_def users_ok_def)
next
  case (Inr us)
  with newLoop_iff [of users "[]" "[]" us] have "us = map userEntry users" "users = [] \<or> users_ok users"
    by (auto simp: users_ok_def)
  with Inr show ?thesis by (auto simp: Auth_New_def users_ok_def)
qed

lemma map_of_userEntry:
  assumes "distinct (map uUsername users)"
  shows "map_of (map userEntry users) i = map_option (snd \<circ> userEntry) (find (\<lambda>u. uUsername u = i) users)"
  using assms by (induction users) (auto simp: userEntry_def)

lemma permissions_New:
  assumes "Auth_New procs users = Inr l"
  shows "set (permissions kPublish i l) = {f. \<exists>u \<in> set users. uUsername u = i \<and> f \<in> set (uPublish u)}"
    and "set (permissions kSubscribe i l) = {f. \<exists>u \<in> set users. uUsername u = i \<and> f \<in> set (uSubscribe u)}"
    and "set (permissions kClientIDs i l) = {f. \<exists>u \<in> set users. uUsername u = i \<and> f \<in> set (uClientIDs u)}"
proof -
  from assms have d: "distinct (map uUsername users)" and l: "lUsers l = map userEntry users"
    by (simp_all add: Auth_New_iff users_ok_def)
  have "map_of (lUsers l) (uUsername u) = Some (snd (userEntry u))" if "u \<in> set users" for u
    unfolding l using that d by (intro map_of_is_SomeI) (auto simp: userEntry_def comp_def rev_image_eqI)
  moreover have "\<exists>u \<in> set users. uUsername u = i \<and> k = snd (userEntry u)" if "map_of (lUsers l) i = Some k" for k
    using map_of_SomeD [OF that] by (auto simp: l userEntry_def)
  ultimately have p: "set (permissions fld i l) = {f. \<exists>u \<in> set users. uUsername u = i \<and> f \<in> set (fld (snd (userEntry u)))}" for fld
    by (cases "map_of (lUsers l) i") (fastforce simp: permissions_def)+
  show "set (permissions kPublish i l) = {f. \<exists>u \<in> set users. uUsername u = i \<and> f \<in> set (uPublish u)}"
    and "set (permissions kSubscribe i l) = {f. \<exists>u \<in> set users. uUsername u = i \<and> f \<in> set (uSubscribe u)}"
    and "set (permissions kClientIDs i l) = {f. \<exists>u \<in> set users. uUsername u = i \<and> f \<in> set (uClientIDs u)}"
    by (simp_all add: p userEntry_def)
qed

section \<open>Decisions\<close>

lemma validName_topic: "validName t \<and> \<not> containsWildcard t \<longleftrightarrow> validateTopicName t = None"
  by (auto simp: validName_def validateTopicName_def validateUTF8String_def)

lemma anyCovers_exact:
  assumes "ValidateTopicFilter f = None" and "\<forall>a \<in> set as. ValidateTopicFilter a = None"
  shows "anyCovers as f = Some (\<exists>a \<in> set as. \<forall>t. validateTopicName t = None \<and> MatchFilter f t \<longrightarrow> MatchFilter a t)"
  using assms(2) by (induction as) (auto simp: CoversFilter_inclusion [OF _ assms(1)])

lemma CanPublish_New:
  assumes "Auth_New procs users = Inr l"
  shows "CanPublish i t l \<longleftrightarrow>
      validateTopicName t = None \<and> (\<exists>u \<in> set users. uUsername u = i \<and> (\<exists>a \<in> set (uPublish u). MatchFilter a t))"
  using permissions_New(1) [OF assms, of i] validName_topic [of t] by (auto simp: CanPublish_def list_ex_iff)

lemma CanSubscribe_New:
  assumes "Auth_New procs users = Inr l"
  shows "CanSubscribe i f l = Some (ValidateTopicFilter f = None \<and>
      (\<exists>u \<in> set users. uUsername u = i \<and> (\<exists>a \<in> set (uSubscribe u).
         \<forall>t. validateTopicName t = None \<and> MatchFilter f t \<longrightarrow> MatchFilter a t)))"
proof -
  note perms = permissions_New(2) [OF assms, of i]
  from assms have "users_ok users" by (simp add: Auth_New_iff)
  then have v: "\<forall>a \<in> set (permissions kSubscribe i l). ValidateTopicFilter a = None"
    by (auto simp: perms users_ok_def user_ok_def)
  show ?thesis
    by (cases "ValidateTopicFilter f = None") (auto simp: CanSubscribe_def anyCovers_exact [OF _ v] perms)
qed

lemma CanUseClientID_New:
  assumes "Auth_New procs users = Inr l"
  shows "CanUseClientID i c l \<longleftrightarrow> (\<exists>u \<in> set users. uUsername u = i \<and> c \<in> set (uClientIDs u))"
  using permissions_New(3) [OF assms, of i] by (auto simp: CanUseClientID_def list_ex_iff)

lemma CanUseClientID_unique:
  assumes "Auth_New procs users = Inr l" and "CanUseClientID i c l" and "CanUseClientID j c l"
  shows "i = j"
proof -
  from assms(1) have "distinct (concat (map uClientIDs users))" by (simp add: Auth_New_iff users_ok_def)
  from concat_distinct_owner [OF this] assms(2,3) show ?thesis
    unfolding CanUseClientID_New [OF assms(1)] by blast
qed

text \<open>
  C15: the policy built by \<^verbatim>\<open>New\<close> decides exactly what the configuration grants. \<^verbatim>\<open>CanPublish\<close> holds for
  a valid topic name matched by a publish filter of that user, \<^verbatim>\<open>CanSubscribe\<close> for a valid filter all
  of whose topics lie within one subscribe filter of that user (and it never panics), \<^verbatim>\<open>CanUseClientID\<close>
  for the client identifiers listed for that user, which no other user has.
\<close>

theorem policy_exact:
  assumes "Auth_New procs users = Inr l"
  shows "(CanPublish i t l \<longleftrightarrow>
      validateTopicName t = None \<and> (\<exists>u \<in> set users. uUsername u = i \<and> (\<exists>a \<in> set (uPublish u). MatchFilter a t)))
    \<and> CanSubscribe i f l = Some (ValidateTopicFilter f = None \<and>
      (\<exists>u \<in> set users. uUsername u = i \<and> (\<exists>a \<in> set (uSubscribe u).
         \<forall>t. validateTopicName t = None \<and> MatchFilter f t \<longrightarrow> MatchFilter a t)))
    \<and> (CanUseClientID i c l \<longleftrightarrow> (\<exists>u \<in> set users. uUsername u = i \<and> c \<in> set (uClientIDs u)))
    \<and> (CanUseClientID i c l \<and> CanUseClientID j c l \<longrightarrow> i = j)"
  by (intro conjI impI CanPublish_New [OF assms] CanSubscribe_New [OF assms] CanUseClientID_New [OF assms],
      elim conjE, rule CanUseClientID_unique [OF assms])

definition users_ex :: "User list" where
  "users_ex = [\<lparr>uUsername = ''u'',
     uPasswordHash = ''pbkdf2-sha256$600000$'' @ b64Encode (replicate 16 7) @ ''$'' @ b64Encode (replicate 32 9),
     uClientIDs = [''c''], uPublish = [''p/#''], uSubscribe = [''s/+'']\<rparr>]"

definition policy_ex :: Local where
  "policy_ex = \<lparr>lUsers = map userEntry users_ex, lSlots = 0, lCapacity = 2,
     lDummy = \<lparr>phSalt = replicate 16 0, phKey = replicate 32 0\<rparr>\<rparr>"

lemma parse_users_ex: "parsePasswordHash (uPasswordHash (users_ex ! 0)) = Inr \<lparr>phSalt = replicate 16 7, phKey = replicate 32 9\<rparr>"
  unfolding users_ex_def nth_Cons_0 User.simps by (rule parsePasswordHash_encoded) simp_all

lemma Auth_New_ex: "Auth_New 2 users_ex = Inr policy_ex"
  using parse_users_ex
  by (auto simp: Auth_New_iff policy_ex_def users_ok_def user_ok_def users_ex_def validName_def topic_run upt_rec)

theorem policy_exact_witness:
  "Auth_New 2 users_ex = Inr policy_ex \<and> CanPublish ''u'' ''p/1'' policy_ex \<and> \<not> CanPublish ''u'' ''s/1'' policy_ex
   \<and> CanUseClientID ''u'' ''c'' policy_ex \<and> \<not> CanUseClientID ''v'' ''c'' policy_ex"
proof -
  have "validateTopicName ''p/1'' = None" "MatchFilter ''p/#'' ''p/1''" "\<not> MatchFilter ''p/#'' ''s/1''"
    by (simp_all add: topic_run MatchFilter_def)
  then show ?thesis
    using Auth_New_ex policy_exact [OF Auth_New_ex, of "''u''" "''p/1''" "''#''" "''c''" "''u''"]
      policy_exact [OF Auth_New_ex, of "''u''" "''s/1''" "''#''" "''c''" "''v''"]
      policy_exact [OF Auth_New_ex, of "''v''" "''s/1''" "''#''" "''c''" "''v''"]
    by (simp add: users_ex_def)
qed

text \<open>
  C35: \<^verbatim>\<open>New\<close> accepts exactly the valid configurations: at least one user, distinct valid usernames,
  parsable password hashes, valid permission filters, and for each user at least one valid client
  identifier, no identifier occurring twice in the whole configuration.
\<close>

theorem New_exact:
  "(\<exists>l. Auth_New procs users = Inr l) \<longleftrightarrow>
     users \<noteq> [] \<and> distinct (map uUsername users) \<and> distinct (concat (map uClientIDs users))
     \<and> (\<forall>u \<in> set users. user_ok u)"
  by (auto simp: Auth_New_iff users_ok_def)

theorem New_exact_witness: "\<exists>l. Auth_New 2 users_ex = Inr l"
proof -
  have "user_ok (users_ex ! 0)" using Auth_New_ex by (simp add: Auth_New_iff users_ok_def users_ex_def)
  then show ?thesis unfolding New_exact by (simp add: users_ex_def)
qed

section \<open>Authentication outcomes\<close>


end
