(* ===== verification/Client.thy ===== *)
theory Client
  imports Prelude
begin

text \<open>
  The client side of a connection (\<^verbatim>\<open>internal/client/client.go\<close>): a bounded queue of packets, a writer
  goroutine that puts them on the connection one at a time, and callers that either enqueue or wait for
  their packet to be written.

  The channels are part of the state: \<^verbatim>\<open>sendQ\<close> is a list of at most 1024 writes, \<^verbatim>\<open>done\<close> and
  \<^verbatim>\<open>writeDone\<close> are flags that only become true, and the one-place result channels of \<^verbatim>\<open>Send\<close> have
  addresses, with the map \<open>clResults\<close> from addresses to the value sent.  \<open>clSent\<close> is the stream of
  bytes the connection has taken and \<open>clWrites\<close> the number of iterations of the writer.  A step of
  the writer is parameterised by what the clock and the connection do in it.  Both \<^verbatim>\<open>select\<close> statements
  of \<^verbatim>\<open>enqueue\<close> are one transition: a \<^verbatim>\<open>Close\<close> that falls between them commutes with the send.
\<close>

section \<open>State\<close>

record queued_write =
  wData :: "byte list"
  wResult :: "nat option"
  wDeadline :: "int option"

record client =
  clID :: string
  clSendQ :: "queued_write list"
  clDone :: bool
  clWriteDone :: bool
  clWriteTimeout :: int
  clResults :: "(nat \<times> error option) list"
  clNextResult :: nat
  clSent :: "byte list"
  clWrites :: nat

text \<open>One iteration of the writer sees the clock and a connection.\<close>

record conn_behaviour =
  bNow :: int
  bSetWriteDeadline :: "int \<Rightarrow> error option"
  bWrite :: "byte list \<Rightarrow> nat \<times> error option"

definition sendQCapacity :: nat where
  "sendQCapacity = 1024"

section \<open>Operations\<close>

definition Client_New :: "string \<Rightarrow> client" where
  "Client_New i = \<lparr>clID = i, clSendQ = [], clDone = False, clWriteDone = False, clWriteTimeout = 30 * 10 ^ 9,
     clResults = [], clNextResult = 0, clSent = [], clWrites = 0\<rparr>"

definition SetWriteTimeout :: "int \<Rightarrow> client \<Rightarrow> error option \<times> client" where
  "SetWriteTimeout timeout c =
     (if timeout \<le> 0 then (Some (New ''write timeout must be positive''), c) else (None, c\<lparr>clWriteTimeout := timeout\<rparr>))"

definition enqueue :: "queued_write \<Rightarrow> client \<Rightarrow> error option \<times> client" where
  "enqueue write c =
     (if clDone c then (Some ErrClosed, c)
      else if length (clSendQ c) < sendQCapacity then (None, c\<lparr>clSendQ := clSendQ c @ [write]\<rparr>)
      else (Some ErrClientQueueFull, c))"

definition Enqueue :: "byte list \<Rightarrow> client \<Rightarrow> error option \<times> client" where
  "Enqueue d c = enqueue \<lparr>wData = d, wResult = None, wDeadline = None\<rparr> c"

definition Close :: "client \<Rightarrow> client" where
  "Close c = c\<lparr>clDone := True\<rparr>"

definition writeDeadline :: "int \<Rightarrow> int \<Rightarrow> int option \<Rightarrow> int" where
  "writeDeadline now timeout dl =
     (let deadline = now + timeout
      in case dl of None \<Rightarrow> deadline | Some w \<Rightarrow> if w < deadline then w else deadline)"

text \<open>The body of \<^verbatim>\<open>writeLoop\<close> for a write taken from the queue.\<close>

definition writeOne :: "conn_behaviour \<Rightarrow> client \<Rightarrow> client" where
  "writeOne b c =
     (case clSendQ c of
        [] \<Rightarrow> c
      | write # q \<Rightarrow>
          let deadline = writeDeadline (bNow b) (clWriteTimeout c) (wDeadline write);
              err = bSetWriteDeadline b deadline;
              (n, err) = (if err = None then bWrite b (wData write) else (0, err));
              err = (if err = None \<and> n \<noteq> length (wData write) then Some ErrShortWrite else err);
              c = c\<lparr>clSendQ := q, clSent := clSent c @ take n (wData write), clWrites := clWrites c + 1\<rparr>;
              c = (case wResult write of None \<Rightarrow> c | Some r \<Rightarrow> c\<lparr>clResults := AList.update r err (clResults c)\<rparr>)
          in if err \<noteq> None then (Close c)\<lparr>clWriteDone := True\<rparr> else c)"

text \<open>
  The two halves of \<^verbatim>\<open>SendWithDeadline\<close>: queueing with a fresh result channel, and the wait. A value in
  the result channel is preferred to a closed connection; \<open>None\<close> means that the caller is blocked.
\<close>

definition sendStart :: "byte list \<Rightarrow> int option \<Rightarrow> client \<Rightarrow> nat result \<times> client" where
  "sendStart d deadline c =
     (let r = clNextResult c
      in case enqueue \<lparr>wData = d, wResult = Some r, wDeadline = deadline\<rparr> (c\<lparr>clNextResult := r + 1\<rparr>) of
           (Some e, c) \<Rightarrow> (Inl e, c)
         | (None, c) \<Rightarrow> (Inr r, c))"

definition sendResult :: "nat \<Rightarrow> client \<Rightarrow> error option option" where
  "sendResult r c =
     (case map_of (clResults c) r of
        Some err \<Rightarrow> Some err
      | None \<Rightarrow> if clDone c then Some (Some ErrClosed) else None)"

text \<open>
  The whole call, against an environment \<open>net\<close>: while the caller waits, the writer handles the queue
  in order, and \<open>net k\<close> says how its iteration \<open>k\<close> goes, or \<open>None\<close> when another goroutine closes the
  client before that iteration.  A caller with a result pending never sees an idle writer.
\<close>

function sendWait :: "(nat \<Rightarrow> conn_behaviour option) \<Rightarrow> nat \<Rightarrow> client \<Rightarrow> error option \<times> client" where
  "sendWait net r c =
     (case sendResult r c of
        Some err \<Rightarrow> (err, c)
      | None \<Rightarrow>
          if clSendQ c = [] then (Some ErrClosed, c)
          else (case net (clWrites c) of
                  None \<Rightarrow> sendWait net r (Close c)
                | Some b \<Rightarrow> sendWait net r (writeOne b c)))"
  by pat_completeness auto
termination
proof (relation "measure (\<lambda>(net, r, c). length (clSendQ c) + (if clDone c then 0 else 1))")
  show "wf (measure (\<lambda>(net, r, c). length (clSendQ c) + (if clDone c then 0 else 1)))" by simp
next
  fix net r c
  assume "sendResult r c = None" "clSendQ c \<noteq> []"
  then show "((net, r, Close c), net, r, c) \<in> measure (\<lambda>(net, r, c). length (clSendQ c) + (if clDone c then 0 else 1))"
    by (auto simp: sendResult_def Close_def split: option.splits if_splits)
next
  fix net r c b
  assume "sendResult r c = None" "clSendQ c \<noteq> []"
  then show "((net, r, writeOne b c), net, r, c) \<in> measure (\<lambda>(net, r, c). length (clSendQ c) + (if clDone c then 0 else 1))"
    by (auto simp: sendResult_def writeOne_def Close_def Let_def neq_Nil_conv split: option.splits if_splits prod.splits)
qed

declare sendWait.simps [simp del]

definition SendWithDeadline ::
  "(nat \<Rightarrow> conn_behaviour option) \<Rightarrow> byte list \<Rightarrow> int option \<Rightarrow> client \<Rightarrow> error option \<times> client" where
  "SendWithDeadline net d deadline c =
     (case sendStart d deadline c of
        (Inl e, c) \<Rightarrow> (Some e, c)
      | (Inr r, c) \<Rightarrow> sendWait net r c)"

definition Send :: "(nat \<Rightarrow> conn_behaviour option) \<Rightarrow> byte list \<Rightarrow> client \<Rightarrow> error option \<times> client" where
  "Send net d c = SendWithDeadline net d None c"

section \<open>Runs\<close>

text \<open>
  \<open>client_run i c ws\<close>: the calls of all goroutines and the steps of the writer have led from a new
  client to \<open>c\<close>, and \<open>ws\<close> are the writes the queue has accepted, in order.
\<close>

inductive client_run :: "string \<Rightarrow> client \<Rightarrow> queued_write list \<Rightarrow> bool" for i where
  new: "client_run i (Client_New i) []"
| timeout: "client_run i c ws \<Longrightarrow> client_run i (snd (SetWriteTimeout t c)) ws"
| enq: "client_run i c ws \<Longrightarrow> Enqueue d c = (None, c') \<Longrightarrow>
    client_run i c' (ws @ [\<lparr>wData = d, wResult = None, wDeadline = None\<rparr>])"
| send: "client_run i c ws \<Longrightarrow> sendStart d dl c = (Inr r, c') \<Longrightarrow>
    client_run i c' (ws @ [\<lparr>wData = d, wResult = Some r, wDeadline = dl\<rparr>])"
| refused: "client_run i c ws \<Longrightarrow> sendStart d dl c = (Inl e, c') \<Longrightarrow> client_run i c' ws"
| close: "client_run i c ws \<Longrightarrow> client_run i (Close c) ws"
| writer: "client_run i c ws \<Longrightarrow> \<not> clWriteDone c \<Longrightarrow> clSendQ c \<noteq> [] \<Longrightarrow> client_run i (writeOne b c) ws"
| exit: "client_run i c ws \<Longrightarrow> clDone c \<Longrightarrow> client_run i (c\<lparr>clWriteDone := True\<rparr>) ws"

section \<open>What is on the wire\<close>

definition tickets :: "queued_write list \<Rightarrow> nat list" where
  "tickets ws = concat (map (\<lambda>w. case wResult w of None \<Rightarrow> [] | Some r \<Rightarrow> [r]) ws)"

lemma tickets_append [simp]: "tickets (xs @ ys) = tickets xs @ tickets ys"
  by (simp add: tickets_def)

lemma tickets_simps [simp]:
  "tickets [] = []" "tickets (w # ws) = (case wResult w of None \<Rightarrow> [] | Some r \<Rightarrow> [r]) @ tickets ws"
  by (simp_all add: tickets_def)

lemma in_tickets: "r \<in> set (tickets ws) \<longleftrightarrow> (\<exists>w \<in> set ws. wResult w = Some r)"
  by (induction ws) (auto split: option.splits)

text \<open>
  The accepted writes are those written completely, at most one that failed, and those still queued.
\<close>

definition stream_ok :: "client \<Rightarrow> queued_write list \<Rightarrow> queued_write list \<Rightarrow> queued_write list \<Rightarrow> bool" where
  "stream_ok c ws sent rest \<longleftrightarrow> ws = sent @ rest @ clSendQ c \<and> length rest \<le> 1
     \<and> (\<exists>n. clSent c = concat (map wData sent) @ (case rest of [] \<Rightarrow> [] | w # _ \<Rightarrow> take n (wData w)))
     \<and> (rest \<noteq> [] \<longrightarrow> clDone c \<and> clWriteDone c)"

definition results_ok :: "client \<Rightarrow> queued_write list \<Rightarrow> queued_write list \<Rightarrow> queued_write list \<Rightarrow> bool" where
  "results_ok c ws sent rest \<longleftrightarrow> distinct (tickets ws) \<and> (\<forall>r \<in> set (tickets ws). r < clNextResult c)
     \<and> (\<forall>r. map_of (clResults c) r = Some None \<longleftrightarrow> r \<in> set (tickets sent))
     \<and> (\<forall>r. map_of (clResults c) r \<noteq> None \<longleftrightarrow> r \<in> set (tickets (sent @ rest)))"

definition client_ok :: "client \<Rightarrow> queued_write list \<Rightarrow> bool" where
  "client_ok c ws \<longleftrightarrow> (\<exists>sent rest. stream_ok c ws sent rest \<and> results_ok c ws sent rest)
     \<and> length (clSendQ c) \<le> sendQCapacity \<and> (clWriteDone c \<longrightarrow> clDone c)"

lemma client_okI:
  "stream_ok c ws sent rest \<Longrightarrow> results_ok c ws sent rest \<Longrightarrow> length (clSendQ c) \<le> sendQCapacity \<Longrightarrow>
   (clWriteDone c \<Longrightarrow> clDone c) \<Longrightarrow> client_ok c ws"
  unfolding client_ok_def by blast

lemma client_ok_frame:
  assumes "client_ok c ws"
    and "clSendQ c' = clSendQ c" "clSent c' = clSent c" "clResults c' = clResults c" "clNextResult c \<le> clNextResult c'"
    and "clDone c \<Longrightarrow> clDone c'" "clWriteDone c \<Longrightarrow> clWriteDone c'" "clWriteDone c' \<Longrightarrow> clDone c'"
  shows "client_ok c' ws"
proof -
  from assms(1) obtain sent rest where o: "stream_ok c ws sent rest" "results_ok c ws sent rest"
    and q: "length (clSendQ c) \<le> sendQCapacity" by (auto simp: client_ok_def)
  from o(1) assms have "stream_ok c' ws sent rest" by (auto simp: stream_ok_def)
  moreover from o(2) assms(4,5) have "results_ok c' ws sent rest"
    unfolding results_ok_def by (metis order_less_le_trans)
  ultimately show ?thesis using q assms by (intro client_okI) auto
qed

lemma client_ok_accept:
  assumes "client_ok c ws" and "\<not> clDone c" and "length (clSendQ c) < sendQCapacity"
    and "\<And>r. wResult w = Some r \<Longrightarrow> clNextResult c \<le> r \<and> r < k" and "clNextResult c \<le> k"
  shows "client_ok (c\<lparr>clNextResult := k, clSendQ := clSendQ c @ [w]\<rparr>) (ws @ [w])"
proof -
  from assms(1,2) obtain sent rest where o: "stream_ok c ws sent rest" "results_ok c ws sent rest"
    and d: "\<not> clWriteDone c" by (auto simp: client_ok_def)
  from o(1) assms(2) have r: "rest = []" by (auto simp: stream_ok_def)
  with o(1) have "stream_ok (c\<lparr>clNextResult := k, clSendQ := clSendQ c @ [w]\<rparr>) (ws @ [w]) sent []"
    by (simp add: stream_ok_def)
  moreover have "results_ok (c\<lparr>clNextResult := k, clSendQ := clSendQ c @ [w]\<rparr>) (ws @ [w]) sent []"
    using o(2) assms(4,5) unfolding results_ok_def r
    by (auto split: option.splits dest: order_less_le_trans)
  ultimately show ?thesis using assms(3) d by (intro client_okI) auto
qed

lemma writeOne_eq:
  assumes "clSendQ c = w # q"
  obtains n err where "writeOne b c =
      (let c' = c\<lparr>clSendQ := q, clSent := clSent c @ take n (wData w), clWrites := clWrites c + 1,
                  clResults := (case wResult w of None \<Rightarrow> clResults c | Some r \<Rightarrow> AList.update r err (clResults c))\<rparr>
       in if err \<noteq> None then c'\<lparr>clDone := True, clWriteDone := True\<rparr> else c')"
    and "err = None \<Longrightarrow> n = length (wData w)"
proof -
  define e0 where "e0 = bSetWriteDeadline b (writeDeadline (bNow b) (clWriteTimeout c) (wDeadline w))"
  obtain n e1 where p: "(if e0 = None then bWrite b (wData w) else (0, e0)) = (n, e1)" by fastforce
  define err where "err = (if e1 = None \<and> n \<noteq> length (wData w) then Some ErrShortWrite else e1)"
  have "writeOne b c =
      (let c' = c\<lparr>clSendQ := q, clSent := clSent c @ take n (wData w), clWrites := clWrites c + 1,
                  clResults := (case wResult w of None \<Rightarrow> clResults c | Some r \<Rightarrow> AList.update r err (clResults c))\<rparr>
       in if err \<noteq> None then c'\<lparr>clDone := True, clWriteDone := True\<rparr> else c')"
    unfolding writeOne_def assms list.case Let_def e0_def [symmetric] p prod.case err_def [symmetric] Close_def
    by (cases "wResult w"; cases err) simp_all
  moreover have "err = None \<Longrightarrow> n = length (wData w)" by (simp add: err_def split: if_splits)
  ultimately show thesis by (rule that)
qed

lemma client_ok_writeOne:
  assumes "client_ok c ws" and "\<not> clWriteDone c"
  shows "client_ok (writeOne b c) ws"
proof (cases "clSendQ c")
  case Nil
  with assms(1) show ?thesis by (simp add: writeOne_def)
next
  case (Cons w q)
  from assms obtain sent rest where o: "stream_ok c ws sent rest" "results_ok c ws sent rest"
    and l: "length (clSendQ c) \<le> sendQCapacity" by (auto simp: client_ok_def)
  from o(1) assms(2) have r: "rest = []" by (auto simp: stream_ok_def)
  from writeOne_eq [OF Cons, of b] obtain n err where e: "writeOne b c =
      (let c' = c\<lparr>clSendQ := q, clSent := clSent c @ take n (wData w), clWrites := clWrites c + 1,
                  clResults := (case wResult w of None \<Rightarrow> clResults c | Some r \<Rightarrow> AList.update r err (clResults c))\<rparr>
       in if err \<noteq> None then c'\<lparr>clDone := True, clWriteDone := True\<rparr> else c')"
    and n: "err = None \<Longrightarrow> n = length (wData w)" by metis
  let ?sent = "if err = None then sent @ [w] else sent" and ?rest = "if err = None then [] else [w]"
  have "stream_ok (writeOne b c) ws ?sent ?rest"
    using o(1) n Cons unfolding stream_ok_def e Let_def r by auto
  moreover have "results_ok (writeOne b c) ws ?sent ?rest"
  proof -
    have ws: "ws = sent @ w # q" using o(1) Cons r by (simp add: stream_ok_def)
    show ?thesis using o(2) unfolding results_ok_def e Let_def r ws
      by (cases err) (auto simp: map_of_update_iff split: option.splits if_splits)
  qed
  ultimately show ?thesis using l Cons assms(2) by (intro client_okI) (auto simp: e Let_def)
qed

lemma client_run_ok: "client_run i c ws \<Longrightarrow> client_ok c ws"
proof (induction rule: client_run.induct)
  case new
  show ?case
    by (rule client_okI [of _ _ "[]" "[]"]) (simp_all add: stream_ok_def results_ok_def Client_New_def)
next
  case (timeout c ws t)
  then show ?case
    by (intro client_ok_frame [OF timeout.IH]) (auto simp: SetWriteTimeout_def client_ok_def split: if_splits)
next
  case (enq c ws d c')
  then show ?case
    using client_ok_accept [OF enq.IH, of "\<lparr>wData = d, wResult = None, wDeadline = None\<rparr>" "clNextResult c"]
    by (auto simp: Enqueue_def enqueue_def split: if_splits)
next
  case (send c ws d dl r c')
  then show ?case
    using client_ok_accept [OF send.IH, of "\<lparr>wData = d, wResult = Some (clNextResult c), wDeadline = dl\<rparr>" "clNextResult c + 1"]
    by (auto simp: sendStart_def enqueue_def Let_def split: if_splits)
next
  case (refused c ws d dl e c')
  then show ?case
    by (intro client_ok_frame [OF refused.IH])
       (auto simp: sendStart_def enqueue_def Let_def client_ok_def split: if_splits)
next
  case (close c ws)
  show ?case by (intro client_ok_frame [OF close.IH]) (auto simp: Close_def)
next
  case (writer c ws b)
  then show ?case by (simp add: client_ok_writeOne)
next
  case (exit c ws)
  then show ?case by (intro client_ok_frame [OF exit.IH]) auto
qed


definition goodConn :: conn_behaviour where
  "goodConn = \<lparr>bNow = 0, bSetWriteDeadline = (\<lambda>_. None), bWrite = (\<lambda>d. (length d, None))\<rparr>"


section \<open>Waiting for a write\<close>

lemma writeOne_shrinks: "clSendQ c \<noteq> [] \<Longrightarrow> clSendQ (writeOne b c) = tl (clSendQ c)"
  by (cases "clSendQ c"; cases "wResult (hd (clSendQ c))")
     (auto simp: writeOne_def Let_def Close_def split: prod.splits)

text \<open>While a result is outstanding the queue is not empty, so the caller never sees an idle writer.\<close>

lemma waiting_not_idle:
  assumes "client_run i c ws" and "w \<in> set ws" and "wResult w = Some r" and "sendResult r c = None"
  shows "\<not> clDone c \<and> w \<in> set (clSendQ c)"
proof -
  from client_run_ok [OF assms(1)] obtain sent rest where s: "stream_ok c ws sent rest" and o: "results_ok c ws sent rest"
    by (auto simp: client_ok_def)
  from assms(4) have "map_of (clResults c) r = None" and d: "\<not> clDone c"
    by (auto simp: sendResult_def split: option.splits if_splits)
  moreover from o have "map_of (clResults c) r \<noteq> None \<longleftrightarrow> r \<in> set (tickets (sent @ rest))"
    unfolding results_ok_def by blast
  ultimately have "r \<notin> set (tickets (sent @ rest))" by blast
  with assms(3) have "w \<notin> set (sent @ rest)" by (auto simp: in_tickets simp del: tickets_append)
  with s assms(2) d show ?thesis by (auto simp: stream_ok_def)
qed

lemma sendWait_spec:
  assumes "client_run i c ws" and "w \<in> set ws" and "wResult w = Some r"
  shows "\<exists>err c'. sendWait net r c = (err, c') \<and> client_run i c' ws \<and> sendResult r c' = Some err"
  using assms
proof (induction net r c rule: sendWait.induct)
  case (1 net r c)
  show ?case
  proof (cases "sendResult r c")
    case (Some err)
    then show ?thesis using "1.prems" by (subst sendWait.simps) auto
  next
    case None
    from waiting_not_idle [OF "1.prems" None] have q: "clSendQ c \<noteq> []" and d: "\<not> clDone c" by auto
    from client_run_ok [OF "1.prems"(1)] d have wd: "\<not> clWriteDone c" by (auto simp: client_ok_def)
    show ?thesis
    proof (cases "net (clWrites c)")
      case N: None
      from "1.IH"(1) [OF None q N client_run.close [OF "1.prems"(1)] "1.prems"(2,3)] show ?thesis
        by (subst sendWait.simps) (simp add: None q N)
    next
      case B: (Some b)
      from "1.IH"(2) [OF None q B client_run.writer [OF "1.prems"(1) wd q] "1.prems"(2,3)] show ?thesis
        by (subst sendWait.simps) (simp add: None q B)
    qed
  qed
qed



end
