(* ===== verification/Connections.thy ===== *)
theory Connections
  imports Prelude
begin

text \<open>
  Connection admission (\<^verbatim>\<open>internal/server/server.go\<close>, \<^verbatim>\<open>connectionGroup\<close>): the set of open connections,
  the number still in their handshake, the wait group of their handlers and the rejection counters.  A
  \<^verbatim>\<open>net.Conn\<close> is an address; \<^verbatim>\<open>Accept\<close> returns one that is not in use.  Every method holds the group's
  mutex, so each is a state transition, and \<open>finishConnection\<close> is the deferred part of the handler
  goroutine that \<^verbatim>\<open>start\<close> launches.
\<close>

section \<open>State\<close>

record connection_limits =
  MaxConnections :: int
  MaxHandshakes :: int

definition DefaultConnectionLimits :: connection_limits where
  "DefaultConnectionLimits = \<lparr>MaxConnections = 10000, MaxHandshakes = 1000\<rparr>"

definition ConnectionLimits_Validate :: "connection_limits \<Rightarrow> error option" where
  "ConnectionLimits_Validate l =
     (if MaxConnections l \<le> 0 \<or> MaxHandshakes l \<le> 0 \<or> MaxHandshakes l > MaxConnections l
      then Some (New ''invalid connection limits'') else None)"

record server_snapshot =
  nAuthenticationRejections :: u64
  nAuthorizationRejections :: u64
  nConnections :: int
  nHandshakes :: int
  nConnectionRejections :: u64
  nHandshakeRejections :: u64

record connection_group =
  gConnections :: "(nat \<times> bool) list"
  gHandlers :: int
  gStats :: server_snapshot

definition newGroup :: connection_group where
  "newGroup = \<lparr>gConnections = [], gHandlers = 0,
     gStats = \<lparr>nAuthenticationRejections = 0, nAuthorizationRejections = 0, nConnections = 0, nHandshakes = 0,
       nConnectionRejections = 0, nHandshakeRejections = 0\<rparr>\<rparr>"

section \<open>Operations\<close>

text \<open>
  What \<^verbatim>\<open>start\<close> does with the connection: it stops accepting, rejects and closes it, or runs a handler.
  The first two close the connection; only the first returns false.
\<close>

datatype admission = Stopped | Rejected | Started

definition startConnection ::
  "error option \<Rightarrow> nat \<Rightarrow> connection_limits \<Rightarrow> connection_group \<Rightarrow> admission \<times> connection_group" where
  "startConnection ctxErr conn l g =
     (if ctxErr \<noteq> None then (Stopped, g)
      else if int (length (gConnections g)) \<ge> MaxConnections l \<or> nHandshakes (gStats g) \<ge> MaxHandshakes l
      then (Rejected, g\<lparr>gStats :=
             (if int (length (gConnections g)) \<ge> MaxConnections l
              then (gStats g)\<lparr>nConnectionRejections := nConnectionRejections (gStats g) + 1\<rparr>
              else (gStats g)\<lparr>nHandshakeRejections := nHandshakeRejections (gStats g) + 1\<rparr>)\<rparr>)
      else (Started, g\<lparr>gConnections := AList.update conn True (gConnections g), gHandlers := gHandlers g + 1,
             gStats := (gStats g)\<lparr>nHandshakes := nHandshakes (gStats g) + 1\<rparr>\<rparr>))"

text \<open>Reading a Go map at a missing key gives false.\<close>

definition inHandshake :: "connection_group \<Rightarrow> nat \<Rightarrow> bool" where
  "inHandshake g conn \<longleftrightarrow> map_of (gConnections g) conn = Some True"

definition finishConnection :: "nat \<Rightarrow> connection_group \<Rightarrow> connection_group" where
  "finishConnection conn g =
     (let g = (if inHandshake g conn then g\<lparr>gStats := (gStats g)\<lparr>nHandshakes := nHandshakes (gStats g) - 1\<rparr>\<rparr> else g)
      in g\<lparr>gConnections := AList.delete conn (gConnections g), gHandlers := gHandlers g - 1\<rparr>)"

definition completeHandshake :: "nat \<Rightarrow> connection_group \<Rightarrow> connection_group" where
  "completeHandshake conn g =
     (if inHandshake g conn
      then g\<lparr>gConnections := AList.update conn False (gConnections g),
             gStats := (gStats g)\<lparr>nHandshakes := nHandshakes (gStats g) - 1\<rparr>\<rparr>
      else g)"

text \<open>The connections that \<^verbatim>\<open>closeAll\<close> closes, and whether \<^verbatim>\<open>wait\<close> returns.\<close>

definition closeAll :: "connection_group \<Rightarrow> nat list" where
  "closeAll g = map fst (gConnections g)"

definition waitReturns :: "connection_group \<Rightarrow> bool" where
  "waitReturns g \<longleftrightarrow> gHandlers g = 0"

definition recordRejection :: "bool \<Rightarrow> connection_group \<Rightarrow> connection_group" where
  "recordRejection authorization g =
     g\<lparr>gStats := (if authorization
        then (gStats g)\<lparr>nAuthorizationRejections := nAuthorizationRejections (gStats g) + 1\<rparr>
        else (gStats g)\<lparr>nAuthenticationRejections := nAuthenticationRejections (gStats g) + 1\<rparr>)\<rparr>"

definition group_Snapshot :: "connection_group \<Rightarrow> server_snapshot" where
  "group_Snapshot g = (gStats g)\<lparr>nConnections := int (length (gConnections g))\<rparr>"

section \<open>Invariant\<close>

definition handshaking :: "(nat \<times> bool) list \<Rightarrow> int" where
  "handshaking m = (\<Sum>(c, b) \<leftarrow> m. if b then 1 else 0)"

definition group_ok :: "connection_limits \<Rightarrow> connection_group \<Rightarrow> bool" where
  "group_ok l g \<longleftrightarrow> wf_map (gConnections g) \<and> nHandshakes (gStats g) = handshaking (gConnections g)
     \<and> gHandlers g = int (length (gConnections g))
     \<and> int (length (gConnections g)) \<le> MaxConnections l \<and> nHandshakes (gStats g) \<le> MaxHandshakes l"

lemma handshaking_update:
  "wf_map m \<Longrightarrow> handshaking (AList.update c b m) =
     handshaking m + (if b then 1 else 0) - (if map_of m c = Some True then 1 else 0)"
  unfolding handshaking_def
  using sum_list_update_alist [of m "\<lambda>b. if b then 1 else 0" c b] by (auto split: option.splits)

lemma handshaking_delete:
  "wf_map m \<Longrightarrow> handshaking (AList.delete c m) = handshaking m - (if map_of m c = Some True then 1 else 0)"
  unfolding handshaking_def
  using sum_list_delete_alist [of m "\<lambda>b. if b then 1 else 0" c] by (auto split: option.splits)

text \<open>
  The group is used by the accept loop and the handlers: a connection is started when it is new and
  finished once, while the handshake of a started connection may complete at any time.
\<close>

inductive group_reachable :: "connection_limits \<Rightarrow> connection_group \<Rightarrow> bool" for l where
  new: "ConnectionLimits_Validate l = None \<Longrightarrow> group_reachable l newGroup"
| start: "group_reachable l g \<Longrightarrow> conn \<notin> fst ` set (gConnections g) \<Longrightarrow>
    group_reachable l (snd (startConnection ctxErr conn l g))"
| handshake: "group_reachable l g \<Longrightarrow> group_reachable l (completeHandshake conn g)"
| finish: "group_reachable l g \<Longrightarrow> conn \<in> fst ` set (gConnections g) \<Longrightarrow> group_reachable l (finishConnection conn g)"
| rejection: "group_reachable l g \<Longrightarrow> group_reachable l (recordRejection a g)"

lemma startConnection_ok:
  assumes "group_ok l g" and "conn \<notin> fst ` set (gConnections g)"
  shows "group_ok l (snd (startConnection ctxErr conn l g))"
proof -
  from assms(2) have "map_of (gConnections g) conn = None" by (simp add: map_of_eq_None_iff)
  with assms(1) show ?thesis
    by (auto simp: startConnection_def group_ok_def handshaking_update length_update_alist wf_map_update)
qed

lemma completeHandshake_ok: "group_ok l g \<Longrightarrow> group_ok l (completeHandshake conn g)"
  by (auto simp: completeHandshake_def inHandshake_def group_ok_def handshaking_update length_update_alist wf_map_update)

lemma finishConnection_ok:
  assumes "group_ok l g" and "conn \<in> fst ` set (gConnections g)"
  shows "group_ok l (finishConnection conn g)"
proof -
  let ?m = "gConnections g"
  from assms(2) obtain b where b: "map_of ?m conn = Some b" by (cases "map_of ?m conn") (auto simp: map_of_eq_None_iff)
  then have "int (length (AList.delete conn ?m)) = int (length ?m) - 1"
    using assms(1) by (simp add: group_ok_def length_delete_present)
  with assms(1) b show ?thesis
    by (cases b) (auto simp: finishConnection_def Let_def inHandshake_def group_ok_def handshaking_delete wf_map_delete)
qed

lemma group_reachable_ok: "group_reachable l g \<Longrightarrow> group_ok l g"
proof (induction rule: group_reachable.induct)
  case new
  then show ?case by (auto simp: group_ok_def newGroup_def handshaking_def ConnectionLimits_Validate_def split: if_splits)
next
  case (rejection g a)
  then show ?case by (simp add: recordRejection_def group_ok_def)
qed (simp_all add: startConnection_ok completeHandshake_ok finishConnection_ok)

text \<open>
  C39: connections and handshakes stay within their limits in every reachable state, the counters of
  the snapshot are exact, shutdown closes every open connection and \<^verbatim>\<open>wait\<close> returns exactly when all of
  them have finished. A connection is started exactly when both budgets have room; otherwise it is
  closed and counted under the budget that is exhausted, connections first.
\<close>

theorem connection_budget:
  assumes "group_reachable l g"
  shows "nConnections (group_Snapshot g) = int (length (gConnections g))
    \<and> nHandshakes (group_Snapshot g) = int (length (filter snd (gConnections g)))
    \<and> nConnections (group_Snapshot g) \<le> MaxConnections l \<and> nHandshakes (group_Snapshot g) \<le> MaxHandshakes l
    \<and> set (closeAll g) = fst ` set (gConnections g) \<and> (waitReturns g \<longleftrightarrow> gConnections g = [])
    \<and> (fst (startConnection None conn l g) = Started \<longleftrightarrow>
         int (length (gConnections g)) < MaxConnections l \<and> int (length (filter snd (gConnections g))) < MaxHandshakes l)
    \<and> (fst (startConnection None conn l g) = Rejected \<longrightarrow>
         nConnectionRejections (gStats (snd (startConnection None conn l g))) + nHandshakeRejections (gStats (snd (startConnection None conn l g)))
         = nConnectionRejections (gStats g) + nHandshakeRejections (gStats g) + 1)"
proof -
  have h: "handshaking m = int (length (filter snd m))" for m
    by (induction m) (auto simp: handshaking_def)
  from group_reachable_ok [OF assms] show ?thesis
    by (auto simp: group_ok_def group_Snapshot_def startConnection_def closeAll_def waitReturns_def h not_le)
qed

theorem connection_budget_witness:
  "nHandshakes (group_Snapshot (snd (startConnection None 7 \<lparr>MaxConnections = 1, MaxHandshakes = 1\<rparr> newGroup))) = 1
   \<and> fst (startConnection None 8 \<lparr>MaxConnections = 1, MaxHandshakes = 1\<rparr>
       (snd (startConnection None 7 \<lparr>MaxConnections = 1, MaxHandshakes = 1\<rparr> newGroup))) \<noteq> Started"
proof -
  let ?l = "\<lparr>MaxConnections = 1, MaxHandshakes = 1\<rparr>" and ?g = "snd (startConnection None 7 \<lparr>MaxConnections = 1, MaxHandshakes = 1\<rparr> newGroup)"
  have "ConnectionLimits_Validate ?l = None" by (simp add: ConnectionLimits_Validate_def)
  from group_reachable.start [OF group_reachable.new [OF this], of 7 None] have r: "group_reachable ?l ?g"
    by (simp add: newGroup_def)
  have g: "gConnections ?g = [(7, True)]" by (simp add: startConnection_def newGroup_def)
  from connection_budget [OF r, of 8] g show ?thesis by simp
qed

end
