(* ===== verification/Server.thy ===== *)
theory Server
  imports Broker SessionStore Outbound Auth Client Connections Decoder
begin

text \<open>
  The packet handlers of the server (\<^verbatim>\<open>internal/server/server.go\<close> and \<^verbatim>\<open>security.go\<close>): publication,
  subscription, acknowledgement and the authorization checks they make.

  A \<open>server\<close> holds the broker, the session store, the policy, the connection group and the registry of
  active connections.  Pointers the source compares are addresses: subscribers of the broker are
  addresses of session states, and active connections and clients have heaps of their own.  A handler
  is a function from server states to server states; blocking sends run the client's writer against an
  environment \<open>net\<close> as in \<open>Client\<close>.  A handler that panics has the value \<open>None\<close>.  Log output is not
  modelled, and \<open>now\<close> is the time at which a handler runs.
\<close>

section \<open>State\<close>

record active_connection =
  acClient :: nat
  acSession :: nat
  acCleanSession :: bool
  acClosing :: bool
  acReady :: bool
  acDisconnectedAt :: int
  acDone :: bool

record server =
  svAuth :: "Local option"
  svTLS :: bool
  svBroker :: "nat broker"
  svSessions :: session_store
  svEncode :: publish_encoder
  svHandshakeTimeout :: int
  svMaxPacketSize :: int
  svWriteTimeout :: int
  svLimits :: connection_limits
  svGroup :: connection_group
  svClients :: "(string \<times> nat) list"
  svOwners :: "nat \<Rightarrow> active_connection"
  svNextOwner :: nat
  svHeap :: "nat \<Rightarrow> client"
  svNextClient :: nat

type_synonym network = "nat \<Rightarrow> conn_behaviour option"

definition setClient :: "nat \<Rightarrow> client \<Rightarrow> server \<Rightarrow> server" where
  "setClient cp c s = s\<lparr>svHeap := (svHeap s)(cp := c)\<rparr>"

definition setOwner :: "nat \<Rightarrow> active_connection \<Rightarrow> server \<Rightarrow> server" where
  "setOwner op a s = s\<lparr>svOwners := (svOwners s)(op := a)\<rparr>"

text \<open>The method \<^verbatim>\<open>ID\<close> of a session state, through which the broker names its subscribers.\<close>

definition stateID :: "server \<Rightarrow> nat \<Rightarrow> string" where
  "stateID s p = sID (stStates (svSessions s) p)"

definition stateOwner :: "server \<Rightarrow> nat \<Rightarrow> string" where
  "stateOwner s p = sOwner (stStates (svSessions s) p)"

section \<open>Authorization\<close>

definition recordAuthorizationRejection :: "server \<Rightarrow> server" where
  "recordAuthorizationRejection s = s\<lparr>svGroup := recordRejection True (svGroup s)\<rparr>"

definition canPublish :: "string \<Rightarrow> string \<Rightarrow> server \<Rightarrow> bool \<times> server" where
  "canPublish who name s =
     (case svAuth s of
        None \<Rightarrow> (True, s)
      | Some l \<Rightarrow> if CanPublish who name l then (True, s) else (False, recordAuthorizationRejection s))"

definition canSubscribe :: "string \<Rightarrow> string \<Rightarrow> server \<Rightarrow> (bool \<times> server) option" where
  "canSubscribe who flt s =
     (case svAuth s of
        None \<Rightarrow> Some (True, s)
      | Some l \<Rightarrow>
          (case CanSubscribe who flt l of
             None \<Rightarrow> None
           | Some b \<Rightarrow> if b then Some (True, s) else Some (False, recordAuthorizationRejection s)))"

section \<open>Sending\<close>

definition sendPacketWithDeadline :: "network \<Rightarrow> nat \<Rightarrow> packet \<Rightarrow> int option \<Rightarrow> server \<Rightarrow> error option \<times> server" where
  "sendPacketWithDeadline net cp pkt deadline s =
     (case Encode pkt of
        Inl e \<Rightarrow> (Some e, s)
      | Inr raw \<Rightarrow> (case SendWithDeadline net raw deadline (svHeap s cp) of (err, c) \<Rightarrow> (err, setClient cp c s)))"

definition sendPacket :: "network \<Rightarrow> nat \<Rightarrow> packet \<Rightarrow> server \<Rightarrow> error option \<times> server" where
  "sendPacket net cp pkt s = sendPacketWithDeadline net cp pkt None s"

section \<open>Publication\<close>

definition deliverPublishToSubscriber ::
  "int \<Rightarrow> publish_packet \<Rightarrow> nat subscription \<Rightarrow> delivery_cache \<Rightarrow> server \<Rightarrow> error option \<times> delivery_cache \<times> server" where
  "deliverPublishToSubscriber now pub sub cache s =
     (case Store_Get (tClientID sub) (svSessions s) of
        None \<Rightarrow> (None, cache, s)
      | Some state \<Rightarrow>
          if tSubscriber sub \<noteq> state then (None, cache, s)
          else
            let qos = deliveryQoS (pQoS pub) (tQoS sub);
                outbound = newOutboundPublish pub qos
            in if qos = 0 then
                 (case map_of (svClients s) (tClientID sub) of
                    None \<Rightarrow> (None, cache, s)
                  | Some op \<Rightarrow>
                      let owner = svOwners s op
                      in if acClosing owner \<or> \<not> acReady owner \<or> acSession owner \<noteq> state then (None, cache, s)
                         else (case qos0Payload (svEncode s) outbound cache of
                                 (Inl e, cache) \<Rightarrow> (Some e, cache, s)
                               | (Inr raw, cache) \<Rightarrow>
                                   (case Enqueue raw (svHeap s (acClient owner)) of
                                      (err, c) \<Rightarrow> (None, cache,
                                        setClient (acClient owner) (if err \<noteq> None then Close c else c) s))))
               else (case qos1Template (svEncode s) outbound cache of
                       (Inl e, cache) \<Rightarrow> (Some e, cache, s)
                     | (Inr template, cache) \<Rightarrow>
                         (case Admit now state (tRaw template) (int (tPacketIDOffset template)) (svSessions s) of
                            (r, st) \<Rightarrow> (case r of Inl e \<Rightarrow> Some e | Inr _ \<Rightarrow> None, cache, s\<lparr>svSessions := st\<rparr>))))"

text \<open>
  The callback given to \<^verbatim>\<open>broker.Publish\<close> keeps the last error; it acts on the cache, that error and the
  server, whose broker is replaced at the end.
\<close>

type_synonym publish_world = "delivery_cache \<times> error option \<times> server"

definition publishCallback :: "int \<Rightarrow> publish_packet \<Rightarrow> nat subscription \<Rightarrow> publish_world \<Rightarrow> error option \<times> publish_world" where
  "publishCallback now p sub = (\<lambda>(cache, publishErr, s).
     case deliverPublishToSubscriber now p sub cache s of
       (err, cache, s) \<Rightarrow> (err, cache, if err \<noteq> None then err else publishErr, s))"

definition publishMessage :: "int \<Rightarrow> publish_packet \<Rightarrow> server \<Rightarrow> error option \<times> server" where
  "publishMessage now p s =
     (case Broker_Publish p (publishCallback now p) (svBroker s) (emptyCache, None, s) of
        (Some e, b, _, _, s) \<Rightarrow> (Some e, s\<lparr>svBroker := b\<rparr>)
      | (None, b, _, publishErr, s) \<Rightarrow> (publishErr, s\<lparr>svBroker := b\<rparr>))"

definition publishWill :: "int \<Rightarrow> will_message \<Rightarrow> server \<Rightarrow> server" where
  "publishWill now will s =
     snd (publishMessage now \<lparr>pTopic = wTopic will, pPayload = wPayload will, pRetain = wRetain will, pDUP = False,
            pQoS = wQoS will, pPacketID = 0\<rparr> s)"

definition handlePublish :: "int \<Rightarrow> network \<Rightarrow> nat \<Rightarrow> publish_packet \<Rightarrow> server \<Rightarrow> error option \<times> server" where
  "handlePublish now net cp p s =
     (case publishMessage now p s of
        (Some e, s) \<Rightarrow> (Some e, s)
      | (None, s) \<Rightarrow> if pQoS p = 1 then sendPacket net cp (PubAckPacket (pPacketID p)) s else (None, s))"

definition handlePing :: "network \<Rightarrow> nat \<Rightarrow> server \<Rightarrow> error option \<times> server" where
  "handlePing net cp s = sendPacket net cp PingRespPacket s"

definition handlePubAck :: "nat \<Rightarrow> u16 \<Rightarrow> server \<Rightarrow> error option \<times> server" where
  "handlePubAck sp packetID s = (None, s\<lparr>svSessions := Ack sp packetID (svSessions s)\<rparr>)"

section \<open>Subscription\<close>

text \<open>The first loop of \<^verbatim>\<open>handleSubscribe\<close>: the return code of each requested filter.\<close>

fun subscribeLoop :: "nat \<Rightarrow> wire_subscription list \<Rightarrow> server \<Rightarrow> (byte list \<times> server) option" where
  "subscribeLoop sp [] s = Some ([], s)"
| "subscribeLoop sp (sub # rest) s =
     (case canSubscribe (stateOwner s sp) (sTopic sub) s of
        None \<Rightarrow> None
      | Some (allowed, s) \<Rightarrow>
          let (code, s) =
            (if \<not> allowed then (0x80, s)
             else
               let qos = (if sQoS sub > 1 then 1 else sQoS sub)
               in case SetSubscription sp (sTopic sub) qos (svSessions s) of
                    (Some e, st) \<Rightarrow> (0x80, s\<lparr>svSessions := st\<rparr>)
                  | (None, st) \<Rightarrow>
                      (qos, s\<lparr>svSessions := st,
                              svBroker := Broker_Subscribe (stateID s) (sTopic sub) qos sp (svBroker s)\<rparr>))
          in (case subscribeLoop sp rest s of None \<Rightarrow> None | Some (codes, s) \<Rightarrow> Some (code # codes, s)))"

text \<open>The second loop: one filter's retained messages, then the filters in order.\<close>

fun retainedLoop :: "int \<Rightarrow> nat \<Rightarrow> nat \<Rightarrow> byte \<Rightarrow> publish_packet list \<Rightarrow> server \<Rightarrow> error option \<times> server" where
  "retainedLoop now cp sp code [] s = (None, s)"
| "retainedLoop now cp sp code (r # rs) s =
     (let outbound = newOutboundPublish r (deliveryQoS (pQoS r) code)
      in if pQoS outbound = 1 then
           (case newPublishTemplate (svEncode s) outbound of
              Inl e \<Rightarrow> (Some e, s)
            | Inr template \<Rightarrow>
                (case Admit now sp (tRaw template) (int (tPacketIDOffset template)) (svSessions s) of
                   (Inl e, st) \<Rightarrow> (Some e, s\<lparr>svSessions := st\<rparr>)
                 | (Inr _, st) \<Rightarrow> retainedLoop now cp sp code rs (s\<lparr>svSessions := st\<rparr>)))
         else
           (case svEncode s outbound of
              Inl e \<Rightarrow> (Some e, s)
            | Inr raw \<Rightarrow>
                (case Enqueue raw (svHeap s cp) of
                   (Some e, c) \<Rightarrow> (Some e, setClient cp c s)
                 | (None, c) \<Rightarrow> retainedLoop now cp sp code rs (setClient cp c s))))"

fun replayLoop :: "int \<Rightarrow> nat \<Rightarrow> nat \<Rightarrow> (wire_subscription \<times> byte) list \<Rightarrow> server \<Rightarrow> error option \<times> server" where
  "replayLoop now cp sp [] s = (None, s)"
| "replayLoop now cp sp ((sub, code) # rest) s =
     (if code = 0x80 then replayLoop now cp sp rest s
      else (case retainedLoop now cp sp code (RetainedMatching (sTopic sub) (svBroker s)) s of
              (Some e, s) \<Rightarrow> (Some e, s)
            | (None, s) \<Rightarrow> replayLoop now cp sp rest s))"

definition pauseDelivery :: "nat \<Rightarrow> server \<Rightarrow> server" where
  "pauseDelivery sp s = s\<lparr>svSessions := PauseDelivery sp (svSessions s)\<rparr>"

definition resumeDelivery :: "nat \<Rightarrow> server \<Rightarrow> server" where
  "resumeDelivery sp s = s\<lparr>svSessions := ResumeDelivery sp (svSessions s)\<rparr>"

definition handleSubscribe ::
  "int \<Rightarrow> network \<Rightarrow> nat \<Rightarrow> nat \<Rightarrow> subscribe_packet \<Rightarrow> server \<Rightarrow> (error option \<times> server) option" where
  "handleSubscribe now net cp sp p s =
     (case subscribeLoop sp (spSubscriptions p) (pauseDelivery sp s) of
        None \<Rightarrow> None
      | Some (codes, s) \<Rightarrow>
          Some (case sendPacket net cp (SubAckPacket \<lparr>saPacketID = spPacketID p, saReturnCodes = codes\<rparr>) s of
                  (Some e, s) \<Rightarrow> (Some e, resumeDelivery sp s)
                | (None, s) \<Rightarrow>
                    (case replayLoop now cp sp (zip (spSubscriptions p) codes) s of
                       (err, s) \<Rightarrow> (err, resumeDelivery sp s))))"

fun unsubscribeLoop :: "nat \<Rightarrow> nat \<Rightarrow> string list \<Rightarrow> server \<Rightarrow> server" where
  "unsubscribeLoop cp sp [] s = s"
| "unsubscribeLoop cp sp (flt # flts) s =
     unsubscribeLoop cp sp flts
       (s\<lparr>svBroker := Broker_Unsubscribe flt (clID (svHeap s cp)) (svBroker s),
          svSessions := DeleteSubscription sp flt (svSessions s)\<rparr>)"

definition handleUnsubscribe :: "network \<Rightarrow> nat \<Rightarrow> nat \<Rightarrow> unsubscribe_packet \<Rightarrow> server \<Rightarrow> error option \<times> server" where
  "handleUnsubscribe net cp sp p s =
     sendPacket net cp (UnsubAckPacket (upPacketID p)) (unsubscribeLoop cp sp (upTopics p) s)"

section \<open>Dispatch\<close>

definition handlePacket ::
  "int \<Rightarrow> network \<Rightarrow> nat \<Rightarrow> nat \<Rightarrow> packet \<Rightarrow> server \<Rightarrow> (error option \<times> server) option" where
  "handlePacket now net cp sp pkt s =
     (case pkt of
        PingReqPacket \<Rightarrow> Some (handlePing net cp s)
      | PubAckPacket packetID \<Rightarrow> Some (handlePubAck sp packetID s)
      | SubscribePacket p \<Rightarrow> handleSubscribe now net cp sp p s
      | UnsubscribePacket p \<Rightarrow> Some (handleUnsubscribe net cp sp p s)
      | PublishPacket p \<Rightarrow>
          (case canPublish (stateOwner s sp) (pTopic p) s of
             (False, s) \<Rightarrow> Some (Some (New ''publication not authorized''), s)
           | (True, s) \<Rightarrow> Some (handlePublish now net cp p s))
      | DisconnectPacket \<Rightarrow> Some (Some ErrDisconnect, s)
      | _ \<Rightarrow> Some (Some (New ''unsupported packet type''), s))"

end
