(* ===== verification/ServerConn.thy ===== *)
theory ServerConn
  imports Server
begin

text \<open>
  The life of a connection (\<^verbatim>\<open>internal/server/server.go\<close> and \<^verbatim>\<open>security.go\<close>): validation before
  listening, handshake, authentication, acquisition of the client identifier, the packet loop, the
  delivery loop, closing and session expiry.  A goroutine that waits for another one is a transition
  that is only possible later; \<open>acquireStep\<close> is one iteration of the loop of \<^verbatim>\<open>acquireConnection\<close>.
\<close>

section \<open>Construction and start\<close>

definition Server_New :: "nat broker \<Rightarrow> session_store \<Rightarrow> server" where
  "Server_New b sessions = \<lparr>svAuth = None, svTLS = False, svBroker = b, svSessions = sessions, svEncode = encodePublishPacket,
     svHandshakeTimeout = 10 * second, svMaxPacketSize = 2 ^ 20, svWriteTimeout = 30 * second,
     svLimits = DefaultConnectionLimits, svGroup = newGroup, svClients = [],
     svOwners = (\<lambda>_. \<lparr>acClient = 0, acSession = 0, acCleanSession = False, acClosing = False, acReady = False,
       acDisconnectedAt = 0, acDone = False\<rparr>), svNextOwner = 0,
     svHeap = (\<lambda>_. Client_New []), svNextClient = 0\<rparr>"

definition WithSecurity :: "Local option \<Rightarrow> bool \<Rightarrow> server \<Rightarrow> server" where
  "WithSecurity policy config s = (let s = s\<lparr>svAuth := policy\<rparr> in if config then s\<lparr>svTLS := True\<rparr> else s)"

definition WithHandshakeTimeout :: "int \<Rightarrow> server \<Rightarrow> server" where
  "WithHandshakeTimeout timeout s = s\<lparr>svHandshakeTimeout := timeout\<rparr>"

definition WithWriteTimeout :: "int \<Rightarrow> server \<Rightarrow> server" where
  "WithWriteTimeout timeout s = s\<lparr>svWriteTimeout := timeout\<rparr>"

definition WithConnectionLimits :: "connection_limits \<Rightarrow> server \<Rightarrow> server" where
  "WithConnectionLimits l s = s\<lparr>svLimits := l\<rparr>"

definition WithMaxPacketSize :: "int \<Rightarrow> server \<Rightarrow> server" where
  "WithMaxPacketSize n s = s\<lparr>svMaxPacketSize := n\<rparr>"

definition WithPublishEncoder :: "publish_encoder \<Rightarrow> server \<Rightarrow> server" where
  "WithPublishEncoder f s = s\<lparr>svEncode := f\<rparr>"

text \<open>The checks of \<^verbatim>\<open>Start\<close> before the listener is opened.\<close>

definition startChecks :: "server \<Rightarrow> error option" where
  "startChecks s =
     (if (svAuth s = None) \<noteq> (\<not> svTLS s) then Some (New ''security requires both authentication and tls'')
      else case ConnectionLimits_Validate (svLimits s) of
        Some e \<Rightarrow> Some e
      | None \<Rightarrow>
          if svWriteTimeout s \<le> 0 then Some (New ''write timeout must be positive'')
          else if svMaxPacketSize s \<le> 0 \<or> svMaxPacketSize s > int MaxPacketSize then Some (New ''invalid maximum packet size'')
          else if svHandshakeTimeout s \<le> 0 then Some (New ''handshake timeout must be positive'')
          else None)"

definition Server_Snapshot :: "server \<Rightarrow> server_snapshot" where
  "Server_Snapshot s = group_Snapshot (svGroup s)"

section \<open>Handshake and authentication\<close>

definition handshake :: "reader \<Rightarrow> server \<Rightarrow> (connect_packet \<times> nat \<times> reader) result \<times> server" where
  "handshake r s =
     (case DecodeWithLimit (svMaxPacketSize s) r of
        Inl e \<Rightarrow> (Inl e, s)
      | Inr (ConnectPacket connect, r) \<Rightarrow>
          (let cp = svNextClient s
           in (Inr (connect, cp, r), (setClient cp (Client_New (cClientID connect)) s)\<lparr>svNextClient := cp + 1\<rparr>))
      | Inr _ \<Rightarrow> (Inl (New ''first packet is not CONNECT''), s))"

text \<open>
  The three observations of the context's error: by \<^verbatim>\<open>Authenticate\<close> on entry and after the key
  derivation, and by \<^verbatim>\<open>authenticateConnect\<close> itself.
\<close>

definition authenticateConnect ::
  "error option \<Rightarrow> error option \<Rightarrow> error option \<Rightarrow> connect_packet \<Rightarrow> server \<Rightarrow> (string \<times> connack_code) \<times> server" where
  "authenticateConnect ctx1 ctx2 ctx3 connect s =
     (case svAuth s of
        None \<Rightarrow> (('''', ConnAckAccepted), s)
      | Some l \<Rightarrow>
          let username = (case cUsername connect of None \<Rightarrow> '''' | Some u \<Rightarrow> u);
              password = (case cPassword connect of None \<Rightarrow> '''' | Some p \<Rightarrow> p);
              (r, l) = Authenticate ctx1 ctx2 username password l;
              s = s\<lparr>svAuth := Some l\<rparr>
          in if r = Inl ErrBusy \<or> ctx3 \<noteq> None then (('''', ConnAckServerUnavailable), s)
             else (case r of
                     Inl e \<Rightarrow> (('''', ConnAckBadCredentials), s)
                   | Inr who \<Rightarrow>
                       if cUsername connect = None \<or> cPassword connect = None then (('''', ConnAckBadCredentials), s)
                       else if \<not> CanUseClientID who (cClientID connect) l
                            \<or> (case cWill connect of None \<Rightarrow> False | Some w \<Rightarrow> \<not> CanPublish who (wTopic w) l)
                       then (('''', ConnAckNotAuthorized), s)
                       else ((who, ConnAckAccepted), s)))"

definition rejectConnection :: "network \<Rightarrow> nat \<Rightarrow> connack_code \<Rightarrow> int \<Rightarrow> server \<Rightarrow> server" where
  "rejectConnection net cp code deadline s =
     snd (sendPacketWithDeadline net cp (ConnAckPacket \<lparr>caSessionPresent = False, caReturnCode = code\<rparr>) (Some deadline)
       (s\<lparr>svGroup := recordRejection (code = ConnAckNotAuthorized) (svGroup s)\<rparr>))"

section \<open>Acquiring a client identifier\<close>

definition unsubscribeClient :: "string \<Rightarrow> server \<Rightarrow> server" where
  "unsubscribeClient i s = s\<lparr>svBroker := Broker_UnsubscribeAll i (svBroker s)\<rparr>"

definition openSession :: "int \<Rightarrow> connect_packet \<Rightarrow> string \<Rightarrow> server \<Rightarrow> (nat \<times> bool) result \<times> server" where
  "openSession now connect who s =
     (let i = cClientID connect;
          (gone, st) = ExpireSession i now (svSessions s);
          s = s\<lparr>svSessions := st\<rparr>;
          s = (if gone then unsubscribeClient i s else s);
          s = (if cCleanSession connect
               then (let s = unsubscribeClient i s in s\<lparr>svSessions := Store_Delete i (svSessions s)\<rparr>)
               else s);
          (r, st) = GetOrCreateOwned now i who (svSessions s)
      in (r, s\<lparr>svSessions := st\<rparr>))"

definition restoreSubscriptions :: "nat \<Rightarrow> server \<Rightarrow> server" where
  "restoreSubscriptions sp s =
     foldl (\<lambda>s (flt, qos). s\<lparr>svBroker := Broker_Subscribe (stateID s) flt qos sp (svBroker s)\<rparr>) s
       (SnapshotSubscriptions sp (svSessions s))"

definition beginClosing :: "int \<Rightarrow> active_connection \<Rightarrow> active_connection" where
  "beginClosing now a = (if \<not> acClosing a then a\<lparr>acClosing := True, acDisconnectedAt := now\<rparr> else a)"

definition closeClient :: "nat \<Rightarrow> server \<Rightarrow> server" where
  "closeClient cp s = setClient cp (Close (svHeap s cp)) s"

datatype acquire_outcome = Acquired nat bool | AcquireFailed error | WaitFor nat

definition acquireStep ::
  "error option \<Rightarrow> int \<Rightarrow> connect_packet \<Rightarrow> nat \<Rightarrow> string \<Rightarrow> server \<Rightarrow> acquire_outcome \<times> server" where
  "acquireStep ctxErr now connect cp who s =
     (case ctxErr of
        Some e \<Rightarrow> (AcquireFailed e, s)
      | None \<Rightarrow>
          let i = clID (svHeap s cp)
          in if (case Store_Get i (svSessions s) of None \<Rightarrow> False | Some sp \<Rightarrow> stateOwner s sp \<noteq> who)
             then (AcquireFailed ErrSessionOwner, s)
             else (case map_of (svClients s) i of
                     Some previous \<Rightarrow>
                       (WaitFor previous,
                        closeClient (acClient (svOwners s previous))
                          (setOwner previous (beginClosing now (svOwners s previous)) s))
                   | None \<Rightarrow>
                       (case openSession now connect who s of
                          (Inl e, s) \<Rightarrow> (AcquireFailed e, s)
                        | (Inr (sp, present), s) \<Rightarrow>
                            let s = s\<lparr>svSessions := MarkConnected sp (svSessions s)\<rparr>;
                                s = restoreSubscriptions sp s;
                                op = svNextOwner s;
                                owner = \<lparr>acClient = cp, acSession = sp, acCleanSession = cCleanSession connect,
                                  acClosing = False, acReady = False, acDisconnectedAt = 0, acDone = False\<rparr>
                            in (Acquired op present,
                                (setOwner op owner s)\<lparr>svNextOwner := op + 1, svClients := AList.update i op (svClients s)\<rparr>))))"

section \<open>From CONNACK to the packet loop\<close>

text \<open>
  What \<^verbatim>\<open>handleConn\<close> does once it owns the identifier: the accepting CONNACK, clearing the deadline (whose
  outcome is \<open>clearErr\<close>), the end of the handshake, readiness and the first epoch.
\<close>

definition startServing ::
  "network \<Rightarrow> error option \<Rightarrow> nat \<Rightarrow> nat \<Rightarrow> bool \<Rightarrow> int \<Rightarrow> server \<Rightarrow> u64 option \<times> server" where
  "startServing net clearErr conn op present deadline s =
     (let cp = acClient (svOwners s op); sp = acSession (svOwners s op)
      in case SetWriteTimeout (svWriteTimeout s) (svHeap s cp) of
           (Some e, c) \<Rightarrow> (None, setClient cp c s)
         | (None, c) \<Rightarrow>
             (case sendPacketWithDeadline net cp
                     (ConnAckPacket \<lparr>caSessionPresent = present, caReturnCode = ConnAckAccepted\<rparr>) (Some deadline) (setClient cp c s) of
                (Some e, s) \<Rightarrow> (None, s)
              | (None, s) \<Rightarrow>
                  if clearErr \<noteq> None then (None, s)
                  else
                    let s = s\<lparr>svGroup := completeHandshake conn (svGroup s)\<rparr>;
                        s = setOwner op ((svOwners s op)\<lparr>acReady := True\<rparr>) s;
                        (epoch, st) = BeginDelivery sp (svSessions s)
                    in (Some epoch, s\<lparr>svSessions := st\<rparr>)))"

definition keepAliveTimeout :: "u16 \<Rightarrow> int" where
  "keepAliveTimeout keepAlive = (if keepAlive > 0 then (3 * uint keepAlive div 2) * second else 0)"

datatype serve_outcome = ServeDone bool | ServeMore reader

text \<open>
  One iteration of \<^verbatim>\<open>serve\<close>. A read deadline that passes is an error at the end of the reader's input.
\<close>

definition serveStep ::
  "bool \<Rightarrow> int \<Rightarrow> network \<Rightarrow> nat \<Rightarrow> nat \<Rightarrow> reader \<Rightarrow> server \<Rightarrow> (serve_outcome \<times> server) option" where
  "serveStep ctxDone now net cp sp r s =
     (if ctxDone then Some (ServeDone False, s)
      else case DecodeWithLimit (svMaxPacketSize s) r of
        Inl e \<Rightarrow> Some (ServeDone False, s)
      | Inr (pkt, r) \<Rightarrow>
          (case handlePacket now net cp sp pkt s of
             None \<Rightarrow> None
           | Some (Some e, s) \<Rightarrow> Some (ServeDone (e = ErrDisconnect), s)
           | Some (None, s) \<Rightarrow> Some (ServeMore r, s)))"

text \<open>
  The loop, with everything the other goroutines do before iteration \<open>k\<close> as \<open>vOthers (env k)\<close>.
\<close>

record serve_env =
  vCtxDone :: bool
  vNow :: int
  vNet :: network
  vOthers :: "server \<Rightarrow> server"

lemma readByte_shrinks: "readByte r = Inr (b, r') \<Longrightarrow> length (rbuf r') < length (rbuf r)"
  by (auto simp: readByte_def advance_def split: list.splits)

lemma limitP_not_longer:
  assumes "wire_reader p" and "limitP n p r = Inr (x, r')"
  shows "length (rbuf r') \<le> length (rbuf r)"
  using assms(2) wire_reader.not_longer [OF assms(1)] by (fastforce simp: limitP_def split: sum.splits prod.splits)

lemma decodeBody_not_longer:
  "decodeBody t flags n r = Inr (x, r') \<Longrightarrow> length (rbuf r') \<le> length (rbuf r)"
  unfolding decodeBody_def Let_def decodeConnect_def decodePublish_def decodeSubscribe_def decodeUnsubscribe_def
  by (auto simp: failP_Inr_iff returnP_Inr_iff mapP_Inr_iff split: if_splits
      dest: limitP_not_longer [OF wire_reader_decodeConnectBody] limitP_not_longer [OF wire_reader_decodePublishBody]
        limitP_not_longer [OF wire_reader_decodeSubscribeBody] limitP_not_longer [OF wire_reader_decodeUnsubscribeBody]
        wire_reader.not_longer [OF wire_reader_decodePubAck])

lemma DecodeWithLimit_shrinks:
  assumes "DecodeWithLimit m r = Inr (p, r')"
  shows "length (rbuf r') < length (rbuf r)"
proof -
  from assms obtain b r0 n lb r1 where "readByte r = Inr (b, r0)" and "decodeRemainingLength r0 = Inr ((n, lb), r1)"
    and "decodeBody (drop_bit 4 b) (b AND 0x0F) n r1 = Inr (p, r')"
    by (auto simp: DecodeWithLimit_def result_iff split: if_splits)
  with readByte_shrinks [of r b r0] wire_reader.not_longer [OF wire_reader_decodeRemainingLength, of r0 "(n, lb)" r1]
    decodeBody_not_longer [of _ _ n r1 p r'] show ?thesis by fastforce
qed

lemma serveStep_shrinks:
  "serveStep ctxDone now net cp sp r s = Some (ServeMore r', s') \<Longrightarrow> length (rbuf r') < length (rbuf r)"
  by (auto simp: serveStep_def dest: DecodeWithLimit_shrinks split: if_splits sum.splits prod.splits option.splits)

function serve :: "(nat \<Rightarrow> serve_env) \<Rightarrow> nat \<Rightarrow> nat \<Rightarrow> nat \<Rightarrow> reader \<Rightarrow> server \<Rightarrow> (bool \<times> server) option" where
  "serve env k cp sp r s =
     (case serveStep (vCtxDone (env k)) (vNow (env k)) (vNet (env k)) cp sp r (vOthers (env k) s) of
        None \<Rightarrow> None
      | Some (ServeDone clean, s) \<Rightarrow> Some (clean, s)
      | Some (ServeMore r, s) \<Rightarrow> serve env (k + 1) cp sp r s)"
  by pat_completeness auto
termination
  by (relation "measure (\<lambda>(env, k, cp, sp, r, s). length (rbuf r))") (auto dest: serveStep_shrinks)

declare serve.simps [simp del]

text \<open>The end of \<^verbatim>\<open>handleConn\<close>: the packet loop, and the will unless the client disconnected cleanly.\<close>

definition serveConn ::
  "(nat \<Rightarrow> serve_env) \<Rightarrow> int \<Rightarrow> nat \<Rightarrow> nat \<Rightarrow> will_message option \<Rightarrow> reader \<Rightarrow> server \<Rightarrow> server option" where
  "serveConn env now cp sp will r s =
     (case serve env 0 cp sp r s of
        None \<Rightarrow> None
      | Some (cleanDisconnect, s) \<Rightarrow>
          (case will of
             None \<Rightarrow> Some s
           | Some w \<Rightarrow> if cleanDisconnect then Some s else Some (publishWill now w s)))"

section \<open>Delivery\<close>

datatype consume_outcome = ConsumeStop | ConsumeMore | ConsumeWait

text \<open>
  One iteration of \<^verbatim>\<open>consumeDeliveries\<close> up to its second \<^verbatim>\<open>select\<close>; \<open>ConsumeWait\<close> is a goroutine blocked
  there, which a closed context or client ends and a notification wakes (\<open>consumeWake\<close>).  \<open>None\<close> is a
  \<^verbatim>\<open>Next\<close> that does not return.
\<close>

definition consumeStep ::
  "bool \<Rightarrow> network \<Rightarrow> nat \<Rightarrow> nat \<Rightarrow> u64 \<Rightarrow> server \<Rightarrow> (consume_outcome \<times> server) option" where
  "consumeStep ctxDone net cp sp epoch s =
     (if ctxDone \<or> clDone (svHeap s cp) then Some (ConsumeStop, s)
      else case Next epoch sp (svSessions s) of
        None \<Rightarrow> None
      | Some (Some d, st) \<Rightarrow>
          (case Send net (dData d) (svHeap s cp) of
             (Some e, c) \<Rightarrow> Some (ConsumeStop, closeClient cp (setClient cp c (s\<lparr>svSessions := st\<rparr>)))
           | (None, c) \<Rightarrow> Some (ConsumeMore, setClient cp c (s\<lparr>svSessions := st\<rparr>)))
      | Some (None, st) \<Rightarrow> Some (ConsumeWait, s\<lparr>svSessions := st\<rparr>))"

definition consumeWake :: "nat \<Rightarrow> server \<Rightarrow> server option" where
  "consumeWake sp s =
     (let state = stStates (svSessions s) sp
      in if sChanged state then Some (s\<lparr>svSessions := setState sp (state\<lparr>sChanged := False\<rparr>) (svSessions s)\<rparr>) else None)"

section \<open>Closing and expiry\<close>

text \<open>The deferred part of \<^verbatim>\<open>handleConn\<close> before it waits for the consumer and the writer.\<close>

definition startClosing :: "int \<Rightarrow> nat \<Rightarrow> server \<Rightarrow> server" where
  "startClosing now op s =
     (let s = setOwner op (beginClosing now (svOwners s op)) s in closeClient (acClient (svOwners s op)) s)"

definition closeSession :: "nat \<Rightarrow> server \<Rightarrow> server" where
  "closeSession op s =
     (let owner = svOwners s op; i = clID (svHeap s (acClient owner));
          s = (if map_of (svClients s) i = Some op
               then
                 let s = (if acCleanSession owner
                          then unsubscribeClient i (s\<lparr>svSessions := Store_Delete i (svSessions s)\<rparr>)
                          else s\<lparr>svSessions := MarkDisconnectedAt (acSession owner) (acDisconnectedAt owner) (svSessions s)\<rparr>)
                 in s\<lparr>svClients := AList.delete i (svClients s)\<rparr>
               else s)
      in setOwner op (owner\<lparr>acDone := True\<rparr>) s)"

definition expiryTick :: "int \<Rightarrow> server \<Rightarrow> server" where
  "expiryTick now s =
     (case Expire now (svSessions s) of
        (is, st) \<Rightarrow> foldl (\<lambda>s i. unsubscribeClient i s) (s\<lparr>svSessions := st\<rparr>) is)"

end
