(* ===== verification/ServerInv.thy ===== *)
theory ServerInv
  imports ServerConn
begin

text \<open>
  The invariant of the server and that every operation keeps it.  Most operations are \<open>quiet\<close>: they
  change queues, counters and what is on the wire, but no subscription, session, registry entry or
  connection identity.  The invariant is kept by a quiet operation as such; subscribing, unsubscribing,
  acquiring and closing a session and expiry are treated one by one.
\<close>

section \<open>Quiet operations of the store\<close>

definition core :: "session_state \<Rightarrow> (string \<times> byte) list \<times> string \<times> string \<times> bool \<times> bool" where
  "core s = (sSubscriptions s, sOwner s, sID s, sConnected s, sDeleted s)"

definition store_quiet :: "session_store \<Rightarrow> session_store \<Rightarrow> bool" where
  "store_quiet st st' \<longleftrightarrow> stData st' = stData st \<and> stNext st' = stNext st \<and> stLimits st' = stLimits st
     \<and> (\<forall>p. core (stStates st' p) = core (stStates st p)) \<and> (store_ok st \<longrightarrow> store_ok st')"

named_theorems quiet_intros \<open>operations that keep subscriptions, sessions and registry\<close>

lemma store_quiet_refl [quiet_intros]: "store_quiet st st"
  by (simp add: store_quiet_def)

lemma store_quiet_trans: "store_quiet a b \<Longrightarrow> store_quiet b c \<Longrightarrow> store_quiet a c"
  by (simp add: store_quiet_def)

lemma core_ops [simp]:
  "core (notifyLocked s) = core s" "core (pushEntry now d off s) = core s" "core (beginDelivery s) = core s"
  "core (s\<lparr>sPaused := b\<rparr>) = core s" "core (s\<lparr>sStats := t\<rparr>) = core s" "core (s\<lparr>sChanged := b\<rparr>) = core s"
  by (simp_all add: core_def notifyLocked_def pushEntry_def beginDelivery_def Let_def)

lemma core_ack: "core (ackState i s) = core s"
  by (auto simp: ackState_def ackEntry_def core_def notifyLocked_def Let_def split: option.splits)

lemma core_next:
  assumes "queue_ok l s" "nextDelivery l ep s = Some (r, s')"
  shows "core s' = core s"
  using nextDelivery_total [OF assms(1), of ep] assms(2) by (auto simp: delivers_def sendEntry_def core_def)

lemma store_quiet_Admit [quiet_intros]:
  assumes "p < stNext st"
  shows "store_quiet st (snd (Admit now p d off st))"
  using Admit_ok [OF _ assms, of now d off]
  by (cases rule: Admit_cases [of d off now p st]) (auto simp: store_quiet_def)

lemma store_quiet_Ack [quiet_intros]: "p < stNext st \<Longrightarrow> store_quiet st (Ack p i st)"
  by (auto simp: store_quiet_def Ack_ok Ack_state core_ack) (auto simp: Ack_def Let_def split: option.splits)

lemma store_quiet_Pause [quiet_intros]: "p < stNext st \<Longrightarrow> store_quiet st (PauseDelivery p st)"
  by (auto simp: store_quiet_def PauseDelivery_ok) (auto simp: PauseDelivery_def)

lemma store_quiet_Resume [quiet_intros]: "p < stNext st \<Longrightarrow> store_quiet st (ResumeDelivery p st)"
  by (auto simp: store_quiet_def ResumeDelivery_ok) (auto simp: ResumeDelivery_def)

lemma store_quiet_Begin [quiet_intros]:
  "p < stNext st \<Longrightarrow> sEpoch (stStates st p) + 1 \<noteq> 0 \<Longrightarrow> store_quiet st (snd (BeginDelivery p st))"
  by (auto simp: store_quiet_def BeginDelivery_ok) (auto simp: BeginDelivery_def)

lemma store_quiet_Next:
  assumes "store_ok st" "p < stNext st" "Next ep p st = Some (r, st')"
  shows "store_quiet st st'"
  using Next_ok [OF assms] core_next [OF state_okD [OF store_okD(5) [OF assms(1,2)]], of ep] assms(3)
  by (auto simp: store_quiet_def Next_def Let_def split: option.splits prod.splits)

lemma store_quiet_changed [quiet_intros]:
  assumes "p < stNext st"
  shows "store_quiet st (setState p ((stStates st p)\<lparr>sChanged := b\<rparr>) st)"
proof -
  have "store_ok (setState p ((stStates st p)\<lparr>sChanged := b\<rparr>) st)" if ok: "store_ok st"
    by (rule store_ok_setState [OF ok assms])
       (use store_okD(5) [OF ok assms] in \<open>simp_all add: state_ok_def subscriptions_ok_def loadOf_def queue_ok_def queue_defs pendingBytes_def\<close>)
  then show ?thesis by (simp add: store_quiet_def)
qed

section \<open>The invariant\<close>

text \<open>The subscriptions of the live sessions, as the broker should route them.\<close>

definition routing :: "server \<Rightarrow> string \<Rightarrow> string \<Rightarrow> nat subscription option" where
  "routing s flt i =
     (case map_of (stData (svSessions s)) i of
        None \<Rightarrow> None
      | Some p \<Rightarrow> map_option (\<lambda>q. \<lparr>tClientID = i, tSubscriber = p, tQoS = q\<rparr>)
                   (map_of (sSubscriptions (stStates (svSessions s) p)) flt))"

definition routing_ok :: "server \<Rightarrow> bool" where
  "routing_ok s \<longleftrightarrow> find (topics (svBroker s)) = routing s"

text \<open>Every stored subscription is valid, at most QoS 1, and one its owner is allowed to make.\<close>

definition subs_ok :: "server \<Rightarrow> bool" where
  "subs_ok s \<longleftrightarrow> (\<forall>p < stNext (svSessions s). \<forall>(f, q) \<in> set (sSubscriptions (stStates (svSessions s) p)).
     ValidateTopicFilter f = None \<and> q \<le> 1
     \<and> (\<forall>l. svAuth s = Some l \<longrightarrow> CanSubscribe (sOwner (stStates (svSessions s) p)) f l = Some True))"

text \<open>
  An identifier in the registry has a live, connected session and a client of that name; a connected
  session is registered, and so is every connection that is not done.
\<close>

definition registered :: "server \<Rightarrow> string \<Rightarrow> nat \<Rightarrow> bool" where
  "registered s i op \<longleftrightarrow> op < svNextOwner s \<and> acClient (svOwners s op) < svNextClient s
     \<and> clID (svHeap s (acClient (svOwners s op))) = i
     \<and> map_of (stData (svSessions s)) i = Some (acSession (svOwners s op))
     \<and> sConnected (stStates (svSessions s) (acSession (svOwners s op))) \<and> \<not> acDone (svOwners s op)"

definition registry_ok :: "server \<Rightarrow> bool" where
  "registry_ok s \<longleftrightarrow> wf_map (svClients s) \<and> (\<forall>(i, op) \<in> set (svClients s). registered s i op)
     \<and> (\<forall>(i, p) \<in> set (stData (svSessions s)). sConnected (stStates (svSessions s) p) \<longrightarrow> map_of (svClients s) i \<noteq> None)
     \<and> (\<forall>op < svNextOwner s. \<not> acDone (svOwners s op) \<longrightarrow>
          map_of (svClients s) (clID (svHeap s (acClient (svOwners s op)))) = Some op)"

definition server_ok :: "server \<Rightarrow> bool" where
  "server_ok s \<longleftrightarrow> broker_ok (svBroker s) \<and> store_ok (svSessions s) \<and> group_ok (svLimits s) (svGroup s)
     \<and> routing_ok s \<and> subs_ok s \<and> registry_ok s"

lemma server_okD:
  assumes "server_ok s"
  shows "broker_ok (svBroker s)" "store_ok (svSessions s)" "group_ok (svLimits s) (svGroup s)"
    and "find (topics (svBroker s)) = routing s" "subs_ok s" "registry_ok s" "directory_ok (svSessions s)"
    and "index_ok (topics (svBroker s))"
  using assms store_okD(1) [of "svSessions s"] by (auto simp: server_ok_def routing_ok_def broker_ok_def)

section \<open>Quiet operations of the server\<close>

definition owner_core :: "active_connection \<Rightarrow> nat \<times> nat \<times> bool \<times> bool" where
  "owner_core a = (acClient a, acSession a, acCleanSession a, acDone a)"

definition quiet :: "server \<Rightarrow> server \<Rightarrow> bool" where
  "quiet s s' \<longleftrightarrow> svAuth s' = svAuth s \<and> svEncode s' = svEncode s \<and> svLimits s' = svLimits s
     \<and> svMaxPacketSize s' = svMaxPacketSize s
     \<and> svClients s' = svClients s \<and> svNextOwner s' = svNextOwner s \<and> svNextClient s \<le> svNextClient s'
     \<and> (\<forall>op. owner_core (svOwners s' op) = owner_core (svOwners s op))
     \<and> (\<forall>cp < svNextClient s. clID (svHeap s' cp) = clID (svHeap s cp))
     \<and> (group_ok (svLimits s) (svGroup s) \<longrightarrow> group_ok (svLimits s) (svGroup s'))
     \<and> topics (svBroker s') = topics (svBroker s) \<and> (broker_ok (svBroker s) \<longrightarrow> broker_ok (svBroker s'))
     \<and> store_quiet (svSessions s) (svSessions s')"

lemma quiet_refl [quiet_intros]: "quiet s s"
  by (simp add: quiet_def store_quiet_refl)

lemma quiet_trans: "quiet a b \<Longrightarrow> quiet b c \<Longrightarrow> quiet a c"
  unfolding quiet_def by (auto intro: store_quiet_trans)

lemma quiet_store:
  assumes "quiet s s'"
  shows "stData (svSessions s') = stData (svSessions s)" "stNext (svSessions s') = stNext (svSessions s)"
    and "sSubscriptions (stStates (svSessions s') p) = sSubscriptions (stStates (svSessions s) p)"
    and "sOwner (stStates (svSessions s') p) = sOwner (stStates (svSessions s) p)"
    and "sID (stStates (svSessions s') p) = sID (stStates (svSessions s) p)"
    and "sConnected (stStates (svSessions s') p) = sConnected (stStates (svSessions s) p)"
  using assms by (simp_all add: quiet_def store_quiet_def core_def)

lemma quiet_owner:
  assumes "quiet s s'"
  shows "acClient (svOwners s' op) = acClient (svOwners s op)" "acSession (svOwners s' op) = acSession (svOwners s op)"
    and "acCleanSession (svOwners s' op) = acCleanSession (svOwners s op)" "acDone (svOwners s' op) = acDone (svOwners s op)"
  using assms by (simp_all add: quiet_def owner_core_def)

lemma server_ok_quiet:
  assumes "server_ok s" and q: "quiet s s'"
  shows "server_ok s'"
proof -
  note D = server_okD [OF assms(1)] and e = quiet_store [OF q] and o = quiet_owner [OF q]
  from q have f: "svAuth s' = svAuth s" "svClients s' = svClients s" "svNextOwner s' = svNextOwner s" "svLimits s' = svLimits s"
    and t: "topics (svBroker s') = topics (svBroker s)" and n: "svNextClient s \<le> svNextClient s'"
    and c: "\<And>cp. cp < svNextClient s \<Longrightarrow> clID (svHeap s' cp) = clID (svHeap s cp)"
    by (simp_all add: quiet_def)
  have "routing s' = routing s" by (intro ext) (simp add: routing_def e split: option.split)
  then have "routing_ok s'" using D(4) by (simp add: routing_ok_def t)
  moreover have "subs_ok s'" using D(5) by (simp add: subs_ok_def e f)
  moreover have "registry_ok s'"
  proof -
  have "registered s' i op" if "registered s i op" for i op
    using that n c by (auto simp: registered_def e f o intro: order_less_le_trans)
  moreover have "acClient (svOwners s op) < svNextClient s" if "op < svNextOwner s" "\<not> acDone (svOwners s op)" for op
    using that D(6) by (auto simp: registry_ok_def registered_def dest!: map_of_SomeD)
  then have "\<forall>op < svNextOwner s'. \<not> acDone (svOwners s' op) \<longrightarrow>
      map_of (svClients s') (clID (svHeap s' (acClient (svOwners s' op)))) = Some op"
    using D(6) c by (auto simp: registry_ok_def f o)
  ultimately show ?thesis using D(6) by (auto simp: registry_ok_def e f)
  qed
  ultimately show ?thesis using q D(1-3) by (simp add: server_ok_def quiet_def store_quiet_def)
qed

lemma server_ok_step:
  "server_ok s \<Longrightarrow> (server_ok s \<Longrightarrow> quiet s s1) \<Longrightarrow> (server_ok s1 \<Longrightarrow> quiet s1 s2) \<Longrightarrow> quiet s s2"
  by (blast intro: quiet_trans server_ok_quiet)

text \<open>Client operations keep the identifier.\<close>

lemma clID_ops [simp]:
  "clID (snd (SetWriteTimeout t c)) = clID c" "clID (snd (enqueue w c)) = clID c" "clID (snd (Enqueue d c)) = clID c"
  "clID (Close c) = clID c" "clID (snd (sendStart d dl c)) = clID c" "clID (Client_New i) = i"
  by (auto simp: SetWriteTimeout_def enqueue_def Enqueue_def Close_def sendStart_def Client_New_def Let_def)

lemma clID_writeOne [simp]: "clID (writeOne b c) = clID c"
proof (cases "clSendQ c")
  case (Cons w q)
  from writeOne_eq [OF Cons, of b] obtain n err where "writeOne b c =
      (let c' = c\<lparr>clSendQ := q, clSent := clSent c @ take n (wData w), clWrites := clWrites c + 1,
                  clResults := (case wResult w of None \<Rightarrow> clResults c | Some r \<Rightarrow> AList.update r err (clResults c))\<rparr>
       in if err \<noteq> None then c'\<lparr>clDone := True, clWriteDone := True\<rparr> else c')" by metis
  then show ?thesis by (simp add: Let_def)
qed (simp add: writeOne_def)

lemma clID_sendWait [simp]: "clID (snd (sendWait net r c)) = clID c"
proof (induction net r c rule: sendWait.induct)
  case (1 net r c)
  then show ?case by (subst sendWait.simps) (auto split: option.splits)
qed

lemma clID_Send [simp]: "clID (snd (SendWithDeadline net d dl c)) = clID c" "clID (snd (Send net d c)) = clID c"
proof -
  show 1: "clID (snd (SendWithDeadline net d dl c)) = clID c" for dl
  proof -
    obtain r c' where s: "sendStart d dl c = (r, c')" by fastforce
    with clID_ops(5) [of d dl c] have "clID c' = clID c" by simp
    then show ?thesis by (cases r) (simp_all add: SendWithDeadline_def s)
  qed
  show "clID (snd (Send net d c)) = clID c" by (simp add: Send_def 1)
qed

lemma quiet_setClient [quiet_intros]:
  "clID c = clID (svHeap s cp) \<Longrightarrow> quiet s (setClient cp c s)"
  by (simp add: quiet_def setClient_def store_quiet_refl)

lemma quiet_closeClient [quiet_intros]: "quiet s (closeClient cp s)"
  unfolding closeClient_def by (intro quiet_intros) simp

lemma quiet_setOwner [quiet_intros]:
  "owner_core a = owner_core (svOwners s op) \<Longrightarrow> quiet s (setOwner op a s)"
  by (simp add: quiet_def setOwner_def store_quiet_refl)

lemma quiet_sessions [quiet_intros]:
  "store_quiet (svSessions s) st \<Longrightarrow> quiet s (s\<lparr>svSessions := st\<rparr>)"
  by (simp add: quiet_def)

lemma quiet_rejection [quiet_intros]: "quiet s (s\<lparr>svGroup := recordRejection b (svGroup s)\<rparr>)"
  by (simp add: quiet_def store_quiet_refl recordRejection_def group_ok_def)

lemma quiet_recordAuthorizationRejection [quiet_intros]: "quiet s (recordAuthorizationRejection s)"
  unfolding recordAuthorizationRejection_def by (rule quiet_intros)

lemma quiet_canPublish [quiet_intros]: "quiet s (snd (canPublish who name s))"
  by (auto simp: canPublish_def intro: quiet_intros split: option.splits)

lemma quiet_sendPacketWithDeadline [quiet_intros]: "quiet s (snd (sendPacketWithDeadline net cp pkt dl s))"
proof (cases "Encode pkt")
  case (Inr raw)
  obtain err c where "SendWithDeadline net raw dl (svHeap s cp) = (err, c)" by fastforce
  with clID_Send(1) [of net raw dl "svHeap s cp"] Inr show ?thesis
    by (auto simp: sendPacketWithDeadline_def intro: quiet_intros)
qed (simp add: sendPacketWithDeadline_def quiet_refl)

lemma quiet_sendPacket [quiet_intros]: "quiet s (snd (sendPacket net cp pkt s))"
  unfolding sendPacket_def by (rule quiet_intros)

subsection \<open>Publication\<close>

lemma directory_less: "directory_ok st \<Longrightarrow> map_of (stData st) i = Some p \<Longrightarrow> p < stNext st"
  by (auto simp: directory_ok_def dest: map_of_SomeD)

lemma deliver_server:
  assumes "Store_Get (tClientID sub) (svSessions s) = Some p"
  shows "snd (snd (deliverPublishToSubscriber now pub sub cache s)) = s
    \<or> (\<exists>d off. snd (snd (deliverPublishToSubscriber now pub sub cache s)) = s\<lparr>svSessions := snd (Admit now p d off (svSessions s))\<rparr>)
    \<or> (\<exists>cp c. clID c = clID (svHeap s cp) \<and> snd (snd (deliverPublishToSubscriber now pub sub cache s)) = setClient cp c s)"
proof (cases "tSubscriber sub \<noteq> p")
  case True
  then show ?thesis by (simp add: deliverPublishToSubscriber_def assms)
next
  case False
  let ?q = "deliveryQoS (pQoS pub) (tQoS sub)"
  let ?o = "newOutboundPublish pub ?q"
  show ?thesis
  proof (cases "?q = 0")
    case True
    show ?thesis
    proof (cases "map_of (svClients s) (tClientID sub)")
      case None
      then show ?thesis using True by (simp add: deliverPublishToSubscriber_def assms Let_def)
    next
      case (Some op)
      let ?a = "svOwners s op"
      obtain r cache' where q: "qos0Payload (svEncode s) ?o cache = (r, cache')" by fastforce
      obtain err c where e: "Enqueue (projr r) (svHeap s (acClient ?a)) = (err, c)" by fastforce
      with clID_ops(3) [of "projr r" "svHeap s (acClient ?a)"] have i: "clID c = clID (svHeap s (acClient ?a))" by simp
      show ?thesis
      proof (cases "acClosing ?a \<or> \<not> acReady ?a \<or> acSession ?a \<noteq> p \<or> isl r")
        case out: True
        then show ?thesis using True Some q False
          by (cases r) (auto simp: deliverPublishToSubscriber_def assms Let_def)
      next
        case False
        then have "snd (snd (deliverPublishToSubscriber now pub sub cache s)) = setClient (acClient ?a) (if err \<noteq> None then Close c else c) s"
          using True Some q e \<open>\<not> tSubscriber sub \<noteq> p\<close>
          by (cases r) (auto simp: deliverPublishToSubscriber_def assms Let_def)
        then show ?thesis using i by (metis clID_ops(4))
      qed
    qed
  next
    case nz: False
    obtain r cache' where q: "qos1Template (svEncode s) ?o cache = (r, cache')" by fastforce
    show ?thesis
    proof (cases r)
      case (Inl e)
      then show ?thesis using nz q False by (simp add: deliverPublishToSubscriber_def assms Let_def)
    next
      case (Inr t)
      obtain x st where "Admit now p (tRaw t) (int (tPacketIDOffset t)) (svSessions s) = (x, st)" by fastforce
      then have "snd (snd (deliverPublishToSubscriber now pub sub cache s)) =
          s\<lparr>svSessions := snd (Admit now p (tRaw t) (int (tPacketIDOffset t)) (svSessions s))\<rparr>"
        using nz q False Inr by (simp add: deliverPublishToSubscriber_def assms Let_def)
      then show ?thesis by blast
    qed
  qed
qed

lemma quiet_deliver:
  assumes "server_ok s"
  shows "quiet s (snd (snd (deliverPublishToSubscriber now pub sub cache s)))"
proof (cases "Store_Get (tClientID sub) (svSessions s)")
  case None
  then show ?thesis by (simp add: deliverPublishToSubscriber_def quiet_refl)
next
  case (Some p)
  have p: "p < stNext (svSessions s)"
    using Some directory_less [OF server_okD(7) [OF assms]] by (simp add: Store_Get_def)
  have "quiet s (s\<lparr>svSessions := snd (Admit now p d off (svSessions s))\<rparr>)" for d off
    using p by (intro quiet_intros)
  then show ?thesis using deliver_server [OF Some, of now pub cache] quiet_refl quiet_setClient by metis
qed

lemma quiet_broker:
  "topics b = topics (svBroker s) \<Longrightarrow> (broker_ok (svBroker s) \<Longrightarrow> broker_ok b) \<Longrightarrow> quiet s (s\<lparr>svBroker := b\<rparr>)"
  by (simp add: quiet_def store_quiet_refl)

abbreviation deliverAll :: "int \<Rightarrow> publish_packet \<Rightarrow> nat subscription list \<Rightarrow> publish_world \<Rightarrow> publish_world" where
  "deliverAll now p rest w \<equiv> foldl (\<lambda>w sub. snd (publishCallback now p sub w)) w rest"

lemma quiet_deliver_loop:
  "server_ok s \<Longrightarrow> quiet s (snd (snd (deliverAll now p rest (cache, e, s))))"
proof (induction rest arbitrary: cache e s)
  case (Cons sub rest)
  obtain err cache' s' where d: "deliverPublishToSubscriber now p sub cache s = (err, cache', s')" using prod_cases3 by blast
  with quiet_deliver [OF Cons.prems, of now p sub cache] have q: "quiet s s'" by simp
  from quiet_trans [OF q Cons.IH [OF server_ok_quiet [OF Cons.prems q]]] show ?case
    by (simp add: d publishCallback_def)
qed (simp add: quiet_refl)

text \<open>A publication that is not rejected delivers to the matching subscriptions, one after the other.\<close>

lemma publishMessage_cases:
  obtains (rejected) e b where "publishMessage now p s = (Some e, s\<lparr>svBroker := b\<rparr>)"
      "b = snd (updateRetained p (svBroker s))" "pRetain p" "fst (updateRetained p (svBroker s)) = Some e"
  | (delivered) b cache pe s' where "publishMessage now p s = (pe, s'\<lparr>svBroker := b\<rparr>)"
      "b = (if pRetain p then snd (updateRetained p (svBroker s)) else svBroker s)"
      "pRetain p \<longrightarrow> fst (updateRetained p (svBroker s)) = None"
      "deliverAll now p (Match (topics (svBroker s)) (pTopic p)) (emptyCache, None, s) = (cache, pe, s')"
proof -
  obtain e b w where P: "Broker_Publish p (publishCallback now p) (svBroker s) (emptyCache, None, s) = (e, b, w)"
    using prod_cases3 by blast
  obtain cache pe s' where w: "w = (cache, pe, s')" using prod_cases3 by blast
  have b: "b = (if pRetain p then snd (updateRetained p (svBroker s)) else svBroker s)"
    using Broker_Publish_broker [of p "publishCallback now p" "svBroker s" "(emptyCache, None, s)"] P by simp
  have e: "e = (if pRetain p then fst (updateRetained p (svBroker s)) else None)"
    using P by (auto simp: Broker_Publish_def split: prod.splits option.splits if_splits)
  show thesis
  proof (cases e)
    case None
    from Broker_Publish_world [OF P] None w
    have "deliverAll now p (Match (topics (svBroker s)) (pTopic p)) (emptyCache, None, s) = (cache, pe, s')" by simp
    moreover have "publishMessage now p s = (pe, s'\<lparr>svBroker := b\<rparr>)" by (simp add: publishMessage_def P None w)
    ultimately show thesis using delivered b e None by (metis (full_types))
  next
    case (Some x)
    from Broker_Publish_world [OF P] Some w have "s' = s" by simp
    then have "publishMessage now p s = (Some x, s\<lparr>svBroker := b\<rparr>)" by (simp add: publishMessage_def P Some w)
    moreover have "pRetain p" using e Some by (cases "pRetain p") simp_all
    ultimately show thesis using rejected b e Some by simp
  qed
qed

lemma quiet_publishMessage:
  assumes "server_ok s"
  shows "quiet s (snd (publishMessage now p s))"
proof -
  note ok = server_okD(1) [OF assms]
  have t: "topics (snd (updateRetained p (svBroker s))) = topics (svBroker s)" by (simp add: updateRetained_def Let_def)
  show ?thesis
  proof (cases rule: publishMessage_cases [of now p s])
    case (rejected e b)
    then show ?thesis using t ok by (simp add: quiet_broker updateRetained_ok)
  next
    case (delivered b cache pe s')
    have q: "quiet s s'"
      using quiet_deliver_loop [OF assms, of now p emptyCache None "Match (topics (svBroker s)) (pTopic p)"] delivered(4) by simp
    then have "topics (svBroker s') = topics (svBroker s)" by (simp add: quiet_def)
    then have "quiet s' (s'\<lparr>svBroker := b\<rparr>)" using t ok by (intro quiet_broker) (auto simp: delivered(2) updateRetained_ok)
    with q show ?thesis by (auto simp: delivered(1) intro: quiet_trans)
  qed
qed

lemma quiet_publishWill: "server_ok s \<Longrightarrow> quiet s (publishWill now w s)"
  unfolding publishWill_def by (rule quiet_publishMessage)

lemma quiet_handlePublish:
  assumes "server_ok s"
  shows "quiet s (snd (handlePublish now net cp p s))"
proof -
  obtain e s' where m: "publishMessage now p s = (e, s')" by fastforce
  with quiet_publishMessage [OF assms, of now p] have "quiet s s'" by simp
  then show ?thesis
    by (cases e) (auto simp: handlePublish_def m intro: quiet_trans quiet_sendPacket)
qed

subsection \<open>Subscriptions\<close>

lemma live_iff: "directory_ok st \<Longrightarrow> p < stNext st \<Longrightarrow> \<not> sDeleted (stStates st p) \<longleftrightarrow> map_of (stData st) (sID (stStates st p)) = Some p"
  by (auto simp: directory_ok_def dest: map_of_SomeD)

lemma SetSubscription_rejected:
  assumes "SetSubscription p f q st = (Some e, st')"
  shows "store_quiet st st'"
  using assms
  by (cases rule: SetSubscription_cases [of st p f q]) (auto simp: store_quiet_def store_ok_totals)

lemma SetSubscription_stored:
  assumes "SetSubscription p f q st = (None, st')"
  shows "stData st' = stData st \<and> stNext st' = stNext st \<and> \<not> sDeleted (stStates st p)
    \<and> stStates st' = (stStates st)(p := (stStates st p)\<lparr>sSubscriptions := AList.update f q (sSubscriptions (stStates st p))\<rparr>)"
  using assms by (cases rule: SetSubscription_cases [of st p f q]) auto

lemma find_Broker_Subscribe:
  "broker_ok b \<Longrightarrow> find (topics (Broker_Subscribe ID f q p b)) g d =
     (if g = f \<and> d = ID p then Some \<lparr>tClientID = ID p, tSubscriber = p, tQoS = q\<rparr> else find (topics b) g d)"
  by (simp add: Broker_Subscribe_def broker_ok_def trie.find_sub)

lemma find_Broker_Unsubscribe:
  "broker_ok b \<Longrightarrow> find (topics (Broker_Unsubscribe f c b)) g d = (if g = f \<and> d = c then None else find (topics b) g d)"
  by (simp add: Broker_Unsubscribe_def broker_ok_def trie.find_unsub)

lemma find_Broker_UnsubscribeAll:
  "broker_ok b \<Longrightarrow> find (topics (Broker_UnsubscribeAll c b)) g d = (if d = c then None else find (topics b) g d)"
  by (simp add: Broker_UnsubscribeAll_def broker_ok_def trie.find_unsub_all)

lemma subscribe_one_ok:
  assumes ok: "server_ok s" and p: "p < stNext (svSessions s)" and f: "ValidateTopicFilter f = None" "q \<le> 1"
    and auth: "\<And>l. svAuth s = Some l \<Longrightarrow> CanSubscribe (stateOwner s p) f l = Some True"
    and set: "SetSubscription p f q (svSessions s) = (None, st)"
  shows "server_ok (s\<lparr>svSessions := st, svBroker := Broker_Subscribe (stateID s) f q p (svBroker s)\<rparr>)"
    (is "server_ok ?s'")
proof -
  note D = server_okD [OF ok]
  let ?i = "sID (stStates (svSessions s) p)" and ?m = "sSubscriptions (stStates (svSessions s) p)"
  from SetSubscription_stored [OF set] have st: "stData st = stData (svSessions s)" "stNext st = stNext (svSessions s)"
      "stStates st = (stStates (svSessions s))(p := (stStates (svSessions s) p)\<lparr>sSubscriptions := AList.update f q ?m\<rparr>)"
    and live: "map_of (stData (svSessions s)) ?i = Some p"
    using live_iff [OF D(7) p] by auto
  have only: "map_of (stData (svSessions s)) j = Some p \<Longrightarrow> j = ?i" for j
    using D(7) by (auto simp: directory_ok_def dest: map_of_SomeD)
  have "routing ?s' g j = (if g = f \<and> j = ?i then Some \<lparr>tClientID = ?i, tSubscriber = p, tQoS = q\<rparr> else routing s g j)" for g j
  proof (cases "j = ?i")
    case True
    with live show ?thesis by (simp add: routing_def st map_of_update_iff)
  next
    case False
    then have "map_of (stData (svSessions s)) j \<noteq> Some p" using only by blast
    then show ?thesis using False by (cases "map_of (stData (svSessions s)) j") (simp_all add: routing_def st)
  qed
  then have "routing_ok ?s'"
    by (auto simp: routing_ok_def find_Broker_Subscribe [OF D(1)] D(4) stateID_def intro!: ext)
  moreover have "subs_ok ?s'"
    using D(5) f auth wf_subscriptions [OF D(2) p]
    by (auto simp: subs_ok_def st set_update_alist stateOwner_def split: if_splits)
  moreover have "registry_ok ?s'"
    using D(6) by (auto simp: registry_ok_def registered_def st)
  moreover have "store_ok st" using SetSubscription_ok [OF D(2) p, of f q] set by simp
  ultimately show ?thesis using D(1,3) f(1) by (simp add: server_ok_def Broker_Subscribe_ok)
qed

lemma canSubscribe_Some:
  assumes "canSubscribe who f s = Some (b, s')"
  shows "quiet s s'" and "b \<Longrightarrow> svAuth s = Some l \<Longrightarrow> CanSubscribe who f l = Some True"
  using assms by (auto simp: canSubscribe_def intro: quiet_intros split: option.splits if_splits)

text \<open>What subscribing keeps besides the invariant: everything but subscriptions and counters.\<close>

definition same_sessions :: "server \<Rightarrow> server \<Rightarrow> bool" where
  "same_sessions s s' \<longleftrightarrow> svAuth s' = svAuth s \<and> svEncode s' = svEncode s \<and> svMaxPacketSize s' = svMaxPacketSize s
     \<and> svLimits s' = svLimits s
     \<and> stData (svSessions s') = stData (svSessions s) \<and> stNext (svSessions s') = stNext (svSessions s)
     \<and> svClients s' = svClients s \<and> svNextOwner s' = svNextOwner s \<and> svNextClient s \<le> svNextClient s'
     \<and> (\<forall>op. owner_core (svOwners s' op) = owner_core (svOwners s op))
     \<and> (\<forall>cp < svNextClient s. clID (svHeap s' cp) = clID (svHeap s cp))
     \<and> (\<forall>p. sOwner (stStates (svSessions s') p) = sOwner (stStates (svSessions s) p)
          \<and> sID (stStates (svSessions s') p) = sID (stStates (svSessions s) p))"

lemma same_sessions_refl: "same_sessions s s"
  by (simp add: same_sessions_def)

lemma same_sessions_trans: "same_sessions a b \<Longrightarrow> same_sessions b c \<Longrightarrow> same_sessions a c"
  unfolding same_sessions_def by auto

lemma quiet_same_sessions: "quiet s s' \<Longrightarrow> same_sessions s s'"
  by (simp add: quiet_def same_sessions_def store_quiet_def core_def)

lemma subscribeLoop_ok:
  assumes "server_ok s" "p < stNext (svSessions s)" "list_all subscription_wf subs'"
    and "subscribeLoop p subs' s = Some (codes, s')"
  shows "server_ok s' \<and> same_sessions s s' \<and> length codes = length subs'"
  using assms
proof (induction subs' arbitrary: s s' codes)
  case (Cons sub rest)
  let ?f = "sTopic sub" and ?q = "if sQoS sub > 1 then 1 else sQoS sub"
  from Cons.prems(3) have wf: "ValidateTopicFilter ?f = None" "list_all subscription_wf rest"
    by (auto simp: subscription_wf_def [of sub])
  from Cons.prems(4) obtain allowed s1 where c: "canSubscribe (stateOwner s p) ?f s = Some (allowed, s1)"
    by (auto split: option.splits)
  note q1 = canSubscribe_Some(1) [OF c]
  note ok1 = server_ok_quiet [OF Cons.prems(1) q1] and ss1 = quiet_same_sessions [OF q1]
  have p1: "p < stNext (svSessions s1)" using ss1 Cons.prems(2) by (simp add: same_sessions_def)
  obtain err st where set: "SetSubscription p ?f ?q (svSessions s1) = (err, st)" by fastforce
  define rc :: byte where "rc = (if allowed \<and> err = None then ?q else 0x80)"
  define s2 where "s2 = (if \<not> allowed then s1 else if err \<noteq> None then s1\<lparr>svSessions := st\<rparr>
     else s1\<lparr>svSessions := st, svBroker := Broker_Subscribe (stateID s1) ?f ?q p (svBroker s1)\<rparr>)"
  have step: "subscribeLoop p (sub # rest) s =
      (case subscribeLoop p rest s2 of None \<Rightarrow> None | Some (codes, s) \<Rightarrow> Some (rc # codes, s))"
    using c set unfolding rc_def s2_def by (cases allowed; cases err) (simp_all add: Let_def)
  have ok2: "server_ok s2 \<and> same_sessions s1 s2"
  proof (cases "allowed \<and> err = None")
    case True
    have "?q \<le> 1" by (auto simp: not_less)
    moreover have "CanSubscribe (stateOwner s1 p) ?f l = Some True" if "svAuth s1 = Some l" for l
      using canSubscribe_Some(2) [OF c, of l] True that ss1 by (simp add: same_sessions_def stateOwner_def)
    ultimately have "server_ok s2"
      using subscribe_one_ok [OF ok1 p1 wf(1), of ?q st] set True by (simp add: s2_def)
    moreover have "same_sessions s1 s2"
      using SetSubscription_stored [of p ?f ?q "svSessions s1" st] set True by (simp add: s2_def same_sessions_def)
    ultimately show ?thesis ..
  next
    case False
    then have "quiet s1 s2"
      using SetSubscription_rejected [of p ?f ?q "svSessions s1"] set
      by (cases err) (auto simp: s2_def intro: quiet_intros)
    then show ?thesis using server_ok_quiet [OF ok1] quiet_same_sessions by blast
  qed
  from Cons.prems(4) obtain cs where r: "subscribeLoop p rest s2 = Some (cs, s')" and codes: "codes = rc # cs"
    unfolding step by (auto split: option.splits)
  have "p < stNext (svSessions s2)" using ok2 p1 by (simp add: same_sessions_def)
  from Cons.IH [OF conjunct1 [OF ok2] this wf(2) r] ok2 ss1 show ?case
    by (auto simp: codes intro: same_sessions_trans)
qed (auto simp: same_sessions_refl)

end
