(* ===== verification/ServerStep.thy ===== *)
theory ServerStep
  imports ServerInv
begin

text \<open>
  Every packet handler and every phase of a connection keeps the invariant of the server.  A
  connection that is not done owns its client identifier, which is what the handlers need to know about
  the connection they run for.
\<close>

section \<open>Packet handlers\<close>

definition serving :: "server \<Rightarrow> nat \<Rightarrow> bool" where
  "serving s op \<longleftrightarrow> op < svNextOwner s \<and> \<not> acDone (svOwners s op)"

lemma servingD:
  assumes "server_ok s" and "serving s op"
  defines "cp \<equiv> acClient (svOwners s op)" and "sp \<equiv> acSession (svOwners s op)"
  shows "map_of (svClients s) (clID (svHeap s cp)) = Some op" and "cp < svNextClient s" and "sp < stNext (svSessions s)"
    and "map_of (stData (svSessions s)) (clID (svHeap s cp)) = Some sp" and "sID (stStates (svSessions s) sp) = clID (svHeap s cp)"
    and "sConnected (stStates (svSessions s) sp)" "\<not> sDeleted (stStates (svSessions s) sp)"
proof -
  note D = server_okD [OF assms(1)]
  show 1: "map_of (svClients s) (clID (svHeap s cp)) = Some op"
    using D(6) assms(2) by (simp add: registry_ok_def serving_def cp_def)
  then have r: "registered s (clID (svHeap s cp)) op" using D(6) by (auto simp: registry_ok_def dest!: map_of_SomeD)
  then show "cp < svNextClient s" and m: "map_of (stData (svSessions s)) (clID (svHeap s cp)) = Some sp"
    and "sConnected (stStates (svSessions s) sp)" by (simp_all add: registered_def cp_def sp_def)
  from map_of_SomeD [OF m] D(7) show "sp < stNext (svSessions s)" "sID (stStates (svSessions s) sp) = clID (svHeap s cp)"
    "\<not> sDeleted (stStates (svSessions s) sp)" by (auto simp: directory_ok_def)
qed

lemma quiet_retainedLoop:
  assumes "server_ok s" and "sp < stNext (svSessions s)"
  shows "quiet s (snd (retainedLoop now cp sp code rs s))"
  using assms
proof (induction rs arbitrary: s)
  case (Cons r rs)
  let ?o = "newOutboundPublish r (deliveryQoS (pQoS r) code)"
  note IH = quiet_trans [OF _ Cons.IH [OF server_ok_quiet [OF Cons.prems(1)]]]
  have next_less: "sp < stNext (svSessions s')" if "quiet s s'" for s' using quiet_store(2) [OF that] Cons.prems(2) by simp
  show ?case
  proof (cases "pQoS ?o = 1")
    case True
    show ?thesis
    proof (cases "newPublishTemplate (svEncode s) ?o")
      case (Inl e)
      then show ?thesis using True by (simp add: Let_def quiet_refl)
    next
      case (Inr t)
      obtain x st where a: "Admit now sp (tRaw t) (int (tPacketIDOffset t)) (svSessions s) = (x, st)" by fastforce
      have "quiet s (s\<lparr>svSessions := st\<rparr>)"
        using store_quiet_Admit [OF Cons.prems(2), of now "tRaw t" "int (tPacketIDOffset t)"] a by (intro quiet_sessions) simp
      then show ?thesis using True Inr a IH next_less by (cases x) (simp_all add: Let_def)
    qed
  next
    case False
    show ?thesis
    proof (cases "svEncode s ?o")
      case (Inl e)
      then show ?thesis using False by (simp add: Let_def quiet_refl)
    next
      case (Inr raw)
      obtain err c where e: "Enqueue raw (svHeap s cp) = (err, c)" by fastforce
      have "quiet s (setClient cp c s)"
        using clID_ops(3) [of raw "svHeap s cp"] e by (intro quiet_setClient) simp
      then show ?thesis using False Inr e IH next_less by (cases err) (simp_all add: Let_def)
    qed
  qed
qed (simp add: quiet_refl)

lemma quiet_replayLoop:
  assumes "server_ok s" and "sp < stNext (svSessions s)"
  shows "quiet s (snd (replayLoop now cp sp rest s))"
  using assms
proof (induction rest arbitrary: s)
  case (Cons x rest)
  obtain sub code where x: "x = (sub, code)" by fastforce
  obtain e s' where r: "retainedLoop now cp sp code (RetainedMatching (sTopic sub) (svBroker s)) s = (e, s')" by fastforce
  with quiet_retainedLoop [OF Cons.prems, of now cp code] have q: "quiet s s'" by (metis snd_conv)
  have "sp < stNext (svSessions s')" using quiet_store(2) [OF q] Cons.prems(2) by simp
  from quiet_trans [OF q Cons.IH [OF server_ok_quiet [OF Cons.prems(1) q] this]] Cons.IH [OF Cons.prems] q r
  show ?case by (cases e) (simp_all add: x)
qed (simp add: quiet_refl)

lemma quiet_pause: "sp < stNext (svSessions s) \<Longrightarrow> quiet s (pauseDelivery sp s)"
  unfolding pauseDelivery_def by (intro quiet_intros)

lemma quiet_resume: "sp < stNext (svSessions s) \<Longrightarrow> quiet s (resumeDelivery sp s)"
  unfolding resumeDelivery_def by (intro quiet_intros)

text \<open>A quiet step after a step that keeps the sessions.\<close>

lemma keeps_quiet:
  assumes "server_ok s \<and> same_sessions s0 s" and "quiet s s'"
  shows "server_ok s' \<and> same_sessions s0 s'"
  using assms server_ok_quiet quiet_same_sessions same_sessions_trans by blast

lemma handleSubscribe_ok:
  assumes ok: "server_ok s" and sp: "sp < stNext (svSessions s)" and wf: "list_all subscription_wf (spSubscriptions p)"
    and h: "handleSubscribe now net cp sp p s = Some (e, s')"
  shows "server_ok s' \<and> same_sessions s s'"
proof -
  note q0 = quiet_pause [OF sp]
  have sp0: "sp < stNext (svSessions (pauseDelivery sp s))" using quiet_store(2) [OF q0] sp by simp
  from h obtain codes s1 where l: "subscribeLoop sp (spSubscriptions p) (pauseDelivery sp s) = Some (codes, s1)"
    by (auto simp: handleSubscribe_def split: option.splits)
  from subscribeLoop_ok [OF server_ok_quiet [OF ok q0] sp0 wf l] quiet_same_sessions [OF q0]
  have k1: "server_ok s1 \<and> same_sessions s s1" by (blast intro: same_sessions_trans)
  obtain e2 s2 where s2: "sendPacket net cp (SubAckPacket \<lparr>saPacketID = spPacketID p, saReturnCodes = codes\<rparr>) s1 = (e2, s2)" by fastforce
  with quiet_sendPacket [of s1 net cp "SubAckPacket \<lparr>saPacketID = spPacketID p, saReturnCodes = codes\<rparr>"]
  have k2: "server_ok s2 \<and> same_sessions s s2" using keeps_quiet [OF k1] by simp
  have n: "sp < stNext (svSessions x)" if "same_sessions s x" for x using that sp by (simp add: same_sessions_def)
  obtain e3 s3 where s3: "replayLoop now cp sp (zip (spSubscriptions p) codes) s2 = (e3, s3)" by fastforce
  with quiet_replayLoop [of s2 sp now cp "zip (spSubscriptions p) codes"] k2 n
  have k3: "server_ok s3 \<and> same_sessions s s3" using keeps_quiet [OF k2] by simp
  have "s' = resumeDelivery sp s2 \<or> s' = resumeDelivery sp s3"
    using h by (auto simp: handleSubscribe_def l s2 s3 split: option.splits)
  then show ?thesis using keeps_quiet [OF k2 quiet_resume] keeps_quiet [OF k3 quiet_resume] n k2 k3 by blast
qed

lemma unsubscribe_one_ok:
  assumes ok: "server_ok s" and p: "p < stNext (svSessions s)" and live: "map_of (stData (svSessions s)) i = Some p"
  shows "server_ok (s\<lparr>svBroker := Broker_Unsubscribe f i (svBroker s), svSessions := DeleteSubscription p f (svSessions s)\<rparr>)
    \<and> same_sessions s (s\<lparr>svBroker := Broker_Unsubscribe f i (svBroker s), svSessions := DeleteSubscription p f (svSessions s)\<rparr>)"
    (is "server_ok ?s' \<and> _")
proof -
  note D = server_okD [OF ok]
  let ?m = "sSubscriptions (stStates (svSessions s) p)" and ?st = "DeleteSubscription p f (svSessions s)"
  have wf: "wf_map ?m" by (rule wf_subscriptions [OF D(2) p])
  have st: "stData ?st = stData (svSessions s)" "stNext ?st = stNext (svSessions s)"
    by (simp_all add: DeleteSubscription_def Let_def)
  have same: "AList.delete f ?m = ?m" if "map_of ?m f = None"
    using that by (simp add: delete_idem map_of_eq_None_iff)
  have sts: "stStates ?st = (stStates (svSessions s))(p := (stStates (svSessions s) p)\<lparr>sSubscriptions := AList.delete f ?m\<rparr>)"
    using same by (auto simp: DeleteSubscription_def Let_def)
  have only: "map_of (stData (svSessions s)) j = Some p \<Longrightarrow> j = i" for j
    using D(7) live by (auto simp: directory_ok_def dest!: map_of_SomeD)
  have "routing ?s' g j = (if g = f \<and> j = i then None else routing s g j)" for g j
  proof (cases "j = i")
    case True
    with live show ?thesis by (simp add: routing_def st sts map_of_delete_iff)
  next
    case False
    then have "map_of (stData (svSessions s)) j \<noteq> Some p" using only by blast
    then show ?thesis using False by (cases "map_of (stData (svSessions s)) j") (simp_all add: routing_def st sts)
  qed
  then have "routing_ok ?s'"
    by (auto simp: routing_ok_def find_Broker_Unsubscribe [OF D(1)] D(4) intro!: ext)
  moreover have "subs_ok ?s'" using D(5) by (auto simp: subs_ok_def st sts set_delete_alist)
  moreover have "registry_ok ?s'" using D(6) by (auto simp: registry_ok_def registered_def st sts)
  ultimately have "server_ok ?s'"
    using D(1-3) p by (simp add: server_ok_def Broker_Unsubscribe_ok DeleteSubscription_ok)
  moreover have "same_sessions s ?s'" by (simp add: same_sessions_def st sts)
  ultimately show ?thesis ..
qed

lemma unsubscribeLoop_ok:
  assumes "server_ok s" "sp < stNext (svSessions s)" "map_of (stData (svSessions s)) (clID (svHeap s cp)) = Some sp" "cp < svNextClient s"
  shows "server_ok (unsubscribeLoop cp sp flts s) \<and> same_sessions s (unsubscribeLoop cp sp flts s)"
  using assms
proof (induction flts arbitrary: s)
  case (Cons f flts)
  let ?s' = "s\<lparr>svBroker := Broker_Unsubscribe f (clID (svHeap s cp)) (svBroker s), svSessions := DeleteSubscription sp f (svSessions s)\<rparr>"
  from unsubscribe_one_ok [OF Cons.prems(1-3), of f] have k: "server_ok ?s'" "same_sessions s ?s'" by auto
  then have "sp < stNext (svSessions ?s')" "map_of (stData (svSessions ?s')) (clID (svHeap ?s' cp)) = Some sp" "cp < svNextClient ?s'"
    using Cons.prems by (simp_all add: same_sessions_def)
  from Cons.IH [OF k(1) this] k(2) show ?case by (auto intro: same_sessions_trans)
qed (simp add: same_sessions_refl)

lemma handleUnsubscribe_ok:
  assumes "server_ok s" "sp < stNext (svSessions s)" "map_of (stData (svSessions s)) (clID (svHeap s cp)) = Some sp" "cp < svNextClient s"
  shows "server_ok (snd (handleUnsubscribe net cp sp p s)) \<and> same_sessions s (snd (handleUnsubscribe net cp sp p s))"
  unfolding handleUnsubscribe_def by (rule keeps_quiet [OF unsubscribeLoop_ok [OF assms] quiet_sendPacket])

lemma handlePacket_ok:
  assumes ok: "server_ok s" and op: "serving s op" and wf: "packet_wf pkt"
    and h: "handlePacket now net (acClient (svOwners s op)) (acSession (svOwners s op)) pkt s = Some (e, s')"
  shows "server_ok s' \<and> same_sessions s s'"
proof -
  note V = servingD [OF ok op]
  have k0: "server_ok s \<and> same_sessions s s" using ok same_sessions_refl by blast
  note qk = keeps_quiet [OF k0]
  show ?thesis
  proof (cases pkt)
    case (PublishPacket p)
    obtain b s1 where c: "canPublish (stateOwner s (acSession (svOwners s op))) (pTopic p) s = (b, s1)" by fastforce
    with quiet_canPublish [of s "stateOwner s (acSession (svOwners s op))" "pTopic p"] have k1: "server_ok s1 \<and> same_sessions s s1"
      using qk by simp
    from keeps_quiet [OF k1 quiet_handlePublish, of now net "acClient (svOwners s op)" p] k1 h c show ?thesis
      by (cases b) (auto simp: handlePacket_def PublishPacket)
  next
    case (SubscribePacket p)
    with wf have "list_all subscription_wf (spSubscriptions p)" by simp
    from handleSubscribe_ok [OF ok V(3) this] h show ?thesis by (simp add: handlePacket_def SubscribePacket)
  next
    case (UnsubscribePacket p)
    with h handleUnsubscribe_ok [OF ok V(3,4,2), of net p] show ?thesis by (simp add: handlePacket_def)
  next
    case (PubAckPacket i)
    with h qk [OF quiet_sessions [OF store_quiet_Ack [OF V(3)]], of i] show ?thesis
      by (simp add: handlePacket_def handlePubAck_def)
  next
    case PingReqPacket
    with h qk [OF quiet_sendPacket, of net "acClient (svOwners s op)" PingRespPacket] show ?thesis
      by (simp add: handlePacket_def handlePing_def)
  qed (use h k0 in \<open>auto simp: handlePacket_def\<close>)
qed

end
