(* ===== verification/ServerAcquire.thy ===== *)
theory ServerAcquire
  imports ServerStep
begin

text \<open>
  Opening, acquiring and closing sessions keep the invariant of the server, and so does expiry.
\<close>

section \<open>Removing a session\<close>

text \<open>How the store looks when the session of \<open>i\<close>, if there is one, has been deleted.\<close>

definition without :: "string \<Rightarrow> session_store \<Rightarrow> session_store \<Rightarrow> bool" where
  "without i st st' \<longleftrightarrow> store_ok st' \<and> stData st' = AList.delete i (stData st) \<and> stNext st' = stNext st
     \<and> (\<forall>q. stStates st' q = (if map_of (stData st) i = Some q then deletedState (stStates st q) else stStates st q))"

lemma without_deleteLocked: "store_ok st \<Longrightarrow> without i st (deleteLocked i st)"
proof (cases "map_of (stData st) i")
  case None
  then have "AList.delete i (stData st) = stData st" by (simp add: delete_idem map_of_eq_None_iff)
  moreover assume "store_ok st"
  ultimately show ?thesis using None by (simp add: without_def deleteLocked_def)
next
  case (Some p)
  assume "store_ok st"
  from deleteLocked_ok [OF this, of i] Some show ?thesis by (simp add: without_def deleteLocked_def Let_def)
qed

lemma without_ExpireSession:
  assumes "store_ok st" and "ExpireSession i now st = (b, st')"
  shows "if b then without i st st' else st' = st"
proof (cases "map_of (stData st) i")
  case None
  with assms(2) show ?thesis by (simp add: ExpireSession_def expireLocked_def)
next
  case (Some p)
  then have e: "expireLocked (Some p) now st = (b, st')" using assms(2) by (simp add: ExpireSession_def)
  note step = expireLocked_step [OF assms(1) map_of_SomeD [OF Some] e]
  show ?thesis
  proof (cases b)
    case True
    then show ?thesis using step Some by (simp add: without_def)
  next
    case False
    then show ?thesis using e by (auto simp: expireLocked_def Let_def split: if_splits)
  qed
qed

lemma deletedState_core [simp]:
  "sSubscriptions (deletedState s) = []" "sOwner (deletedState s) = sOwner s" "sID (deletedState s) = sID s"
  "sDeleted (deletedState s)" "sConnected (deletedState s) = sConnected s"
  by (simp_all add: deletedState_def notifyLocked_def)

text \<open>The invariant but for the identifier \<open>i\<close>, whose connected session need not be registered.\<close>

definition registry_but :: "string \<Rightarrow> server \<Rightarrow> bool" where
  "registry_but i s \<longleftrightarrow> wf_map (svClients s) \<and> (\<forall>(j, op) \<in> set (svClients s). registered s j op)
     \<and> (\<forall>(j, p) \<in> set (stData (svSessions s)). j \<noteq> i \<and> sConnected (stStates (svSessions s) p) \<longrightarrow> map_of (svClients s) j \<noteq> None)
     \<and> (\<forall>op < svNextOwner s. \<not> acDone (svOwners s op) \<longrightarrow>
          map_of (svClients s) (clID (svHeap s (acClient (svOwners s op)))) = Some op)
     \<and> map_of (svClients s) i = None"

definition server_ok_but :: "string \<Rightarrow> server \<Rightarrow> bool" where
  "server_ok_but i s \<longleftrightarrow> broker_ok (svBroker s) \<and> store_ok (svSessions s) \<and> group_ok (svLimits s) (svGroup s)
     \<and> routing_ok s \<and> subs_ok s \<and> registry_but i s"

lemma server_ok_butI: "server_ok s \<Longrightarrow> map_of (svClients s) i = None \<Longrightarrow> server_ok_but i s"
  by (auto simp: server_ok_def server_ok_but_def registry_ok_def registry_but_def)

lemma server_ok_butD:
  assumes "server_ok_but i s"
  shows "broker_ok (svBroker s)" "store_ok (svSessions s)" "group_ok (svLimits s) (svGroup s)"
    and "find (topics (svBroker s)) = routing s" "subs_ok s" "registry_but i s" "directory_ok (svSessions s)"
    and "map_of (svClients s) i = None"
  using assms store_okD(1) [of "svSessions s"] by (auto simp: server_ok_but_def routing_ok_def registry_but_def)

lemma remove_session_ok:
  assumes ok: "server_ok_but i s" and st: "without i (svSessions s) st"
  shows "server_ok (unsubscribeClient i (s\<lparr>svSessions := st\<rparr>))" (is "server_ok ?s'")
proof -
  note D = server_ok_butD [OF ok]
  have data: "stData st = AList.delete i (stData (svSessions s))" "stNext st = stNext (svSessions s)" and sok: "store_ok st"
    and sts: "\<And>q. stStates st q = (if map_of (stData (svSessions s)) i = Some q then deletedState (stStates (svSessions s) q) else stStates (svSessions s) q)"
    using st by (simp_all add: without_def)
  have other: "stStates st q = stStates (svSessions s) q" if "(j, q) \<in> set (stData (svSessions s))" "j \<noteq> i" for j q
    using that D(7) by (auto simp: sts directory_ok_def dest!: map_of_SomeD)
  have "routing ?s' g j = (if j = i then None else routing s g j)" for g j
  proof (cases "j = i \<or> map_of (stData (svSessions s)) j = None")
    case True
    then show ?thesis by (auto simp: routing_def unsubscribeClient_def data map_of_delete_iff)
  next
    case False
    then obtain q where q: "map_of (stData (svSessions s)) j = Some q" "j \<noteq> i" by blast
    with other [OF map_of_SomeD [OF q(1)]] show ?thesis
      by (simp add: routing_def unsubscribeClient_def data map_of_delete_iff)
  qed
  then have "routing_ok ?s'"
    by (auto simp: routing_ok_def unsubscribeClient_def find_Broker_UnsubscribeAll [OF D(1)] D(4) intro!: ext)
  moreover have "subs_ok ?s'" using D(5) by (auto simp: subs_ok_def unsubscribeClient_def data sts)
  moreover have "registered ?s' j op" if "(j, op) \<in> set (svClients s)" for j op
  proof -
    have "registered s j op" and "j \<noteq> i" using D(6) that by (auto simp: registry_but_def map_of_eq_None_iff dest: in_keys)
    moreover from this have "stStates st (acSession (svOwners s op)) = stStates (svSessions s) (acSession (svOwners s op))"
      by (auto simp: registered_def intro: other [OF map_of_SomeD])
    ultimately show ?thesis by (simp add: registered_def unsubscribeClient_def data map_of_delete_iff)
  qed
  then have "registry_ok ?s'"
    using D(6) other by (auto simp: registry_ok_def registry_but_def unsubscribeClient_def data set_delete_alist)
  ultimately show ?thesis
    using D(1,3) sok by (simp add: server_ok_def unsubscribeClient_def Broker_UnsubscribeAll_ok)
qed

text \<open>What session operations leave alone.\<close>

definition same_registry :: "server \<Rightarrow> server \<Rightarrow> bool" where
  "same_registry s s' \<longleftrightarrow> svAuth s' = svAuth s \<and> svEncode s' = svEncode s \<and> svMaxPacketSize s' = svMaxPacketSize s
     \<and> svLimits s' = svLimits s \<and> svGroup s' = svGroup s \<and> svClients s' = svClients s \<and> svOwners s' = svOwners s
     \<and> svNextOwner s' = svNextOwner s \<and> svHeap s' = svHeap s \<and> svNextClient s' = svNextClient s"

section \<open>Opening a session\<close>

lemma create_ok:
  assumes ok: "server_ok s" and "map_of (stData (svSessions s)) i = None"
    and g: "GetOrCreateOwned now i own (svSessions s) = (Inr (p, False), st)"
  shows "server_ok (s\<lparr>svSessions := st\<rparr>)" (is "server_ok ?s'")
proof -
  note D = server_okD [OF ok]
  have st: "st = (setState p (newState now i own) (svSessions s))\<lparr>stNext := p + 1, stData := AList.update i p (stData (svSessions s))\<rparr>"
    and p: "p = stNext (svSessions s)"
    using g assms(2) by (auto simp: GetOrCreateOwned_def Let_def split: if_splits)
  have wf: "wf_map (stData (svSessions s))" using D(7) by (simp add: directory_ok_def)
  have fresh: "q \<noteq> p" if "(j, q) \<in> set (stData (svSessions s))" for j q using that D(7) by (auto simp: directory_ok_def p)
  have new: "sSubscriptions (newState now i own) = []" "\<not> sConnected (newState now i own)" by (simp_all add: newState_def)
  have "routing ?s' g j = routing s g j" for g j
  proof (cases "j = i")
    case True
    then show ?thesis using assms(2) by (simp add: routing_def st map_of_update_iff new)
  next
    case False
    then show ?thesis using fresh
      by (cases "map_of (stData (svSessions s)) j") (auto simp: routing_def st map_of_update_iff dest!: map_of_SomeD)
  qed
  then have "routing_ok ?s'" using D(4) by (auto simp: routing_ok_def intro!: ext)
  moreover have "subs_ok ?s'" using D(5) by (auto simp: subs_ok_def st new p less_Suc_eq)
  moreover have "registered ?s' j op" if "registered s j op" for j op
  proof -
    from that have m: "map_of (stData (svSessions s)) j = Some (acSession (svOwners s op))" by (simp add: registered_def)
    then have "j \<noteq> i" "acSession (svOwners s op) \<noteq> p" using assms(2) fresh [OF map_of_SomeD] by auto
    with that show ?thesis by (simp add: registered_def st map_of_update_iff)
  qed
  then have "registry_ok ?s'"
    using D(6) fresh by (auto simp: registry_ok_def st set_update_alist [OF wf] new)
  moreover have "store_ok st" using GetOrCreateOwned_ok [OF D(2), of now i own] g by simp
  ultimately show ?thesis using D(1,3) by (simp add: server_ok_def)
qed

lemma GetOrCreateOwned_cases:
  obtains (found) p where "map_of (stData st) i = Some p" "sOwner (stStates st p) = own" "GetOrCreateOwned now i own st = (Inr (p, True), st)"
  | (owner) p where "map_of (stData st) i = Some p" "sOwner (stStates st p) \<noteq> own" "GetOrCreateOwned now i own st = (Inl ErrSessionOwner, st)"
  | (limit) "map_of (stData st) i = None" "GetOrCreateOwned now i own st =
        (Inl ErrSessionLimit, st\<lparr>stTotals := (stTotals st)\<lparr>mSessionRejections := mSessionRejections (stTotals st) + 1\<rparr>\<rparr>)"
  | (created) st' where "map_of (stData st) i = None" "GetOrCreateOwned now i own st = (Inr (stNext st, False), st')"
      "map_of (stData st') i = Some (stNext st)" "stNext st' = stNext st + 1" "sOwner (stStates st' (stNext st)) = own"
proof (cases "map_of (stData st) i")
  case None
  then show thesis using limit created
    by (cases "int (length (stData st)) \<ge> MaxSessions (stLimits st)")
       (simp_all add: GetOrCreateOwned_def Let_def map_of_update_iff newState_def)
next
  case (Some p)
  then show thesis using found owner by (cases "sOwner (stStates st p) = own") (simp_all add: GetOrCreateOwned_def)
qed

text \<open>The part of \<^verbatim>\<open>openSession\<close> before the session is looked up.\<close>

definition preparedFor :: "int \<Rightarrow> connect_packet \<Rightarrow> server \<Rightarrow> server" where
  "preparedFor now connect s =
     (let i = cClientID connect;
          (gone, st) = ExpireSession i now (svSessions s);
          s = s\<lparr>svSessions := st\<rparr>;
          s = (if gone then unsubscribeClient i s else s)
      in if cCleanSession connect
         then (let s = unsubscribeClient i s in s\<lparr>svSessions := Store_Delete i (svSessions s)\<rparr>)
         else s)"

lemma openSession_prepared:
  "openSession now connect who s =
     (case GetOrCreateOwned now (cClientID connect) who (svSessions (preparedFor now connect s)) of
        (r, st) \<Rightarrow> (r, (preparedFor now connect s)\<lparr>svSessions := st\<rparr>))"
  by (auto simp: openSession_def preparedFor_def Let_def split: prod.splits)

lemma preparedFor_ok:
  assumes ok: "server_ok s" and free: "map_of (svClients s) (cClientID connect) = None"
  shows "server_ok (preparedFor now connect s) \<and> same_registry s (preparedFor now connect s)
    \<and> (cCleanSession connect \<longrightarrow> map_of (stData (svSessions (preparedFor now connect s))) (cClientID connect) = None)"
proof -
  let ?i = "cClientID connect"
  obtain gone st where e: "ExpireSession ?i now (svSessions s) = (gone, st)" by fastforce
  define s1 where "s1 = (if gone then unsubscribeClient ?i (s\<lparr>svSessions := st\<rparr>) else s)"
  have ok1: "server_ok s1" and r1: "same_registry s s1"
    using without_ExpireSession [OF server_okD(2) [OF ok] e] remove_session_ok [OF server_ok_butI [OF ok free], of st] ok
    by (auto simp: s1_def same_registry_def unsubscribeClient_def)
  have p: "preparedFor now connect s =
      (if cCleanSession connect then unsubscribeClient ?i (s1\<lparr>svSessions := deleteLocked ?i (svSessions s1)\<rparr>) else s1)"
    using without_ExpireSession [OF server_okD(2) [OF ok] e]
    by (auto simp: preparedFor_def e s1_def unsubscribeClient_def Store_Delete_def Let_def)
  have free1: "map_of (svClients s1) ?i = None" using r1 free by (simp add: same_registry_def)
  note w = without_deleteLocked [OF server_okD(2) [OF ok1], of ?i]
  have "map_of (stData (deleteLocked ?i (svSessions s1))) ?i = None" using w by (simp add: without_def map_of_delete_iff)
  moreover have "server_ok (preparedFor now connect s)" using remove_session_ok [OF server_ok_butI [OF ok1 free1] w] ok1 by (simp add: p)
  moreover have "same_registry s (preparedFor now connect s)" using r1 by (simp add: p same_registry_def unsubscribeClient_def)
  ultimately show ?thesis by (simp add: p unsubscribeClient_def)
qed

lemma openSession_ok:
  assumes ok: "server_ok s" and free: "map_of (svClients s) (cClientID connect) = None"
    and o: "openSession now connect who s = (r, s')"
  shows "server_ok s' \<and> same_registry s s'
    \<and> (\<forall>sp present. r = Inr (sp, present) \<longrightarrow> map_of (stData (svSessions s')) (cClientID connect) = Some sp
         \<and> stateOwner s' sp = who \<and> (cCleanSession connect \<longrightarrow> \<not> present))"
proof -
  let ?i = "cClientID connect" and ?s = "preparedFor now connect s"
  from preparedFor_ok [OF ok free, of now] have k: "server_ok ?s" "same_registry s ?s"
    and cl: "cCleanSession connect \<Longrightarrow> map_of (stData (svSessions ?s)) ?i = None" by auto
  obtain st where g: "GetOrCreateOwned now ?i who (svSessions ?s) = (r, st)" and s': "s' = ?s\<lparr>svSessions := st\<rparr>"
    using o by (auto simp: openSession_prepared split: prod.splits)
  have reg: "same_registry s s'" using k(2) by (simp add: s' same_registry_def)
  show ?thesis
  proof (cases rule: GetOrCreateOwned_cases [of "svSessions ?s" ?i who now])
    case (found p)
    then show ?thesis using g reg k(1) cl by (auto simp: s' stateOwner_def)
  next
    case (owner p)
    then show ?thesis using g reg k(1) by (auto simp: s')
  next
    case limit
    then have "quiet ?s s'" using g
      by (auto simp: s' store_quiet_def store_ok_totals intro!: quiet_sessions)
    then show ?thesis using limit g reg server_ok_quiet [OF k(1)] by auto
  next
    case (created st')
    then have "server_ok s'" using create_ok [OF k(1) created(1), of now who "stNext (svSessions ?s)" st] g by (simp add: s')
    then show ?thesis using created g reg by (auto simp: s' stateOwner_def)
  qed
qed

section \<open>Acquiring the identifier\<close>

text \<open>Subscribing again what the tree already has changes nothing that is observable.\<close>

lemma restore_loop:
  assumes "broker_ok (svBroker s)"
    and "\<forall>(f, q) \<in> set m. ValidateTopicFilter f = None
      \<and> find (topics (svBroker s)) f (stateID s sp) = Some \<lparr>tClientID = stateID s sp, tSubscriber = sp, tQoS = q\<rparr>"
  shows "\<exists>b. foldl (\<lambda>s (flt, qos). s\<lparr>svBroker := Broker_Subscribe (stateID s) flt qos sp (svBroker s)\<rparr>) s m = s\<lparr>svBroker := b\<rparr>
    \<and> broker_ok b \<and> find (topics b) = find (topics (svBroker s))"
  using assms
proof (induction m arbitrary: s)
  case (Cons x m)
  obtain f q where x: "x = (f, q)" by fastforce
  let ?b = "Broker_Subscribe (stateID s) f q sp (svBroker s)"
  let ?s = "s\<lparr>svBroker := ?b\<rparr>"
  have f: "ValidateTopicFilter f = None" "find (topics (svBroker s)) f (stateID s sp) = Some \<lparr>tClientID = stateID s sp, tSubscriber = sp, tQoS = q\<rparr>"
    using Cons.prems(2) x by auto
  have b: "broker_ok ?b" using Cons.prems(1) f(1) by (rule Broker_Subscribe_ok)
  have e: "find (topics ?b) = find (topics (svBroker s))"
    using f(2) by (auto simp: find_Broker_Subscribe [OF Cons.prems(1)] intro!: ext)
  have i: "stateID ?s = stateID s" by (simp add: stateID_def fun_eq_iff)
  have "\<exists>b. foldl (\<lambda>s (flt, qos). s\<lparr>svBroker := Broker_Subscribe (stateID s) flt qos sp (svBroker s)\<rparr>) ?s m = ?s\<lparr>svBroker := b\<rparr>
    \<and> broker_ok b \<and> find (topics b) = find (topics (svBroker ?s))"
    using Cons.prems(2) b e by (intro Cons.IH) (auto simp: i)
  then show ?case by (simp add: x e)
next
  case Nil
  then show ?case by (intro exI [of _ "svBroker s"]) simp
qed

lemma restoreSubscriptions_eq:
  assumes ok: "broker_ok (svBroker s)" "store_ok (svSessions s)" "routing_ok s" "subs_ok s"
    and live: "map_of (stData (svSessions s)) i = Some sp"
  shows "\<exists>b. restoreSubscriptions sp s = s\<lparr>svBroker := b\<rparr> \<and> broker_ok b \<and> find (topics b) = find (topics (svBroker s))"
proof -
  have d: "directory_ok (svSessions s)" using store_okD(1) [OF ok(2)] .
  with live have sp: "sp < stNext (svSessions s)" and i: "stateID s sp = i"
    by (auto simp: directory_ok_def stateID_def dest!: map_of_SomeD)
  note wf = wf_subscriptions [OF ok(2) sp]
  have "ValidateTopicFilter f = None
      \<and> find (topics (svBroker s)) f (stateID s sp) = Some \<lparr>tClientID = stateID s sp, tSubscriber = sp, tQoS = q\<rparr>"
    if "(f, q) \<in> set (SnapshotSubscriptions sp (svSessions s))" for f q
  proof -
    from that have m: "(f, q) \<in> set (sSubscriptions (stStates (svSessions s) sp))" by (simp add: SnapshotSubscriptions_def)
    with ok(4) sp have "ValidateTopicFilter f = None" by (auto simp: subs_ok_def)
    moreover have "map_of (sSubscriptions (stStates (svSessions s) sp)) f = Some q" using m wf by simp
    ultimately show ?thesis using ok(3) live i by (simp add: routing_ok_def routing_def)
  qed
  then show ?thesis unfolding restoreSubscriptions_def by (intro restore_loop [OF ok(1)]) auto
qed

lemma routing_cong: "svSessions s' = svSessions s \<Longrightarrow> routing s' = routing s"
  by (intro ext) (simp add: routing_def split: option.split)

lemma connect_ok:
  assumes ok: "server_ok s" and free: "map_of (svClients s) i = None" and cp: "cp < svNextClient s" "clID (svHeap s cp) = i"
    and live: "map_of (stData (svSessions s)) i = Some sp"
    and a: "acClient a = cp" "acSession a = sp" "\<not> acDone a"
  defines "s1 \<equiv> restoreSubscriptions sp (s\<lparr>svSessions := MarkConnected sp (svSessions s)\<rparr>)"
  shows "server_ok ((setOwner (svNextOwner s) a s1)\<lparr>svNextOwner := svNextOwner s + 1, svClients := AList.update i (svNextOwner s) (svClients s)\<rparr>)"
    (is "server_ok ?s'")
proof -
  note D = server_okD [OF ok]
  let ?st = "MarkConnected sp (svSessions s)" and ?op = "svNextOwner s"
  from map_of_SomeD [OF live] D(7) have sp: "sp < stNext (svSessions s)" "\<not> sDeleted (stStates (svSessions s) sp)"
    by (auto simp: directory_ok_def)
  have st: "stData ?st = stData (svSessions s)" "stNext ?st = stNext (svSessions s)"
    "stStates ?st = (stStates (svSessions s))(sp := (stStates (svSessions s) sp)\<lparr>sConnected := True, sOfflineSince := None\<rparr>)"
    using sp by (simp_all add: MarkConnected_def Let_def)
  have sok: "store_ok ?st" using D(2) sp(1) by (rule MarkConnected_ok)
  have r: "routing (s\<lparr>svSessions := ?st\<rparr>) = routing s"
    by (intro ext) (auto simp: routing_def st split: option.splits)
  have sub: "subs_ok (s\<lparr>svSessions := ?st\<rparr>)" using D(5) by (auto simp: subs_ok_def st)
  have "\<exists>b. s1 = s\<lparr>svSessions := ?st, svBroker := b\<rparr> \<and> broker_ok b \<and> find (topics b) = find (topics (svBroker s))"
    unfolding s1_def using restoreSubscriptions_eq [of "s\<lparr>svSessions := ?st\<rparr>" i sp] D(1,4) sok r sub live
    by (auto simp: routing_ok_def st)
  then obtain b where s1: "s1 = s\<lparr>svSessions := ?st, svBroker := b\<rparr>" and b: "broker_ok b" "find (topics b) = find (topics (svBroker s))"
    by blast
  have wf: "wf_map (svClients s)" using D(6) by (simp add: registry_ok_def)
  have "routing ?s' = routing s" using r routing_cong [of ?s' "s\<lparr>svSessions := ?st\<rparr>"] by (simp add: s1 setOwner_def)
  then have "routing_ok ?s'" using b(2) D(4) by (simp add: routing_ok_def s1 setOwner_def)
  moreover have "subs_ok ?s'" using sub by (simp add: subs_ok_def s1 setOwner_def)
  moreover have "registered ?s' i ?op" using a cp live by (simp add: registered_def s1 setOwner_def st)
  moreover have "registered ?s' j op" if "(j, op) \<in> set (svClients s)" for j op
    using that D(6) by (auto simp: registry_ok_def registered_def s1 setOwner_def st)
  moreover have "clID (svHeap s (acClient (svOwners s op))) \<noteq> i \<and> map_of (svClients s) (clID (svHeap s (acClient (svOwners s op)))) = Some op"
    if "op < ?op" "\<not> acDone (svOwners s op)" for op using that D(6) free by (auto simp: registry_ok_def)
  moreover have "map_of (svClients s) j \<noteq> None" if "(j, q) \<in> set (stData (svSessions s))" "sConnected (stStates (svSessions s) q)" for j q
    using that D(6) by (auto simp: registry_ok_def)
  moreover have "j = i" if "(j, sp) \<in> set (stData (svSessions s))" for j
    using that map_of_SomeD [OF live] D(7) by (auto simp: directory_ok_def)
  ultimately have "registry_ok ?s'"
    using cp a unfolding registry_ok_def
    by (auto simp: set_update_alist [OF wf] wf_map_update wf s1 setOwner_def st map_of_update_iff less_Suc_eq split: if_splits)
  with \<open>routing_ok ?s'\<close> \<open>subs_ok ?s'\<close> show ?thesis using b(1) sok D(3) by (simp add: server_ok_def s1 setOwner_def)
qed

lemma owner_core_beginClosing [simp]: "owner_core (beginClosing now a) = owner_core a"
  by (simp add: beginClosing_def owner_core_def)

lemma acquireStep_ok:
  assumes ok: "server_ok s" and cp: "cp < svNextClient s" "clID (svHeap s cp) = cClientID connect"
    and h: "acquireStep ctxErr now connect cp who s = (r, s')"
  shows "server_ok s'"
proof -
  let ?i = "cClientID connect"
  show ?thesis
  proof (cases "ctxErr \<noteq> None \<or> (case Store_Get ?i (svSessions s) of None \<Rightarrow> False | Some sp \<Rightarrow> stateOwner s sp \<noteq> who)")
    case True
    then show ?thesis using h ok cp(2) by (cases ctxErr) (auto simp: acquireStep_def Let_def)
  next
    case go: False
    show ?thesis
    proof (cases "map_of (svClients s) ?i")
      case (Some previous)
      have "quiet s (closeClient (acClient (svOwners s previous)) (setOwner previous (beginClosing now (svOwners s previous)) s))"
        by (rule quiet_trans [OF quiet_setOwner quiet_closeClient]) simp
      then show ?thesis using h go Some cp(2) server_ok_quiet [OF ok] by (auto simp: acquireStep_def Let_def)
    next
      case None
      obtain r1 s1 where o: "openSession now connect who s = (r1, s1)" by fastforce
      note O = openSession_ok [OF ok None o]
      show ?thesis
      proof (cases r1)
        case (Inl e)
        then show ?thesis using h go None o O cp(2) by (auto simp: acquireStep_def Let_def)
      next
        case (Inr x)
        obtain sp present where x: "x = (sp, present)" by fastforce
        let ?a = "\<lparr>acClient = cp, acSession = sp, acCleanSession = cCleanSession connect, acClosing = False, acReady = False,
          acDisconnectedAt = 0, acDone = False\<rparr>"
        let ?s1 = "restoreSubscriptions sp (s1\<lparr>svSessions := MarkConnected sp (svSessions s1)\<rparr>)"
        have k: "svClients ?s1 = svClients s1 \<and> svNextOwner ?s1 = svNextOwner s1"
        proof -
          have "svClients (foldl (\<lambda>s (flt, qos). s\<lparr>svBroker := Broker_Subscribe (stateID s) flt qos sp (svBroker s)\<rparr>) t m) = svClients t
            \<and> svNextOwner (foldl (\<lambda>s (flt, qos). s\<lparr>svBroker := Broker_Subscribe (stateID s) flt qos sp (svBroker s)\<rparr>) t m) = svNextOwner t" for t m
            by (induction m arbitrary: t) auto
          then show ?thesis by (simp add: restoreSubscriptions_def)
        qed
        have "server_ok ((setOwner (svNextOwner s1) ?a ?s1)\<lparr>svNextOwner := svNextOwner s1 + 1, svClients := AList.update ?i (svNextOwner s1) (svClients s1)\<rparr>)"
          by (rule connect_ok) (use O None cp Inr x in \<open>auto simp: same_registry_def\<close>)
        moreover have "s' = (setOwner (svNextOwner s1) ?a ?s1)\<lparr>svNextOwner := svNextOwner s1 + 1, svClients := AList.update ?i (svNextOwner s1) (svClients s1)\<rparr>"
          using h go None o Inr x cp(2) k by (auto simp: acquireStep_def Let_def)
        ultimately show ?thesis by simp
      qed
    qed
  qed
qed

end
