(* ===== verification/ServerSystem.thy ===== *)
theory ServerSystem
  imports ServerAcquire
begin

text \<open>
  The server as a transition system: closing and expiry keep the invariant, the steps of all goroutines
  are collected in one relation, and every state reachable from a started server satisfies it.
\<close>

section \<open>Closing\<close>

lemma quiet_startClosing: "quiet s (startClosing now op s)"
  unfolding startClosing_def Let_def by (rule quiet_trans [OF quiet_setOwner quiet_closeClient]) simp

text \<open>Taking a connection out of the registry.\<close>

lemma unregister_ok:
  assumes ok: "server_ok s" and op: "serving s op"
  defines "i \<equiv> clID (svHeap s (acClient (svOwners s op)))"
  shows "server_ok_but i ((setOwner op ((svOwners s op)\<lparr>acDone := True\<rparr>) s)\<lparr>svClients := AList.delete i (svClients s)\<rparr>)"
    (is "server_ok_but i ?s'")
proof -
  note D = server_okD [OF ok] and V = servingD [OF ok op, folded i_def]
  have wf: "wf_map (svClients s)" using D(6) by (simp add: registry_ok_def)
  have neq: "op' \<noteq> op" if "(j, op') \<in> set (svClients s)" "j \<noteq> i" for j op'
    using that D(6) by (auto simp: registry_ok_def registered_def i_def)
  have "registered ?s' j op'" if "(j, op') \<in> set (svClients s)" "j \<noteq> i" for j op'
    using that neq [OF that] D(6) by (auto simp: registry_ok_def registered_def setOwner_def)
  moreover have "clID (svHeap s (acClient (svOwners s op'))) \<noteq> i"
    if "op' < svNextOwner s" "\<not> acDone (svOwners s op')" "op' \<noteq> op" for op'
    using that D(6) V(1) by (auto simp: registry_ok_def)
  ultimately have "registry_but i ?s'"
    using D(6) unfolding registry_but_def
    by (auto simp: registry_ok_def setOwner_def set_delete_alist wf_map_delete map_of_delete_iff)
  moreover have "routing ?s' = routing s" by (rule routing_cong) (simp add: setOwner_def)
  ultimately show ?thesis
    using D(1-5) by (simp add: server_ok_but_def routing_ok_def subs_ok_def setOwner_def)
qed

lemma disconnect_ok:
  assumes ok: "server_ok_but i s" and live: "map_of (stData (svSessions s)) i = Some p" and con: "sConnected (stStates (svSessions s) p)"
  shows "server_ok (s\<lparr>svSessions := MarkDisconnectedAt p at (svSessions s)\<rparr>)" (is "server_ok ?s'")
proof -
  note D = server_ok_butD [OF ok]
  let ?st = "MarkDisconnectedAt p at (svSessions s)"
  from map_of_SomeD [OF live] D(7) have p: "p < stNext (svSessions s)" "\<not> sDeleted (stStates (svSessions s) p)"
    by (auto simp: directory_ok_def)
  have st: "stData ?st = stData (svSessions s)" "stNext ?st = stNext (svSessions s)"
    "stStates ?st = (stStates (svSessions s))(p := (stStates (svSessions s) p)\<lparr>sConnected := False, sOfflineSince := Some at\<rparr>)"
    using p con by (simp_all add: MarkDisconnectedAt_def Let_def)
  have only: "j = i" if "(j, p) \<in> set (stData (svSessions s))" for j
    using that map_of_SomeD [OF live] D(7) by (auto simp: directory_ok_def)
  have uniq: "q = p" if "(i, q) \<in> set (stData (svSessions s))" for q
    using that live D(7) by (auto simp: directory_ok_def)
  have "routing ?s' = routing s" by (intro ext) (auto simp: routing_def st split: option.splits)
  then have "routing_ok ?s'" using D(4) by (simp add: routing_ok_def)
  have "subs_ok ?s'" using D(5) by (auto simp: subs_ok_def st)
  have "registered ?s' j op" if "(j, op) \<in> set (svClients s)" for j op
  proof -
    have "registered s j op" and "j \<noteq> i" using D(6,8) that by (auto simp: registry_but_def map_of_eq_None_iff dest: in_keys)
    then show ?thesis using only [of j] by (auto simp: registered_def st dest!: map_of_SomeD)
  qed
  moreover have "\<exists>op. (j, op) \<in> set (svClients s)" if "(j, q) \<in> set (stData (svSessions s))" "sConnected (stStates (svSessions s) q)" "q \<noteq> p" for j q
  proof -
    have "j \<noteq> i" using that uniq by blast
    with that D(6) show ?thesis by (auto simp: registry_but_def)
  qed
  ultimately have "registry_ok ?s'" using D(6) by (auto simp: registry_ok_def registry_but_def st split: if_splits)
  then show ?thesis using D(1-3) p \<open>routing_ok ?s'\<close> \<open>subs_ok ?s'\<close> by (simp add: server_ok_def MarkDisconnectedAt_ok)
qed

lemma closeSession_ok:
  assumes ok: "server_ok s" and op: "serving s op"
  shows "server_ok (closeSession op s)"
proof -
  let ?a = "svOwners s op"
  let ?i = "clID (svHeap s (acClient ?a))"
  let ?s1 = "(setOwner op (?a\<lparr>acDone := True\<rparr>) s)\<lparr>svClients := AList.delete ?i (svClients s)\<rparr>"
  note V = servingD [OF ok op] and u = unregister_ok [OF ok op]
  have st: "svSessions ?s1 = svSessions s" by (simp add: setOwner_def)
  have "closeSession op s =
      (if acCleanSession ?a then unsubscribeClient ?i (?s1\<lparr>svSessions := deleteLocked ?i (svSessions ?s1)\<rparr>)
       else ?s1\<lparr>svSessions := MarkDisconnectedAt (acSession ?a) (acDisconnectedAt ?a) (svSessions ?s1)\<rparr>)"
    using V(1) by (simp add: closeSession_def Let_def setOwner_def unsubscribeClient_def Store_Delete_def)
  moreover have "without ?i (svSessions ?s1) (deleteLocked ?i (svSessions ?s1))"
    by (rule without_deleteLocked) (use server_ok_butD(2) [OF u] in simp)
  ultimately show ?thesis
    using remove_session_ok [OF u] disconnect_ok [OF u, of "acSession ?a"] V(4,6) st by simp
qed

section \<open>Expiry\<close>

lemma unsubscribe_many:
  "broker_ok (svBroker s) \<Longrightarrow> \<exists>b. foldl (\<lambda>s i. unsubscribeClient i s) s is = s\<lparr>svBroker := b\<rparr> \<and> broker_ok b
     \<and> (\<forall>g d. find (topics b) g d = (if d \<in> set is then None else find (topics (svBroker s)) g d))"
proof (induction "is" arbitrary: s)
  case Nil
  then show ?case by (intro exI [of _ "svBroker s"]) simp
next
  case (Cons i "is")
  let ?b = "Broker_UnsubscribeAll i (svBroker s)"
  have ok: "broker_ok ?b" using Cons.prems by (rule Broker_UnsubscribeAll_ok)
  from Cons.IH [of "s\<lparr>svBroker := ?b\<rparr>"] ok obtain b where
    "foldl (\<lambda>s i. unsubscribeClient i s) (s\<lparr>svBroker := ?b\<rparr>) is = s\<lparr>svBroker := b\<rparr>" "broker_ok b"
    "\<forall>g d. find (topics b) g d = (if d \<in> set is then None else find (topics ?b) g d)" by auto
  then show ?case by (intro exI [of _ b]) (simp add: unsubscribeClient_def find_Broker_UnsubscribeAll [OF Cons.prems])
qed

lemma expiryTick_ok:
  assumes ok: "server_ok s"
  shows "server_ok (expiryTick now s)"
proof -
  note D = server_okD [OF ok]
  let ?st = "svSessions s"
  obtain ids st where x: "Expire now ?st = (ids, st)" by fastforce
  show ?thesis
  proof (cases "OfflineTTL (stLimits ?st) = 0")
    case True
    then show ?thesis using x ok by (auto simp: expiryTick_def Expire_def)
  next
    case False
    let ?gone = "\<lambda>q. expired (stLimits ?st) now (stStates ?st q)"
    have wf: "wf_map (stData ?st)" using D(7) by (simp add: directory_ok_def)
    have e: "expireLoop now (stData ?st) ?st = (ids, st)" using x False by (simp add: Expire_def)
    from expireLoop_spec [OF D(2) wf subset_refl e] have sok: "store_ok st" and n: "stNext st = stNext ?st"
      and ids: "ids = map fst (filter (\<lambda>(i, p). ?gone p) (stData ?st))"
      and data: "set (stData st) = set (stData ?st) - {x \<in> set (stData ?st). ?gone (snd x)}"
      and sts: "\<And>q. stStates st q = (if \<exists>i. (i, q) \<in> set (stData ?st) \<and> ?gone q then deletedState (stStates ?st q) else stStates ?st q)"
      by auto
    have wf': "wf_map (stData st)" using store_okD(1) [OF sok] by (simp add: directory_ok_def)
    have mem: "j \<in> set ids \<longleftrightarrow> (\<exists>q. map_of (stData ?st) j = Some q \<and> ?gone q)" for j
      using wf by (force simp: ids)
    have kept: "map_of (stData st) j = (if j \<in> set ids then None else map_of (stData ?st) j)" for j
    proof (cases "map_of (stData ?st) j")
      case None
      then have "map_of (stData st) j = None" using data by (auto simp: map_of_eq_None_iff)
      with None show ?thesis by simp
    next
      case (Some q)
      show ?thesis
      proof (cases "?gone q")
        case True
        have "map_of (stData st) j = None"
        proof (rule ccontr)
          assume "map_of (stData st) j \<noteq> None"
          then obtain q' where "(j, q') \<in> set (stData st)" using map_of_SomeD by fastforce
          with data have "(j, q') \<in> set (stData ?st)" "\<not> ?gone q'" by auto
          with Some wf True show False by simp
        qed
        then show ?thesis using True Some mem by auto
      next
        case False
        with Some data have "(j, q) \<in> set (stData st)" using map_of_SomeD [OF Some] by auto
        with wf' Some False mem show ?thesis by auto
      qed
    qed
    have same: "stStates st q = stStates ?st q" if "map_of (stData st) j = Some q" for j q
      using map_of_SomeD [OF that] data D(7) by (auto simp: sts)
    from unsubscribe_many [of "s\<lparr>svSessions := st\<rparr>" ids] D(1) obtain b where
      b: "expiryTick now s = s\<lparr>svSessions := st, svBroker := b\<rparr>" "broker_ok b"
      and fb: "\<And>g d. find (topics b) g d = (if d \<in> set ids then None else find (topics (svBroker s)) g d)"
      by (auto simp: expiryTick_def x)
    have "routing (expiryTick now s) g j = (if j \<in> set ids then None else routing s g j)" for g j
      using kept [of j] same [of j] by (auto simp: routing_def b split: option.split)
    then have "routing_ok (expiryTick now s)"
      using fb D(4) by (auto simp: routing_ok_def b intro!: ext)
    have "subs_ok (expiryTick now s)" using D(5) by (auto simp: subs_ok_def b n sts)
    have "registered (expiryTick now s) j op" if "registered s j op" for j op
    proof -
      from that have m: "map_of (stData ?st) j = Some (acSession (svOwners s op))" "sConnected (stStates ?st (acSession (svOwners s op)))"
        by (simp_all add: registered_def)
      then have "j \<notin> set ids" by (auto simp: mem expired_def)
      with m have "map_of (stData st) j = Some (acSession (svOwners s op))" by (simp add: kept)
      with that same [OF this] show ?thesis by (simp add: registered_def b)
    qed
    moreover have "\<exists>op. (j, op) \<in> set (svClients s)" if jq: "(j, q) \<in> set (stData st)" and c: "sConnected (stStates st q)" for j q
    proof -
      from jq wf' have "stStates st q = stStates ?st q" by (intro same [of j]) simp
      with jq c data D(6) show ?thesis by (auto simp: registry_ok_def)
    qed
    ultimately have "registry_ok (expiryTick now s)"
      using D(6) by (auto simp: registry_ok_def b)
    then show ?thesis using b sok D(3) \<open>routing_ok (expiryTick now s)\<close> \<open>subs_ok (expiryTick now s)\<close> by (simp add: server_ok_def)
  qed
qed

end
