(* ===== verification/ServerReach.thy ===== *)
theory ServerReach
  imports ServerSystem
begin

text \<open>
  The steps of all goroutines of a running server in one relation, and the invariant of every state
  reachable from a started server.  The relation allows the steps of a connection in any order, which
  includes the order of \<^verbatim>\<open>handleConn\<close>.
\<close>

section \<open>What a step does to configuration and sessions\<close>

text \<open>
  The configuration stays, and a live session is one that was live before, with the same owner, or one
  whose identifier and owner satisfy \<open>P\<close>.
\<close>

definition sessions_from :: "(string \<Rightarrow> string \<Rightarrow> bool) \<Rightarrow> server \<Rightarrow> server \<Rightarrow> bool" where
  "sessions_from P s s' \<longleftrightarrow> svAuth s' = svAuth s \<and> svEncode s' = svEncode s \<and> svMaxPacketSize s' = svMaxPacketSize s \<and> svLimits s' = svLimits s
     \<and> (\<forall>(j, p) \<in> set (stData (svSessions s')).
          (j, p) \<in> set (stData (svSessions s)) \<and> stateOwner s' p = stateOwner s p \<or> P j (stateOwner s' p))"

lemma sessions_from_refl: "sessions_from P s s"
  by (auto simp: sessions_from_def)

lemma sessions_from_trans: "sessions_from P s1 s2 \<Longrightarrow> sessions_from P s2 s3 \<Longrightarrow> sessions_from P s1 s3"
  unfolding sessions_from_def by (auto dest!: bspec)

lemma sessions_from_same: "same_sessions s s' \<Longrightarrow> sessions_from P s s'"
  by (auto simp: sessions_from_def same_sessions_def stateOwner_def)

lemma sessions_from_quiet: "quiet s s' \<Longrightarrow> sessions_from P s s'"
  by (rule sessions_from_same [OF quiet_same_sessions])

lemma sessions_from_sub:
  assumes "same_registry s s'" "set (stData (svSessions s')) \<subseteq> set (stData (svSessions s))"
    and "\<And>p. sOwner (stStates (svSessions s') p) = sOwner (stStates (svSessions s) p)"
  shows "sessions_from P s s'"
  using assms by (auto simp: sessions_from_def same_registry_def stateOwner_def)

lemma deletedState_owner [simp]: "sOwner (deletedState x) = sOwner x"
  by (simp add: deletedState_def notifyLocked_def)

lemma without_sub:
  assumes "without i st st'" "wf_map (stData st)"
  shows "set (stData st') \<subseteq> set (stData st)" "sOwner (stStates st' p) = sOwner (stStates st p)"
  using assms by (auto simp: without_def set_delete_alist)

lemma preparedFor_from:
  assumes ok: "server_ok s" and free: "map_of (svClients s) (cClientID connect) = None"
  shows "sessions_from P s (preparedFor now connect s)"
proof -
  let ?i = "cClientID connect"
  have reg: "same_registry s (preparedFor now connect s)" using preparedFor_ok [OF ok free] by simp
  obtain gone st where e: "ExpireSession ?i now (svSessions s) = (gone, st)" by fastforce
  note D = server_okD [OF ok]
  have wf: "wf_map (stData (svSessions s))" using D(7) by (simp add: directory_ok_def)
  have st: "set (stData st) \<subseteq> set (stData (svSessions s))" "sOwner (stStates st p) = sOwner (stStates (svSessions s) p)" "store_ok st" for p
    using without_ExpireSession [OF D(2) e] without_sub [OF _ wf, of ?i st] D(2) by (cases gone; simp add: without_def)+
  have wf': "wf_map (stData st)" using store_okD(1) [OF st(3)] by (simp add: directory_ok_def)
  have "svSessions (preparedFor now connect s) = (if cCleanSession connect then deleteLocked ?i st else st)"
    by (simp add: preparedFor_def e Let_def unsubscribeClient_def Store_Delete_def)
  then show ?thesis
    using without_sub [OF without_deleteLocked [OF st(3)] wf', of ?i] st(1,2)
    by (intro sessions_from_sub [OF reg]) auto
qed

lemma openSession_from:
  assumes ok: "server_ok s" and free: "map_of (svClients s) (cClientID connect) = None" and P: "P (cClientID connect) who"
    and o: "openSession now connect who s = (r, s')"
  shows "sessions_from P s s'"
proof -
  let ?i = "cClientID connect" and ?s = "preparedFor now connect s"
  note k = preparedFor_ok [OF ok free, of now]
  obtain st where g: "GetOrCreateOwned now ?i who (svSessions ?s) = (r, st)" and s': "s' = ?s\<lparr>svSessions := st\<rparr>"
    using o by (auto simp: openSession_prepared split: prod.splits)
  have d: "directory_ok (svSessions ?s)" using k server_okD(7) by blast
  then have "wf_map (stData (svSessions ?s))" by (simp add: directory_ok_def)
  have "sessions_from P ?s s'"
  proof (cases rule: GetOrCreateOwned_cases [of "svSessions ?s" ?i who now])
    case (found p)
    then show ?thesis using g by (auto simp: s' sessions_from_def stateOwner_def)
  next
    case (owner p)
    then show ?thesis using g by (auto simp: s' sessions_from_def stateOwner_def)
  next
    case limit
    then show ?thesis using g by (auto simp: s' sessions_from_def stateOwner_def)
  next
    case (created st')
    with g have st: "st = (setState (stNext (svSessions ?s)) (newState now ?i who) (svSessions ?s))\<lparr>stNext := stNext (svSessions ?s) + 1,
        stData := AList.update ?i (stNext (svSessions ?s)) (stData (svSessions ?s))\<rparr>"
      by (auto simp: GetOrCreateOwned_def Let_def split: if_splits)
    have "q \<noteq> stNext (svSessions ?s)" if "(j, q) \<in> set (stData (svSessions ?s))" for j q using that d by (auto simp: directory_ok_def)
    then show ?thesis using P
      by (auto simp: s' st sessions_from_def stateOwner_def newState_def set_update_alist [OF \<open>wf_map _\<close>])
  qed
  then show ?thesis using sessions_from_trans preparedFor_from [OF ok free] by blast
qed

lemma restoreSubscriptions_broker: "\<exists>b. restoreSubscriptions sp s = s\<lparr>svBroker := b\<rparr>"
proof -
  have "\<exists>b. foldl (\<lambda>s (flt, qos). s\<lparr>svBroker := Broker_Subscribe (stateID s) flt qos sp (svBroker s)\<rparr>) t m = t\<lparr>svBroker := b\<rparr>" for t m
  proof (induction m arbitrary: t)
    case Nil
    show ?case by (intro exI [of _ "svBroker t"]) simp
  next
    case (Cons x m)
    obtain flt qos where x: "x = (flt, qos)" by fastforce
    from Cons.IH [of "t\<lparr>svBroker := Broker_Subscribe (stateID t) flt qos sp (svBroker t)\<rparr>"] show ?case by (simp add: x)
  qed
  then show ?thesis by (simp add: restoreSubscriptions_def)
qed

text \<open>The states \<open>acquireStep\<close> can end in.\<close>

lemma acquireStep_cases:
  assumes h: "acquireStep ctxErr now connect cp who s = (r, s')" and cp: "clID (svHeap s cp) = cClientID connect"
  obtains (same) e where "r = AcquireFailed e" "s' = s"
  | (wait) op where "r = WaitFor op" "map_of (svClients s) (cClientID connect) = Some op"
      "s' = closeClient (acClient (svOwners s op)) (setOwner op (beginClosing now (svOwners s op)) s)"
  | (failed) e where "r = AcquireFailed e" "map_of (svClients s) (cClientID connect) = None"
      "openSession now connect who s = (Inl e, s')"
  | (acquired) sp present s1 where "r = Acquired (svNextOwner s1) present"
      "map_of (svClients s) (cClientID connect) = None" "openSession now connect who s = (Inr (sp, present), s1)"
      "svSessions s' = MarkConnected sp (svSessions s1)" "svAuth s' = svAuth s1" "svEncode s' = svEncode s1"
      "svMaxPacketSize s' = svMaxPacketSize s1" "svLimits s' = svLimits s1"
      "svClients s' = AList.update (cClientID connect) (svNextOwner s1) (svClients s1)"
      "acSession (svOwners s' (svNextOwner s1)) = sp" "acClient (svOwners s' (svNextOwner s1)) = cp"
proof -
  let ?i = "cClientID connect"
  show thesis
  proof (cases "ctxErr \<noteq> None \<or> (case Store_Get ?i (svSessions s) of None \<Rightarrow> False | Some sp \<Rightarrow> stateOwner s sp \<noteq> who)")
    case True
    then show thesis using h cp same by (cases ctxErr) (auto simp: acquireStep_def Let_def)
  next
    case go: False
    show thesis
    proof (cases "map_of (svClients s) ?i")
      case (Some op)
      then show thesis using h go cp wait [of op] by (auto simp: acquireStep_def Let_def)
    next
      case None
      obtain r1 s1 where o: "openSession now connect who s = (r1, s1)" by fastforce
      show thesis
      proof (cases r1)
        case (Inl e)
        then show thesis using h go None o cp failed by (auto simp: acquireStep_def Let_def)
      next
        case (Inr x)
        obtain sp present where x: "x = (sp, present)" by fastforce
        obtain b where "restoreSubscriptions sp (s1\<lparr>svSessions := MarkConnected sp (svSessions s1)\<rparr>) =
            s1\<lparr>svSessions := MarkConnected sp (svSessions s1), svBroker := b\<rparr>" using restoreSubscriptions_broker by metis
        then show thesis using h go None o Inr x cp acquired [of s1 present sp]
          by (auto simp: acquireStep_def Let_def setOwner_def)
      qed
    qed
  qed
qed

lemma acquireStep_from:
  assumes ok: "server_ok s" and cp: "clID (svHeap s cp) = cClientID connect" and P: "P (cClientID connect) who"
    and h: "acquireStep ctxErr now connect cp who s = (r, s')"
  shows "sessions_from P s s'"
  using h cp
proof (cases rule: acquireStep_cases)
  case (same e)
  then show ?thesis by (simp add: sessions_from_refl)
next
  case (wait op)
  have "quiet s s'" unfolding wait(3) by (rule quiet_trans [OF quiet_setOwner quiet_closeClient]) simp
  then show ?thesis by (rule sessions_from_quiet)
next
  case (failed e)
  then show ?thesis using openSession_from [where P = P, OF ok _ P] by blast
next
  case (acquired sp present s1)
  have "sessions_from P s s1" using openSession_from [where P = P, OF ok acquired(2) P acquired(3)] .
  moreover have "sessions_from P s1 s'"
    using acquired(4-) by (auto simp: sessions_from_def stateOwner_def MarkConnected_def Let_def)
  ultimately show ?thesis by (rule sessions_from_trans)
qed

lemma closeSession_from:
  assumes ok: "server_ok s"
  shows "sessions_from P s (closeSession op s)"
proof -
  note D = server_okD [OF ok]
  have wf: "wf_map (stData (svSessions s))" using D(7) by (simp add: directory_ok_def)
  have "sOwner (stStates (MarkDisconnectedAt p at (svSessions s)) q) = sOwner (stStates (svSessions s) q)"
    "stData (MarkDisconnectedAt p at (svSessions s)) = stData (svSessions s)" for p at q
    by (auto simp: MarkDisconnectedAt_def Let_def)
  moreover note without_sub [OF without_deleteLocked [OF D(2)] wf]
  ultimately show ?thesis
    by (auto simp: closeSession_def Let_def sessions_from_def stateOwner_def setOwner_def unsubscribeClient_def Store_Delete_def subset_iff)
qed

lemma expiryTick_from:
  assumes ok: "server_ok s"
  shows "sessions_from P s (expiryTick now s)"
proof -
  note D = server_okD [OF ok]
  obtain ids st where x: "Expire now (svSessions s) = (ids, st)" by fastforce
  have "set (stData st) \<subseteq> set (stData (svSessions s)) \<and> (\<forall>q. sOwner (stStates st q) = sOwner (stStates (svSessions s) q))"
  proof (cases "OfflineTTL (stLimits (svSessions s)) = 0")
    case False
    have wf: "wf_map (stData (svSessions s))" using D(7) by (simp add: directory_ok_def)
    have e: "expireLoop now (stData (svSessions s)) (svSessions s) = (ids, st)" using x False by (simp add: Expire_def)
    from expireLoop_spec [OF D(2) wf subset_refl e] show ?thesis by auto
  qed (use x in \<open>auto simp: Expire_def\<close>)
  moreover obtain b where "expiryTick now s = s\<lparr>svSessions := st, svBroker := b\<rparr>"
    using unsubscribe_many [of "s\<lparr>svSessions := st\<rparr>" ids] D(1) by (auto simp: expiryTick_def x)
  ultimately show ?thesis by (auto simp: sessions_from_def stateOwner_def)
qed


section \<open>Quiet phases of a connection\<close>

lemma Authenticate_keeps: "snd (Authenticate c1 c2 u pw l) = l"
  by (auto simp: Authenticate_def acquireSlot_def releaseSlot_def Let_def split: option.split)

lemma authenticateConnect_same: "snd (authenticateConnect c1 c2 c3 connect s) = s"
proof (cases "svAuth s")
  case (Some l)
  let ?u = "case cUsername connect of None \<Rightarrow> '''' | Some u \<Rightarrow> u" and ?pw = "case cPassword connect of None \<Rightarrow> '''' | Some p \<Rightarrow> p"
  obtain r l' where a: "Authenticate c1 c2 ?u ?pw l = (r, l')" by fastforce
  with Authenticate_keeps [of c1 c2 ?u ?pw l] have "l' = l" by simp
  with a Some show ?thesis by (cases r) (auto simp: authenticateConnect_def Let_def)
qed (simp add: authenticateConnect_def)

lemma quiet_handshake: "quiet s (snd (handshake r s))"
proof (cases "DecodeWithLimit (svMaxPacketSize s) r")
  case (Inr x)
  obtain pkt r' where "x = (pkt, r')" by fastforce
  with Inr show ?thesis
    by (cases pkt) (auto simp: handshake_def Let_def quiet_refl quiet_def setClient_def store_quiet_refl)
qed (simp add: handshake_def quiet_refl)

lemma quiet_rejectConnection: "quiet s (rejectConnection net cp rc dl s)"
  unfolding rejectConnection_def by (rule quiet_trans [OF quiet_rejection quiet_sendPacketWithDeadline])

lemma quiet_group: "(group_ok (svLimits s) (svGroup s) \<Longrightarrow> group_ok (svLimits s) g) \<Longrightarrow> quiet s (s\<lparr>svGroup := g\<rparr>)"
  by (simp add: quiet_def store_quiet_refl)

lemma quiet_startServing:
  assumes ok: "server_ok s" and op: "serving s op" and ep: "sEpoch (stStates (svSessions s) (acSession (svOwners s op))) + 1 \<noteq> 0"
  shows "quiet s (snd (startServing net clearErr conn op present dl s))"
proof -
  let ?cp = "acClient (svOwners s op)" and ?sp = "acSession (svOwners s op)"
  note V = servingD [OF ok op]
  obtain e1 c where c: "SetWriteTimeout (svWriteTimeout s) (svHeap s ?cp) = (e1, c)" by fastforce
  with clID_ops(1) [of "svWriteTimeout s" "svHeap s ?cp"] have q1: "quiet s (setClient ?cp c s)" by (intro quiet_setClient) simp
  let ?pkt = "ConnAckPacket \<lparr>caSessionPresent = present, caReturnCode = ConnAckAccepted\<rparr>"
  obtain e2 s2 where s2: "sendPacketWithDeadline net ?cp ?pkt (Some dl) (setClient ?cp c s) = (e2, s2)" by fastforce
  with quiet_sendPacketWithDeadline [of "setClient ?cp c s" net ?cp ?pkt "Some dl"] have q2: "quiet s s2" using quiet_trans [OF q1] by simp
  have st: "svSessions s2 = svSessions s"
    using s2 by (auto simp: sendPacketWithDeadline_def setClient_def split: sum.splits prod.splits)
  let ?s3 = "s2\<lparr>svGroup := completeHandshake conn (svGroup s2)\<rparr>"
  let ?s4 = "setOwner op ((svOwners ?s3 op)\<lparr>acReady := True\<rparr>) ?s3"
  have q4: "quiet s ?s4"
    by (rule quiet_trans [OF quiet_trans [OF q2 quiet_group] quiet_setOwner])
       (use quiet_trans [OF q2 quiet_refl] in \<open>auto simp: completeHandshake_ok owner_core_def\<close>)
  have "quiet ?s4 (?s4\<lparr>svSessions := snd (BeginDelivery ?sp (svSessions ?s4))\<rparr>)"
    using V(3) ep st by (intro quiet_sessions store_quiet_Begin) (simp_all add: setOwner_def)
  from quiet_trans [OF q4 this] q1 q2 show ?thesis
    by (cases e1; cases e2) (simp_all add: startServing_def Let_def c s2 BeginDelivery_def)
qed

lemma quiet_consumeStep:
  assumes ok: "server_ok s" and op: "serving s op"
    and h: "consumeStep ctxDone net (acClient (svOwners s op)) (acSession (svOwners s op)) epoch s = Some (x, s')"
  shows "quiet s s'"
proof -
  let ?cp = "acClient (svOwners s op)" and ?sp = "acSession (svOwners s op)"
  note V = servingD [OF ok op] and D = server_okD [OF ok]
  show ?thesis
  proof (cases "ctxDone \<or> clDone (svHeap s ?cp)")
    case False
    with h obtain d st where n: "Next epoch ?sp (svSessions s) = Some (d, st)"
      by (auto simp: consumeStep_def split: option.splits)
    have q1: "quiet s (s\<lparr>svSessions := st\<rparr>)" by (rule quiet_sessions [OF store_quiet_Next [OF D(2) V(3) n]])
    show ?thesis
    proof (cases d)
      case (Some d')
      obtain e c where c: "Send net (dData d') (svHeap s ?cp) = (e, c)" by fastforce
      with clID_Send(2) [of net "dData d'" "svHeap s ?cp"] have "quiet s (setClient ?cp c (s\<lparr>svSessions := st\<rparr>))"
        by (intro quiet_trans [OF q1 quiet_setClient]) simp
      with quiet_trans [OF this quiet_closeClient] h False n Some c show ?thesis by (cases e) (auto simp: consumeStep_def)
    qed (use h False n q1 in \<open>auto simp: consumeStep_def\<close>)
  qed (use h in \<open>auto simp: consumeStep_def quiet_refl\<close>)
qed

lemma quiet_consumeWake:
  assumes "server_ok s" "serving s op" "consumeWake (acSession (svOwners s op)) s = Some s'"
  shows "quiet s s'"
  using assms(3) quiet_sessions [OF store_quiet_changed [OF servingD(3) [OF assms(1,2)], of False]]
  by (auto simp: consumeWake_def Let_def split: if_splits)

lemma DecodeWithLimit_packet_wf: "DecodeWithLimit m r = Inr (p, r') \<Longrightarrow> packet_wf p"
  by (auto simp: DecodeWithLimit_def result_iff dest: decodeBody_wf split: if_splits)

lemma serveStep_ok:
  assumes ok: "server_ok s" and op: "serving s op"
    and h: "serveStep ctxDone now net (acClient (svOwners s op)) (acSession (svOwners s op)) r s = Some (x, s')"
  shows "server_ok s' \<and> same_sessions s s'"
proof (cases "ctxDone \<or> isl (DecodeWithLimit (svMaxPacketSize s) r)")
  case True
  then have "s' = s" using h by (cases "DecodeWithLimit (svMaxPacketSize s) r") (auto simp: serveStep_def split: if_splits)
  then show ?thesis using ok same_sessions_refl by simp
next
  case False
  then obtain pkt r' where d: "DecodeWithLimit (svMaxPacketSize s) r = Inr (pkt, r')"
    by (cases "DecodeWithLimit (svMaxPacketSize s) r") auto
  with h False obtain e where "handlePacket now net (acClient (svOwners s op)) (acSession (svOwners s op)) pkt s = Some (e, s')"
    by (auto simp: serveStep_def split: option.splits)
  then show ?thesis by (rule handlePacket_ok [OF ok op DecodeWithLimit_packet_wf [OF d]])
qed


section \<open>The running server\<close>

text \<open>
  The state in which \<^verbatim>\<open>Start\<close> begins to accept connections, built as in \<^verbatim>\<open>cmd/orbmq/main.go\<close>: \<open>policy\<close> is what
  the security configuration prepared, present exactly when there is a TLS configuration.
\<close>

definition configured ::
  "Local option \<Rightarrow> bool \<Rightarrow> int \<Rightarrow> int \<Rightarrow> connection_limits \<Rightarrow> int \<Rightarrow> nat broker \<Rightarrow> session_store \<Rightarrow> server" where
  "configured policy tls handshakeTimeout writeTimeout l maxPacketSize b sessions =
     WithMaxPacketSize maxPacketSize (WithConnectionLimits l (WithWriteTimeout writeTimeout
       (WithHandshakeTimeout handshakeTimeout (WithSecurity policy tls (Server_New b sessions)))))"

text \<open>
  The steps.  A connection is admitted or ends; a new client says CONNECT; a CONNECT is rejected; an
  authenticated one claims its identifier; the owner of an identifier starts serving, handles packets,
  delivers, closes; the writer of a client writes; a will is published; expired sessions are removed.
  \<^verbatim>\<open>BeginDelivery\<close> is called fewer than \<open>2 ^ 64\<close> times for a session.
\<close>

inductive server_step :: "server \<Rightarrow> server \<Rightarrow> bool" where
  accept: "conn \<notin> fst ` set (gConnections (svGroup s)) \<Longrightarrow>
    server_step s (s\<lparr>svGroup := snd (startConnection ctxErr conn (svLimits s) (svGroup s))\<rparr>)"
| finish: "conn \<in> fst ` set (gConnections (svGroup s)) \<Longrightarrow> server_step s (s\<lparr>svGroup := finishConnection conn (svGroup s)\<rparr>)"
| handshake: "server_step s (snd (handshake r s))"
| reject: "server_step s (rejectConnection net cp code deadline s)"
| acquire: "cp < svNextClient s \<Longrightarrow> clID (svHeap s cp) = cClientID connect \<Longrightarrow>
    authenticateConnect c1 c2 c3 connect s = ((who, ConnAckAccepted), s1) \<Longrightarrow>
    acquireStep ctxErr now connect cp who s1 = (r, s') \<Longrightarrow> server_step s s'"
| start_serving: "serving s op \<Longrightarrow> sEpoch (stStates (svSessions s) (acSession (svOwners s op))) + 1 \<noteq> 0 \<Longrightarrow>
    server_step s (snd (startServing net clearErr conn op present deadline s))"
| serve: "serving s op \<Longrightarrow> serveStep ctxDone now net (acClient (svOwners s op)) (acSession (svOwners s op)) r s = Some (x, s') \<Longrightarrow>
    server_step s s'"
| consume: "serving s op \<Longrightarrow>
    consumeStep ctxDone net (acClient (svOwners s op)) (acSession (svOwners s op)) epoch s = Some (y, s') \<Longrightarrow> server_step s s'"
| wake: "serving s op \<Longrightarrow> consumeWake (acSession (svOwners s op)) s = Some s' \<Longrightarrow> server_step s s'"
| write_out: "server_step s (setClient cp (writeOne behaviour (svHeap s cp)) s)"
| will: "server_step s (publishWill now w s)"
| start_closing: "serving s op \<Longrightarrow> server_step s (startClosing now op s)"
| close_client: "server_step s (closeClient cp s)"
| close_session: "serving s op \<Longrightarrow> server_step s (closeSession op s)"
| expiry: "server_step s (expiryTick now s)"

inductive server_reachable :: "Local option \<Rightarrow> server \<Rightarrow> bool" for policy where
  start: "NewWithLimits rl = Inr b \<Longrightarrow> Store_NewWithLimits sl = Inr st \<Longrightarrow>
    (\<forall>l. policy = Some l \<longrightarrow> (\<exists>n users. Auth_New n users = Inr l)) \<Longrightarrow>
    s = configured policy tls ht wt cl mp b st \<Longrightarrow> startChecks s = None \<Longrightarrow> server_reachable policy s"
| step: "server_reachable policy s \<Longrightarrow> server_step s s' \<Longrightarrow> server_reachable policy s'"

lemma configured_fields:
  "svAuth (configured policy tls ht wt cl mp b st) = policy" "svEncode (configured policy tls ht wt cl mp b st) = encodePublishPacket"
  "svBroker (configured policy tls ht wt cl mp b st) = b" "svSessions (configured policy tls ht wt cl mp b st) = st"
  "svLimits (configured policy tls ht wt cl mp b st) = cl" "svGroup (configured policy tls ht wt cl mp b st) = newGroup"
  "svClients (configured policy tls ht wt cl mp b st) = []" "svNextOwner (configured policy tls ht wt cl mp b st) = 0"
  "svMaxPacketSize (configured policy tls ht wt cl mp b st) = mp"
  by (simp_all add: configured_def WithMaxPacketSize_def WithConnectionLimits_def WithWriteTimeout_def WithHandshakeTimeout_def
      WithSecurity_def Server_New_def Let_def)

lemma configured_ok:
  assumes b: "NewWithLimits rl = Inr b" and st: "Store_NewWithLimits sl = Inr st"
    and chk: "startChecks (configured policy tls ht wt cl mp b st) = None"
  shows "server_ok (configured policy tls ht wt cl mp b st)"
proof -
  have t: "find (topics b) f d = None" for f d using b by (auto simp: NewWithLimits_def find_NewTree split: option.splits)
  have d: "stData st = []" "stNext st = 0" using st by (auto simp: Store_NewWithLimits_def split: option.splits)
  have "ConnectionLimits_Validate cl = None"
    using chk by (auto simp: startChecks_def configured_fields split: option.splits if_splits)
  then have "group_ok cl newGroup" by (rule group_reachable_ok [OF group_reachable.new])
  then show ?thesis
    using NewWithLimits_ok [OF b] Store_New_ok [OF st] t d
    by (auto simp: server_ok_def configured_fields routing_ok_def subs_ok_def registry_ok_def routing_def intro!: ext)
qed

text \<open>A new session belongs to an identity that may use its identifier.\<close>

lemma authenticateConnect_accepts:
  assumes "fst (authenticateConnect c1 c2 c3 connect s) = (who, ConnAckAccepted)" and "svAuth s = Some l"
  shows "CanUseClientID who (cClientID connect) l"
proof -
  let ?u = "case cUsername connect of None \<Rightarrow> '''' | Some u \<Rightarrow> u" and ?pw = "case cPassword connect of None \<Rightarrow> '''' | Some p \<Rightarrow> p"
  obtain r l' where a: "Authenticate c1 c2 ?u ?pw l = (r, l')" by fastforce
  with Authenticate_keeps [of c1 c2 ?u ?pw l] have "l' = l" by simp
  with a assms show ?thesis by (cases r) (auto simp: authenticateConnect_def Let_def split: if_splits)
qed

definition allowedID :: "server \<Rightarrow> string \<Rightarrow> string \<Rightarrow> bool" where
  "allowedID s i who \<longleftrightarrow> (\<forall>l. svAuth s = Some l \<longrightarrow> CanUseClientID who i l)"

lemma server_step_ok:
  assumes "server_step s s'" and ok: "server_ok s"
  shows "server_ok s' \<and> sessions_from (allowedID s) s s'"
proof -
  have Q: "quiet s s' \<Longrightarrow> ?thesis" using server_ok_quiet [OF ok] sessions_from_quiet by blast
  from assms(1) show ?thesis
  proof cases
    case (accept conn ctxErr)
    then show ?thesis by (intro Q) (simp add: quiet_group startConnection_ok)
  next
    case (finish conn)
    then show ?thesis by (intro Q) (simp add: quiet_group finishConnection_ok)
  next
    case (acquire cp connect c1 c2 c3 who s1 ctxErr now r)
    have s1: "s1 = s" using authenticateConnect_same [of c1 c2 c3 connect s] acquire(3) by simp
    have "allowedID s (cClientID connect) who"
      using authenticateConnect_accepts [of c1 c2 c3 connect s who] acquire(3) by (simp add: allowedID_def)
    then show ?thesis
      using acquireStep_ok [OF ok acquire(1,2)] acquireStep_from [where P = "allowedID s", OF ok acquire(2)] acquire(4) s1 by blast
  next
    case (serve op ctxDone now net r x)
    then show ?thesis using serveStep_ok [OF ok] sessions_from_same by blast
  next
    case (close_session op)
    then show ?thesis using closeSession_ok [OF ok] closeSession_from [OF ok] by simp
  next
    case (expiry now)
    then show ?thesis using expiryTick_ok [OF ok] expiryTick_from [OF ok] by simp
  qed (rule Q, use ok in \<open>fastforce intro: quiet_handshake quiet_rejectConnection quiet_startServing quiet_setClient quiet_startClosing
         quiet_closeClient quiet_publishWill quiet_consumeStep quiet_consumeWake\<close>)+
qed

text \<open>The invariant of every reachable state.\<close>

lemma server_reachable_ok:
  "server_reachable policy s \<Longrightarrow> server_ok s \<and> svAuth s = policy \<and> svEncode s = encodePublishPacket
     \<and> (\<forall>l. policy = Some l \<longrightarrow> (\<exists>n users. Auth_New n users = Inr l))
     \<and> (\<forall>(i, p) \<in> set (stData (svSessions s)). allowedID s i (stateOwner s p))"
proof (induction rule: server_reachable.induct)
  case (start rl b sl st s tls ht wt cl mp)
  have "stData st = []" using start(2) by (auto simp: Store_NewWithLimits_def split: option.splits)
  then show ?case using start configured_ok [OF start(1,2)] by (simp add: configured_fields)
next
  case (step s s')
  from server_step_ok [OF step(2)] step.IH have "server_ok s'" and f: "sessions_from (allowedID s) s s'" by auto
  moreover have a: "allowedID s' = allowedID s" using f by (auto simp: sessions_from_def allowedID_def intro!: ext)
  have "\<forall>(i, p) \<in> set (stData (svSessions s')). allowedID s' i (stateOwner s' p)"
    using f step.IH unfolding a by (auto simp: sessions_from_def dest!: bspec)
  ultimately show ?case using step.IH f by (simp add: sessions_from_def)
qed

end
