(* ===== verification/ServerPublish.thy ===== *)
theory ServerPublish
  imports ServerReach
begin

text \<open>
  Publication from end to end: which sessions and which client queues a publication reaches, with which
  bytes, and that nothing else is touched.
\<close>

section \<open>Routing to sessions\<close>

text \<open>The QoS a session is granted for a topic: the highest among its matching filters.\<close>

definition granted :: "server \<Rightarrow> nat \<Rightarrow> string \<Rightarrow> byte option" where
  "granted s p t =
     (let qs = map snd (filter (\<lambda>(f, q). MatchFilter f t) (sSubscriptions (stStates (svSessions s) p)))
      in if qs = [] then None else Some (Max (set qs)))"

lemma granted_Some_iff:
  "granted s p t = Some q \<longleftrightarrow>
     (\<exists>f. (f, q) \<in> set (sSubscriptions (stStates (svSessions s) p)) \<and> MatchFilter f t)
     \<and> (\<forall>(f, q') \<in> set (sSubscriptions (stStates (svSessions s) p)). MatchFilter f t \<longrightarrow> q' \<le> q)"
proof -
  let ?qs = "map snd (filter (\<lambda>(f, q). MatchFilter f t) (sSubscriptions (stStates (svSessions s) p)))"
  have m: "q \<in> set ?qs \<longleftrightarrow> (\<exists>f. (f, q) \<in> set (sSubscriptions (stStates (svSessions s) p)) \<and> MatchFilter f t)" for q
    by force
  have "granted s p t = (if ?qs = [] then None else Some (Max (set ?qs)))" by (simp only: granted_def Let_def)
  moreover have "(if xs = [] then None else Some (Max (set xs))) = Some q \<longleftrightarrow> q \<in> set xs \<and> (\<forall>q' \<in> set xs. q' \<le> q)" for xs
    using Max_eq_iff [of "set xs" q] by (cases xs) auto
  ultimately have "granted s p t = Some q \<longleftrightarrow> q \<in> set ?qs \<and> (\<forall>q' \<in> set ?qs. q' \<le> q)" by metis
  then show ?thesis unfolding m Ball_def by auto
qed

lemma granted_None_iff:
  "granted s p t = None \<longleftrightarrow> (\<forall>(f, q) \<in> set (sSubscriptions (stStates (svSessions s) p)). \<not> MatchFilter f t)"
  by (auto simp: granted_def Let_def filter_empty_conv)

text \<open>The broker's matches are the live sessions with a grant.\<close>

lemma Match_sessions:
  assumes ok: "server_ok s" and t: "validateTopicName t = None"
  shows "b \<in> set (Match (topics (svBroker s)) t) \<longleftrightarrow>
    (map_of (stData (svSessions s)) (tClientID b) = Some (tSubscriber b) \<and> granted s (tSubscriber b) t = Some (tQoS b))"
proof -
  note D = server_okD [OF ok]
  let ?T = "topics (svBroker s)" and ?st = "svSessions s"
  have wf: "wf_map (sSubscriptions (stStates ?st p))" if "map_of (stData ?st) i = Some p" for i p
    by (rule wf_subscriptions [OF D(2) directory_less [OF D(7) that]])
  have fnd: "find ?T f i = Some x \<longleftrightarrow> map_of (stData ?st) i = Some (tSubscriber x)
      \<and> (f, tQoS x) \<in> set (sSubscriptions (stStates ?st (tSubscriber x))) \<and> tClientID x = i" for f i x
  proof (cases "map_of (stData ?st) i")
    case (Some p)
    then show ?thesis using wf [OF Some] by (cases x) (auto simp: D(4) routing_def)
  qed (simp add: D(4) routing_def)
  show ?thesis
  proof
    assume b: "b \<in> set (Match ?T t)"
    from trie.query_sound [OF D(8) t b] obtain f where f: "find ?T f (tClientID b) = Some b" "MatchFilter f t" by blast
    then have m: "map_of (stData ?st) (tClientID b) = Some (tSubscriber b)"
      "(f, tQoS b) \<in> set (sSubscriptions (stStates ?st (tSubscriber b)))" by (auto simp: fnd)
    moreover have "q' \<le> tQoS b" if "(g, q') \<in> set (sSubscriptions (stStates ?st (tSubscriber b)))" "MatchFilter g t" for g q'
      using trie.query_max [OF D(8) t b, of g "\<lparr>tClientID = tClientID b, tSubscriber = tSubscriber b, tQoS = q'\<rparr>"] that m(1)
      by (simp add: fnd)
    ultimately show "map_of (stData ?st) (tClientID b) = Some (tSubscriber b) \<and> granted s (tSubscriber b) t = Some (tQoS b)"
      using f(2) by (auto simp: granted_Some_iff)
  next
    assume g: "map_of (stData ?st) (tClientID b) = Some (tSubscriber b) \<and> granted s (tSubscriber b) t = Some (tQoS b)"
    then obtain f where f: "(f, tQoS b) \<in> set (sSubscriptions (stStates ?st (tSubscriber b)))" "MatchFilter f t"
      by (auto simp: granted_Some_iff)
    then have "find ?T f (tClientID b) = Some b" using g by (simp add: fnd)
    with f(2) have "trie.routed ?T t (tClientID b)" using trie.routed_iff [OF D(8) t] by blast
    then obtain b' where b': "b' \<in> set (Match ?T t)" "tClientID b' = tClientID b" by (auto simp: trie.routed_def)
    from trie.query_sound [OF D(8) t b'(1)] obtain f' where f0: "find ?T f' (tClientID b') = Some b'" "MatchFilter f' t" by blast
    then have f': "(f', tQoS b') \<in> set (sSubscriptions (stStates ?st (tSubscriber b)))" "tSubscriber b' = tSubscriber b"
      using g b'(2) fnd [of f' "tClientID b'" b'] by simp_all
    then have "tQoS b' \<le> tQoS b" using g f0(2) unfolding granted_Some_iff by blast
    moreover have "tQoS b \<le> tQoS b'"
      using trie.query_max [OF D(8) t b'(1), of f b] \<open>find ?T f (tClientID b) = Some b\<close> f(2) b'(2) by simp
    ultimately have "b' = b" using b'(2) f'(2) by simp
    with b'(1) show "b \<in> set (Match ?T t)" by simp
  qed
qed

section \<open>One delivery\<close>

text \<open>What a publication does to a session it is queued for, and to a client it is enqueued for.\<close>

definition admitted :: "int \<Rightarrow> publish_template \<Rightarrow> session_state \<Rightarrow> session_state \<Rightarrow> bool" where
  "admitted now t x y \<longleftrightarrow> y = pushEntry now (tRaw t) (int (tPacketIDOffset t)) x
     \<or> y = x\<lparr>sStats := (sStats x)\<lparr>mSessionLimitDrops := mSessionLimitDrops (sStats x) + 1\<rparr>\<rparr>
     \<or> y = x\<lparr>sStats := (sStats x)\<lparr>mGlobalLimitDrops := mGlobalLimitDrops (sStats x) + 1\<rparr>\<rparr>"

definition enqueueOrClose :: "byte list \<Rightarrow> client \<Rightarrow> client" where
  "enqueueOrClose raw c = (case Enqueue raw c of (err, c) \<Rightarrow> if err \<noteq> None then Close c else c)"

lemma clID_enqueueOrClose [simp]: "clID (enqueueOrClose raw c) = clID c"
  using clID_ops(3) [of raw c] by (cases "Enqueue raw c") (simp add: enqueueOrClose_def)

text \<open>The connection that takes QoS 0 messages for an identifier.\<close>

definition liveClient :: "server \<Rightarrow> string \<Rightarrow> nat option" where
  "liveClient s i =
     (case map_of (svClients s) i of
        None \<Rightarrow> None
      | Some op \<Rightarrow> if acClosing (svOwners s op) \<or> \<not> acReady (svOwners s op) then None else Some (acClient (svOwners s op)))"

lemma liveClientD:
  assumes "server_ok s" "liveClient s i = Some cp"
  shows "clID (svHeap s cp) = i" "cp < svNextClient s"
proof -
  from assms(2) obtain op where "map_of (svClients s) i = Some op" "acClient (svOwners s op) = cp"
    by (auto simp: liveClient_def split: option.splits if_splits)
  with server_okD(6) [OF assms(1)] show "clID (svHeap s cp) = i" "cp < svNextClient s"
    by (auto simp: registry_ok_def registered_def dest!: map_of_SomeD)
qed

definition sendable :: "publish_packet \<Rightarrow> bool" where
  "sendable pub \<longleftrightarrow> validateTopicName (pTopic pub) = None \<and> publishBodyLength pub \<le> MaxRemainingLength"

abbreviation qos0Bytes :: "publish_packet \<Rightarrow> byte list" where
  "qos0Bytes pub \<equiv> projr (encodePublishPacket (newOutboundPublish pub 0))"

abbreviation template :: "publish_packet \<Rightarrow> publish_template" where
  "template pub \<equiv> projr (newPublishTemplate encodePublishPacket (newOutboundPublish pub 1))"

lemma qos0_encodes: "sendable pub \<Longrightarrow> encodePublishPacket (newOutboundPublish pub 0) = Inr (qos0Bytes pub)"
proof -
  assume "sendable pub"
  then have "\<exists>bs. EncodePublish (newOutboundPublish pub 0) = Inr bs"
    unfolding EncodePublish_Inr_iff by (auto simp: sendable_def newOutboundPublish_def publishBodyLength_def)
  then show ?thesis by (auto simp: encodePublishPacket_def)
qed

lemma template_encodes:
  assumes "sendable pub" "pQoS pub \<noteq> 0"
  shows "newPublishTemplate encodePublishPacket (newOutboundPublish pub 1) = Inr (template pub)"
proof -
  from assms have "\<exists>bs. EncodePublish (qos1Packet (newOutboundPublish pub 1) 1 False) = Inr bs"
    unfolding EncodePublish_qos1 [OF one_neq_zero]
    by (auto simp: sendable_def newOutboundPublish_def publishBodyLength_def qos1Packet_def word_neq_0_conv)
  then obtain bs where "EncodePublish (qos1Packet (newOutboundPublish pub 1) 1 False) = Inr bs" ..
  then have "newPublishTemplate encodePublishPacket (newOutboundPublish pub 1) =
      Inr \<lparr>tRaw = bs, tPacketIDOffset = publishPacketIDOffset (pTopic pub) (length (pPayload pub))\<rparr>"
    by (simp add: newPublishTemplate_Inr) (simp add: newOutboundPublish_def)
  then show ?thesis by simp
qed

lemma template_accepted:
  assumes "sendable pub" "pQoS pub \<noteq> 0"
  shows "\<not> invalidQueued (tRaw (template pub)) (int (tPacketIDOffset (template pub)))"
  using template_encodes [OF assms] template_valid unfolding newPublishTemplate_Inr by metis

lemma byte_le1: "(g :: byte) \<le> 1 \<Longrightarrow> g = 0 \<or> g = 1"
  by (metis word_le_less_eq word_less_1)

lemma deliveryQoS_le1:
  assumes "g \<le> 1"
  shows "deliveryQoS q g = 0 \<or> deliveryQoS q g = 1 \<and> q \<noteq> 0"
proof (cases "g < q")
  case True
  then show ?thesis using byte_le1 [OF assms] by (auto simp: deliveryQoS_def)
next
  case False
  then have "q \<le> 1" using assms by simp
  then show ?thesis using False byte_le1 [of q] by (auto simp: deliveryQoS_def)
qed

text \<open>The subscription of a live session, as the tree holds it.\<close>

definition routed :: "server \<Rightarrow> nat subscription \<Rightarrow> bool" where
  "routed s b \<longleftrightarrow> map_of (stData (svSessions s)) (tClientID b) = Some (tSubscriber b) \<and> tQoS b \<le> 1"

lemma deliver_exact:
  assumes ok: "server_ok s" and enc: "svEncode s = encodePublishPacket" and r: "routed s b"
    and c: "cache_ok encodePublishPacket pub cache" and pub: "sendable pub"
  defines "q \<equiv> deliveryQoS (pQoS pub) (tQoS b)"
  shows "\<exists>cache'. cache_ok encodePublishPacket pub cache' \<and> deliverPublishToSubscriber now pub b cache s = (None, cache',
     if q = 0 then (case liveClient s (tClientID b) of None \<Rightarrow> s | Some cp \<Rightarrow> setClient cp (enqueueOrClose (qos0Bytes pub) (svHeap s cp)) s)
     else s\<lparr>svSessions := snd (Admit now (tSubscriber b) (tRaw (template pub)) (int (tPacketIDOffset (template pub))) (svSessions s))\<rparr>)"
proof -
  note D = server_okD [OF ok]
  have get: "Store_Get (tClientID b) (svSessions s) = Some (tSubscriber b)" using r by (simp add: Store_Get_def routed_def)
  show ?thesis
  proof (cases "q = 0")
    case True
    obtain x cache' where p: "qos0Payload encodePublishPacket (newOutboundPublish pub 0) cache = (x, cache')" by fastforce
    from qos0Payload_ok [OF c] p qos0_encodes [OF pub] have x: "x = Inr (qos0Bytes pub)" and c': "cache_ok encodePublishPacket pub cache'" by auto
    show ?thesis
    proof (cases "map_of (svClients s) (tClientID b)")
      case None
      then show ?thesis using get True c by (auto simp: deliverPublishToSubscriber_def Let_def liveClient_def q_def)
    next
      case (Some op)
      then have "registered s (tClientID b) op" using D(6) by (auto simp: registry_ok_def dest!: map_of_SomeD)
      then have "acSession (svOwners s op) = tSubscriber b" using r by (simp add: registered_def routed_def)
      then show ?thesis using get True c c' p x Some enc
        by (auto simp: deliverPublishToSubscriber_def Let_def liveClient_def q_def enqueueOrClose_def split: prod.split)
    qed
  next
    case False
    then have q: "q = 1" "pQoS pub \<noteq> 0" using deliveryQoS_le1 [of "tQoS b" "pQoS pub"] r by (auto simp: q_def routed_def)
    obtain x cache' where p: "qos1Template encodePublishPacket (newOutboundPublish pub 1) cache = (x, cache')" by fastforce
    from qos1Template_ok [OF c] p template_encodes [OF pub q(2)] have x: "x = Inr (template pub)" and c': "cache_ok encodePublishPacket pub cache'" by auto
    have live: "\<not> sDeleted (stStates (svSessions s) (tSubscriber b))"
      using D(7) r by (auto simp: directory_ok_def routed_def dest!: map_of_SomeD)
    obtain y st where a: "Admit now (tSubscriber b) (tRaw (template pub)) (int (tPacketIDOffset (template pub))) (svSessions s) = (Inr y, st)"
      using template_accepted [OF pub q(2)] live
      by (cases rule: Admit_cases [of "tRaw (template pub)" "int (tPacketIDOffset (template pub))" now "tSubscriber b" "svSessions s"]) auto
    then show ?thesis using get q(1) c' p x enc by (auto simp: deliverPublishToSubscriber_def Let_def q_def)
  qed
qed

lemma Admit_states:
  assumes "\<not> invalidQueued (tRaw t) (int (tPacketIDOffset t))" "\<not> sDeleted (stStates st p)"
  shows "\<exists>x. admitted now t (stStates st p) x
    \<and> stStates (snd (Admit now p (tRaw t) (int (tPacketIDOffset t)) st)) = (stStates st)(p := x)"
  using assms
  by (cases rule: Admit_cases [of "tRaw t" "int (tPacketIDOffset t)" now p st]) (auto simp: admitted_def)

lemma Admit_admitted:
  assumes "sendable pub" "pQoS pub \<noteq> 0" "\<not> sDeleted (stStates st p)"
  shows "\<exists>x. admitted now (template pub) (stStates st p) x
    \<and> stStates (snd (Admit now p (tRaw (template pub)) (int (tPacketIDOffset (template pub))) st)) = (stStates st)(p := x)"
  by (rule Admit_states [OF template_accepted [OF assms(1,2)] assms(3)])

section \<open>The fan-out\<close>

text \<open>The sessions and the clients that a list of subscriptions reaches.\<close>

definition queuedFor :: "byte \<Rightarrow> nat subscription list \<Rightarrow> nat \<Rightarrow> bool" where
  "queuedFor q subs' p = list_ex (\<lambda>b. tSubscriber b = p \<and> deliveryQoS q (tQoS b) \<noteq> 0) subs'"

definition enqueuedFor :: "server \<Rightarrow> byte \<Rightarrow> nat subscription list \<Rightarrow> nat \<Rightarrow> bool" where
  "enqueuedFor s q subs' cp = list_ex (\<lambda>b. deliveryQoS q (tQoS b) = 0 \<and> liveClient s (tClientID b) = Some cp) subs'"

definition fanned :: "int \<Rightarrow> publish_packet \<Rightarrow> nat subscription list \<Rightarrow> server \<Rightarrow> server \<Rightarrow> bool" where
  "fanned now pub subs' s s' \<longleftrightarrow>
     (\<forall>p. if queuedFor (pQoS pub) subs' p then admitted now (template pub) (stStates (svSessions s) p) (stStates (svSessions s') p)
          else stStates (svSessions s') p = stStates (svSessions s) p)
     \<and> (\<forall>cp. svHeap s' cp = (if enqueuedFor s (pQoS pub) subs' cp then enqueueOrClose (qos0Bytes pub) (svHeap s cp) else svHeap s cp))
     \<and> svClients s' = svClients s \<and> svOwners s' = svOwners s"

lemma liveClient_cong: "svClients s' = svClients s \<Longrightarrow> svOwners s' = svOwners s \<Longrightarrow> liveClient s' i = liveClient s i"
  by (simp add: liveClient_def split: option.split)

lemma routed_quiet: "quiet s s' \<Longrightarrow> routed s' b = routed s b"
  by (simp add: routed_def quiet_store)

lemma fanned_one:
  assumes ok: "server_ok s" and enc: "svEncode s = encodePublishPacket" and r: "routed s b" and pub: "sendable pub"
    and c: "cache_ok encodePublishPacket pub cache"
    and d: "deliverPublishToSubscriber now pub b cache s = (e, cache', s')"
  shows "e = None \<and> cache_ok encodePublishPacket pub cache' \<and> fanned now pub [b] s s'"
proof -
  let ?q = "deliveryQoS (pQoS pub) (tQoS b)"
  from deliver_exact [OF ok enc r c pub, of now] d
  have e: "e = None" "cache_ok encodePublishPacket pub cache'"
    and s': "s' = (if ?q = 0 then (case liveClient s (tClientID b) of None \<Rightarrow> s | Some cp \<Rightarrow> setClient cp (enqueueOrClose (qos0Bytes pub) (svHeap s cp)) s)
       else s\<lparr>svSessions := snd (Admit now (tSubscriber b) (tRaw (template pub)) (int (tPacketIDOffset (template pub))) (svSessions s))\<rparr>)"
    by auto
  have "fanned now pub [b] s s'"
  proof (cases "?q = 0")
    case True
    then show ?thesis using s'
      by (cases "liveClient s (tClientID b)") (auto simp: fanned_def queuedFor_def enqueuedFor_def setClient_def)
  next
    case False
    then have q: "pQoS pub \<noteq> 0" using deliveryQoS_le1 [of "tQoS b" "pQoS pub"] r by (auto simp: routed_def)
    have "\<not> sDeleted (stStates (svSessions s) (tSubscriber b))"
      using server_okD(7) [OF ok] r by (auto simp: directory_ok_def routed_def dest!: map_of_SomeD)
    from Admit_admitted [OF pub q this, of now] obtain x where "admitted now (template pub) (stStates (svSessions s) (tSubscriber b)) x"
      "stStates (svSessions s') = (stStates (svSessions s))(tSubscriber b := x)" using s' False by auto
    moreover have "svHeap s' = svHeap s" "svClients s' = svClients s" "svOwners s' = svOwners s" using s' False by simp_all
    ultimately show ?thesis using False by (auto simp: fanned_def queuedFor_def enqueuedFor_def)
  qed
  with e show ?thesis by blast
qed

lemma distinct_reach:
  assumes ok: "server_ok s" and r: "\<forall>b \<in> set (b # rest). routed s b" and d: "distinct (map tClientID (b # rest))"
  shows "\<not> (queuedFor q [b] p \<and> queuedFor q rest p)" and "\<not> (enqueuedFor s q [b] cp \<and> enqueuedFor s q rest cp)"
proof -
  have "tClientID b' = tClientID b" if "b' \<in> set rest" "tSubscriber b' = tSubscriber b" for b'
    using that r server_okD(7) [OF ok] by (auto simp: directory_ok_def routed_def dest!: map_of_SomeD bspec)
  moreover have n: "tClientID b' \<noteq> tClientID b" if "b' \<in> set rest" for b'
    using d imageI [OF that, of tClientID] by (simp del: image_eqI) metis
  ultimately have "tSubscriber b' \<noteq> tSubscriber b" if "b' \<in> set rest" for b' using that by blast
  then show "\<not> (queuedFor q [b] p \<and> queuedFor q rest p)" by (auto simp: queuedFor_def list_ex_iff)
  have "liveClient s (tClientID b') \<noteq> Some cp" if "b' \<in> set rest" "liveClient s (tClientID b) = Some cp" for b'
    using n [OF that(1)] liveClientD(1) [OF ok that(2)] liveClientD(1) [OF ok, of "tClientID b'" cp] by auto
  then show "\<not> (enqueuedFor s q [b] cp \<and> enqueuedFor s q rest cp)" by (auto simp: enqueuedFor_def list_ex_iff)
qed

lemma fanned_all:
  assumes "server_ok s" "svEncode s = encodePublishPacket" "\<forall>b \<in> set rest. routed s b" "distinct (map tClientID rest)"
    and pub: "sendable pub" and "cache_ok encodePublishPacket pub cache"
    and "deliverAll now pub rest (cache, e0, s) = (cache', e, s')"
  shows "e = e0 \<and> fanned now pub rest s s'"
  using assms(1-4,6,7)
proof (induction rest arbitrary: s cache e0)
  case Nil
  then show ?case by (simp add: fanned_def queuedFor_def enqueuedFor_def)
next
  case (Cons b rest)
  obtain e1 cache1 s1 where d: "deliverPublishToSubscriber now pub b cache s = (e1, cache1, s1)" using prod_cases3 by blast
  have rb: "routed s b" using Cons.prems(3) by simp
  from fanned_one [OF Cons.prems(1,2) rb pub Cons.prems(5) d]
  have e1: "e1 = None" and c1: "cache_ok encodePublishPacket pub cache1" and f1: "fanned now pub [b] s s1" by auto
  have q: "quiet s s1" using quiet_deliver [OF Cons.prems(1), of now pub b cache] d by simp
  have run: "deliverAll now pub rest (cache1, e0, s1) = (cache', e, s')"
    using Cons.prems(6) by (simp add: publishCallback_def d e1)
  have "svEncode s1 = encodePublishPacket" using q Cons.prems(2) by (simp add: quiet_def)
  moreover have "\<forall>b \<in> set rest. routed s1 b" using Cons.prems(3) by (simp add: routed_quiet [OF q])
  ultimately have IH: "e = e0 \<and> fanned now pub rest s1 s'"
    using Cons.IH [OF server_ok_quiet [OF Cons.prems(1) q] _ _ _ c1 run] Cons.prems(4) by simp
  then have f2: "fanned now pub rest s1 s'" ..
  note dj = distinct_reach [OF Cons.prems(1,3,4)]
  have own: "svClients s1 = svClients s" "svOwners s1 = svOwners s" using f1 by (simp_all add: fanned_def)
  have eq: "enqueuedFor s1 (pQoS pub) rest cp = enqueuedFor s (pQoS pub) rest cp" for cp
    by (simp add: enqueuedFor_def liveClient_cong [OF own])
  have cons: "queuedFor (pQoS pub) (b # rest) p \<longleftrightarrow> queuedFor (pQoS pub) [b] p \<or> queuedFor (pQoS pub) rest p"
    "enqueuedFor s (pQoS pub) (b # rest) cp \<longleftrightarrow> enqueuedFor s (pQoS pub) [b] cp \<or> enqueuedFor s (pQoS pub) rest cp" for p cp
    by (simp_all add: queuedFor_def enqueuedFor_def)
  have "if queuedFor (pQoS pub) (b # rest) p then admitted now (template pub) (stStates (svSessions s) p) (stStates (svSessions s') p)
          else stStates (svSessions s') p = stStates (svSessions s) p" for p
    using f1 f2 dj(1) [of "pQoS pub" p] unfolding fanned_def cons by (metis (full_types))
  moreover have "svHeap s' cp = (if enqueuedFor s (pQoS pub) (b # rest) cp then enqueueOrClose (qos0Bytes pub) (svHeap s cp) else svHeap s cp)" for cp
    using f1 f2 dj(2) [of "pQoS pub" cp] unfolding fanned_def cons eq by (metis (full_types))
  ultimately have "fanned now pub (b # rest) s s'" using f1 f2 by (simp add: fanned_def)
  with IH show ?case by simp
qed

end
