(* ===== verification/ServerSubscribe.thy ===== *)
theory ServerSubscribe
  imports ServerReach
begin

text \<open>
  Subscribing: the return codes of a SUBSCRIBE packet and the subscriptions it leaves, against a
  reference that works on a plain list of subscriptions.  Handlers never panic under a policy that
  was built by \<^verbatim>\<open>New\<close>.
\<close>

section \<open>The reference\<close>

text \<open>
  \<open>grantable\<close>: the filter is allowed, within the limits on filters, and either replaces a subscription or
  fits into the session's and the global limit, with \<open>g\<close> subscriptions in other sessions.
\<close>

definition grantable :: "(string \<Rightarrow> bool) \<Rightarrow> session_limits \<Rightarrow> int \<Rightarrow> (string \<times> byte) list \<Rightarrow> string \<Rightarrow> bool" where
  "grantable allowed l g m f \<longleftrightarrow> allowed f \<and> \<not> overFilterLimit l f
     \<and> (map_of m f \<noteq> None
        \<or> int (length m) < MaxSubscriptionsPerSession l \<and> g + int (length m) < MaxSubscriptionsGlobal l)"

fun grantCodes ::
  "(string \<Rightarrow> bool) \<Rightarrow> session_limits \<Rightarrow> int \<Rightarrow> (string \<times> byte) list \<Rightarrow> wire_subscription list \<Rightarrow> byte list \<times> (string \<times> byte) list" where
  "grantCodes allowed l g m [] = ([], m)"
| "grantCodes allowed l g m (sub # rest) =
     (if grantable allowed l g m (sTopic sub)
      then let (codes, m') = grantCodes allowed l g (AList.update (sTopic sub) (min 1 (sQoS sub)) m) rest in (min 1 (sQoS sub) # codes, m')
      else let (codes, m') = grantCodes allowed l g m rest in (0x80 # codes, m'))"

definition mayFilter :: "server \<Rightarrow> nat \<Rightarrow> string \<Rightarrow> bool" where
  "mayFilter s p f \<longleftrightarrow> (case svAuth s of None \<Rightarrow> True | Some l \<Rightarrow> CanSubscribe (stateOwner s p) f l = Some True)"

definition panicFree :: "server \<Rightarrow> bool" where
  "panicFree s \<longleftrightarrow> (\<forall>l who f. svAuth s = Some l \<longrightarrow> CanSubscribe who f l \<noteq> None)"

lemma canSubscribe_total:
  assumes "panicFree s"
  shows "\<exists>s1. canSubscribe (stateOwner s p) f s = Some (mayFilter s p f, s1) \<and> svSessions s1 = svSessions s \<and> svAuth s1 = svAuth s"
proof (cases "svAuth s")
  case (Some l)
  with assms obtain b where "CanSubscribe (stateOwner s p) f l = Some b" by (auto simp: panicFree_def)
  with Some show ?thesis by (cases b) (simp_all add: canSubscribe_def mayFilter_def recordAuthorizationRejection_def)
qed (simp add: canSubscribe_def mayFilter_def)

section \<open>The loop follows the reference\<close>

lemma min_qos: "(if sQoS sub > 1 then 1 else sQoS sub) = min 1 (sQoS sub)"
  by (cases "sQoS sub > 1") (auto simp: min_def)

lemma SetSubscription_grant:
  assumes "\<not> sDeleted (stStates st p)" and wf: "wf_map (sSubscriptions (stStates st p))"
    and g: "g = mSubscriptionCount (stTotals st) - int (length (sSubscriptions (stStates st p)))"
  defines "m \<equiv> sSubscriptions (stStates st p)"
  shows "\<exists>e st'. SetSubscription p f q st = (e, st') \<and> stLimits st' = stLimits st \<and> \<not> sDeleted (stStates st' p)
    \<and> (\<forall>p'. p' \<noteq> p \<longrightarrow> stStates st' p' = stStates st p') \<and> sOwner (stStates st' p) = sOwner (stStates st p)
    \<and> sSubscriptions (stStates st' p) = (if e = None then AList.update f q m else m)
    \<and> g = mSubscriptionCount (stTotals st') - int (length (sSubscriptions (stStates st' p)))
    \<and> (e = None \<longleftrightarrow> grantable (\<lambda>_. True) (stLimits st) g m f)"
  using assms(1) g wf
  by (cases rule: SetSubscription_cases [of st p f q])
     (auto simp: m_def grantable_def length_update_alist)

lemma subscribeLoop_reference:
  assumes "panicFree s" "\<not> sDeleted (stStates (svSessions s) p)" "wf_map (sSubscriptions (stStates (svSessions s) p))"
    and "g = mSubscriptionCount (stTotals (svSessions s)) - int (length (sSubscriptions (stStates (svSessions s) p)))"
  shows "\<exists>s'. subscribeLoop p subs' s =
      Some (fst (grantCodes (mayFilter s p) (stLimits (svSessions s)) g (sSubscriptions (stStates (svSessions s) p)) subs'), s')
    \<and> sSubscriptions (stStates (svSessions s') p) =
        snd (grantCodes (mayFilter s p) (stLimits (svSessions s)) g (sSubscriptions (stStates (svSessions s) p)) subs')
    \<and> (\<forall>p'. p' \<noteq> p \<longrightarrow> stStates (svSessions s') p' = stStates (svSessions s) p')"
  using assms
proof (induction subs' arbitrary: s)
  case (Cons sub rest)
  let ?f = "sTopic sub" and ?q = "min 1 (sQoS sub)" and ?m = "sSubscriptions (stStates (svSessions s) p)"
  let ?l = "stLimits (svSessions s)"
  obtain s1 where c: "canSubscribe (stateOwner s p) ?f s = Some (mayFilter s p ?f, s1)"
    and s1: "svSessions s1 = svSessions s" "svAuth s1 = svAuth s" using canSubscribe_total [OF Cons.prems(1)] by blast
  obtain e st where set: "SetSubscription p ?f ?q (svSessions s) = (e, st)" and l: "stLimits st = ?l"
    and live: "\<not> sDeleted (stStates st p)" and others: "\<forall>p'. p' \<noteq> p \<longrightarrow> stStates st p' = stStates (svSessions s) p'"
    and own: "sOwner (stStates st p) = sOwner (stStates (svSessions s) p)"
    and subs: "sSubscriptions (stStates st p) = (if e = None then AList.update ?f ?q ?m else ?m)"
    and g: "g = mSubscriptionCount (stTotals st) - int (length (sSubscriptions (stStates st p)))"
    and e: "e = None \<longleftrightarrow> grantable (\<lambda>_. True) ?l g ?m ?f"
    using SetSubscription_grant [OF Cons.prems(2,3,4), of ?f ?q] by blast
  define ok where "ok \<longleftrightarrow> mayFilter s p ?f \<and> e = None"
  have grant: "grantable (mayFilter s p) ?l g ?m ?f \<longleftrightarrow> ok" using e by (auto simp: ok_def grantable_def)
  define s2 where "s2 = (if \<not> mayFilter s p ?f then s1 else if e \<noteq> None then s1\<lparr>svSessions := st\<rparr>
     else s1\<lparr>svSessions := st, svBroker := Broker_Subscribe (stateID s1) ?f ?q p (svBroker s1)\<rparr>)"
  have step: "subscribeLoop p (sub # rest) s =
      (case subscribeLoop p rest s2 of None \<Rightarrow> None | Some (codes, s) \<Rightarrow> Some ((if ok then ?q else 0x80) # codes, s))"
    using c set s1(1) unfolding s2_def ok_def by (cases "mayFilter s p ?f"; cases e) (simp_all add: Let_def min_qos)
  have sess: "svSessions s2 = (if mayFilter s p ?f then st else svSessions s)" by (simp add: s2_def s1)
  have auth: "svAuth s2 = svAuth s" by (simp add: s2_def s1)
  have pf: "panicFree s2" using Cons.prems(1) by (simp add: panicFree_def auth)
  have sub2: "sSubscriptions (stStates (svSessions s2) p) = (if ok then AList.update ?f ?q ?m else ?m)" using subs by (simp add: sess ok_def)
  have may: "mayFilter s2 p = mayFilter s p"
    by (intro ext) (simp add: mayFilter_def auth stateOwner_def sess own split: option.split)
  have live2: "\<not> sDeleted (stStates (svSessions s2) p)" using live Cons.prems(2) by (simp add: sess)
  have wf2: "wf_map (sSubscriptions (stStates (svSessions s2) p))" using Cons.prems(3) by (simp add: sub2 wf_map_update)
  have g2: "g = mSubscriptionCount (stTotals (svSessions s2)) - int (length (sSubscriptions (stStates (svSessions s2) p)))"
    using g Cons.prems(4) by (cases "mayFilter s p ?f") (simp_all add: sess)
  have l2: "stLimits (svSessions s2) = ?l" by (simp add: sess l)
  have IH: "\<exists>s'. subscribeLoop p rest s2 =
      Some (fst (grantCodes (mayFilter s p) ?l g (if ok then AList.update ?f ?q ?m else ?m) rest), s')
    \<and> sSubscriptions (stStates (svSessions s') p) = snd (grantCodes (mayFilter s p) ?l g (if ok then AList.update ?f ?q ?m else ?m) rest)
    \<and> (\<forall>p'. p' \<noteq> p \<longrightarrow> stStates (svSessions s') p' = stStates (svSessions s2) p')"
    using Cons.IH [OF pf live2 wf2 g2] unfolding may sub2 l2 .
  then obtain s' where "subscribeLoop p rest s2 = Some (fst (grantCodes (mayFilter s p) ?l g (if ok then AList.update ?f ?q ?m else ?m) rest), s')"
    "sSubscriptions (stStates (svSessions s') p) = snd (grantCodes (mayFilter s p) ?l g (if ok then AList.update ?f ?q ?m else ?m) rest)"
    "\<forall>p'. p' \<noteq> p \<longrightarrow> stStates (svSessions s') p' = stStates (svSessions s2) p'" by blast
  moreover have "stStates (svSessions s2) p' = stStates (svSessions s) p'" if "p' \<noteq> p" for p' using others that by (simp add: sess)
  ultimately show ?case using step grant by (auto simp: split_beta)
qed simp

text \<open>The subscriptions of the other live sessions are what the global count has besides this session's.\<close>

lemma other_subscriptions:
  assumes ok: "store_ok st" and live: "map_of (stData st) i = Some p"
  shows "mSubscriptionCount (stTotals st) - int (length (sSubscriptions (stStates st p))) =
    (\<Sum>(j, p') \<leftarrow> stData st. if j = i then 0 else int (length (sSubscriptions (stStates st p'))))"
proof -
  have "(\<Sum>(j, p') \<leftarrow> m. F p') - F p = (\<Sum>(j, p') \<leftarrow> m. if j = i then 0 else F p' :: int)"
    if "map_of m i = Some p" "wf_map m" for m F
    using that
  proof (induction m)
    case (Cons x m)
    obtain j p' where x: "x = (j, p')" by fastforce
    show ?case
    proof (cases "j = i")
      case True
      then have "(\<Sum>(j, p') \<leftarrow> m. if j = i then 0 else F p') = (\<Sum>(j, p') \<leftarrow> m. F p')"
        using Cons.prems x by (intro arg_cong [of _ _ sum_list] map_cong) (auto dest: in_keys)
      then show ?thesis using True Cons.prems x by simp
    qed (use Cons x in simp)
  qed simp
  moreover have "wf_map (stData st)" using store_okD(1) [OF ok] by (simp add: directory_ok_def)
  moreover have "mSubscriptionCount (stTotals st) = (\<Sum>(j, p') \<leftarrow> stData st. int (length (sSubscriptions (stStates st p'))))"
    using store_okD(2) [OF ok] by (simp add: totals_ok_def total_def loadOf_def)
  ultimately show ?thesis using live by metis
qed

lemma panicFree_reachable:
  assumes "server_reachable policy s"
  shows "panicFree s"
  unfolding panicFree_def
proof (intro allI impI)
  fix l who f
  assume "svAuth s = Some l"
  with server_reachable_ok [OF assms] obtain n users where "Auth_New n users = Inr l" by metis
  then show "CanSubscribe who f l \<noteq> None" by (simp add: CanSubscribe_New)
qed

text \<open>What the reference says for the packet \<open>pk\<close> on the connection \<open>op\<close>.\<close>

definition subscribeSpec :: "server \<Rightarrow> nat \<Rightarrow> subscribe_packet \<Rightarrow> byte list \<times> (string \<times> byte) list" where
  "subscribeSpec s op pk =
     (let st = svSessions s; sp = acSession (svOwners s op)
      in grantCodes (mayFilter s sp) (stLimits st)
           (\<Sum>(j, p') \<leftarrow> stData st. if j = clID (svHeap s (acClient (svOwners s op))) then 0 else int (length (sSubscriptions (stStates st p'))))
           (sSubscriptions (stStates st sp)) (spSubscriptions pk))"

lemma subscribeLoop_spec:
  assumes ok: "server_ok s" and pf: "panicFree s" and op: "serving s op"
  defines "sp \<equiv> acSession (svOwners s op)"
  shows "\<exists>s1. subscribeLoop sp (spSubscriptions pk) (pauseDelivery sp s) = Some (fst (subscribeSpec s op pk), s1)
    \<and> sSubscriptions (stStates (svSessions s1) sp) = snd (subscribeSpec s op pk)
    \<and> (\<forall>p. p \<noteq> sp \<longrightarrow> stStates (svSessions s1) p = stStates (svSessions s) p)"
proof -
  note D = server_okD [OF ok] and V = servingD [OF ok op, folded sp_def]
  let ?s0 = "pauseDelivery sp s"
  have s0: "svAuth ?s0 = svAuth s" "stLimits (svSessions ?s0) = stLimits (svSessions s)" "stTotals (svSessions ?s0) = stTotals (svSessions s)"
    "stStates (svSessions ?s0) = (stStates (svSessions s))(sp := (stStates (svSessions s) sp)\<lparr>sPaused := True\<rparr>)"
    by (auto simp: pauseDelivery_def PauseDelivery_def Let_def)
  have may: "mayFilter ?s0 sp = mayFilter s sp"
    by (intro ext) (simp add: mayFilter_def s0 stateOwner_def split: option.split)
  have pf0: "panicFree ?s0" using pf by (simp add: panicFree_def s0)
  have "\<not> sDeleted (stStates (svSessions ?s0) sp)" "wf_map (sSubscriptions (stStates (svSessions ?s0) sp))"
    using V(7) wf_subscriptions [OF D(2) V(3)] by (simp_all add: s0)
  from subscribeLoop_reference [OF pf0 this refl, of "spSubscriptions pk"] show ?thesis
    unfolding subscribeSpec_def Let_def may other_subscriptions [OF D(2) V(4), symmetric] sp_def [symmetric] by (auto simp: s0)
qed

lemma handleSubscribe_tail:
  assumes ok: "server_ok s" and sp: "sp < stNext (svSessions s)" and wf: "list_all subscription_wf (spSubscriptions pk)"
    and l: "subscribeLoop sp (spSubscriptions pk) (pauseDelivery sp s) = Some (codes, s1)"
  shows "\<exists>e s'. handleSubscribe now net cp sp pk s = Some (e, s') \<and> quiet s1 s'"
proof -
  note q0 = quiet_pause [OF sp]
  have "sp < stNext (svSessions (pauseDelivery sp s))" using quiet_store(2) [OF q0] sp by simp
  from subscribeLoop_ok [OF server_ok_quiet [OF ok q0] this wf l] quiet_same_sessions [OF q0]
  have k1: "server_ok s1" and n: "sp < stNext (svSessions s1)" using sp by (auto simp: same_sessions_def)
  let ?pkt = "SubAckPacket \<lparr>saPacketID = spPacketID pk, saReturnCodes = codes\<rparr>"
  obtain e2 s2 where s2: "sendPacket net cp ?pkt s1 = (e2, s2)" by fastforce
  with quiet_sendPacket [of s1 net cp ?pkt] have q2: "quiet s1 s2" by simp
  have n2: "sp < stNext (svSessions s2)" using n quiet_store(2) [OF q2] by simp
  obtain e3 s3 where s3: "replayLoop now cp sp (zip (spSubscriptions pk) codes) s2 = (e3, s3)" by fastforce
  with quiet_replayLoop [OF server_ok_quiet [OF k1 q2] n2, of now cp "zip (spSubscriptions pk) codes"] have q3: "quiet s2 s3" by simp
  then have n3: "sp < stNext (svSessions s3)" using n2 quiet_store(2) [OF q3] by simp
  from quiet_trans [OF q2 quiet_resume [OF n2]] quiet_trans [OF quiet_trans [OF q2 q3] quiet_resume [OF n3]] show ?thesis
    by (cases e2) (auto simp: handleSubscribe_def l s2 s3)
qed

text \<open>No packet makes the server panic.\<close>

lemma handlePacket_total:
  assumes ok: "server_ok s" and pf: "panicFree s" and op: "serving s op" and wf: "packet_wf pkt"
  shows "\<exists>e s'. handlePacket now net (acClient (svOwners s op)) (acSession (svOwners s op)) pkt s = Some (e, s')"
proof (cases pkt)
  case (SubscribePacket pk)
  with wf have w: "list_all subscription_wf (spSubscriptions pk)" by simp
  from subscribeLoop_spec [OF ok pf op, of pk] obtain s1 where
    "subscribeLoop (acSession (svOwners s op)) (spSubscriptions pk) (pauseDelivery (acSession (svOwners s op)) s) = Some (fst (subscribeSpec s op pk), s1)"
    by blast
  from handleSubscribe_tail [OF ok servingD(3) [OF ok op] w this, of now net "acClient (svOwners s op)"] SubscribePacket show ?thesis by (auto simp: handlePacket_def)
qed (auto simp: handlePacket_def split: prod.split bool.split)

lemma serveStep_total:
  assumes ok: "server_ok s" and pf: "panicFree s" and op: "serving s op"
  shows "\<exists>x s'. serveStep ctxDone now net (acClient (svOwners s op)) (acSession (svOwners s op)) r s = Some (x, s')"
proof (cases "DecodeWithLimit (svMaxPacketSize s) r")
  case (Inr y)
  obtain pkt r' where y: "y = (pkt, r')" by fastforce
  from handlePacket_total [OF ok pf op DecodeWithLimit_packet_wf [OF Inr [unfolded y]], of now net] obtain e s' where
    "handlePacket now net (acClient (svOwners s op)) (acSession (svOwners s op)) pkt s = Some (e, s')" by blast
  then show ?thesis using Inr y by (cases e) (auto simp: serveStep_def)
qed (simp add: serveStep_def)

section \<open>The packet loop\<close>

text \<open>The server is reachable and the connection \<open>op\<close>, with client \<open>cp\<close> and session \<open>sp\<close>, is not done.\<close>

definition owns :: "Local option \<Rightarrow> nat \<Rightarrow> nat \<Rightarrow> nat \<Rightarrow> server \<Rightarrow> bool" where
  "owns policy op cp sp s \<longleftrightarrow> server_reachable policy s \<and> serving s op \<and> acClient (svOwners s op) = cp \<and> acSession (svOwners s op) = sp"

lemma owns_serveStep:
  assumes o: "owns policy op cp sp s"
  shows "\<exists>x s'. serveStep ctxDone now net cp sp r s = Some (x, s') \<and> owns policy op cp sp s'"
proof -
  from o have reach: "server_reachable policy s" and op: "serving s op"
    and cp: "cp = acClient (svOwners s op)" "sp = acSession (svOwners s op)" by (auto simp: owns_def)
  from server_reachable_ok [OF reach] have ok: "server_ok s" by simp
  from serveStep_total [OF ok panicFree_reachable [OF reach] op, of ctxDone now net r] obtain x s' where
    st: "serveStep ctxDone now net cp sp r s = Some (x, s')" unfolding cp by blast
  have "same_sessions s s'" using serveStep_ok [OF ok op st [unfolded cp]] by simp
  then have "serving s' op" "acClient (svOwners s' op) = cp" "acSession (svOwners s' op) = sp"
    using op by (auto simp: same_sessions_def serving_def owner_core_def cp)
  moreover have "server_reachable policy s'"
    by (rule server_reachable.step [OF reach server_step.serve [OF op st [unfolded cp]]])
  ultimately show ?thesis using st by (auto simp: owns_def)
qed

lemma serve_total:
  assumes "owns policy op cp sp s" and others: "\<And>k s. owns policy op cp sp s \<Longrightarrow> owns policy op cp sp (vOthers (env k) s)"
  shows "\<exists>clean s'. serve env k cp sp r s = Some (clean, s') \<and> owns policy op cp sp s'"
  using assms
proof (induction env k cp sp r s rule: serve.induct)
  case (1 env k cp sp r s)
  from owns_serveStep [OF "1.prems"(2) [OF "1.prems"(1)], of "vCtxDone (env k)" "vNow (env k)" "vNet (env k)" r]
  obtain x s' where st: "serveStep (vCtxDone (env k)) (vNow (env k)) (vNet (env k)) cp sp r (vOthers (env k) s) = Some (x, s')"
    and o: "owns policy op cp sp s'" by blast
  show ?case
  proof (cases x)
    case (ServeDone b)
    then show ?thesis using st o by (subst serve.simps) auto
  next
    case (ServeMore r')
    from "1.IH" [OF st _ ServeMore o "1.prems"(2)] show ?thesis
      using st ServeMore by (subst serve.simps) auto
  qed
qed

end
