(* ===== verification/ServerExample.thy ===== *)
theory ServerExample
  imports ServerSubscribe
begin

text \<open>
  A run of a server with a policy: the user \<^verbatim>\<open>u\<close> connects as \<^verbatim>\<open>c\<close> and subscribes to \<^verbatim>\<open>p/a\<close>.  The state
  is used to show that the theorems about reachable servers have instances.
\<close>

section \<open>The policy\<close>

definition hash_live :: password_hash where
  "hash_live = \<lparr>phSalt = replicate 16 7, phKey = pbkdf2Key ''x'' (replicate 16 7) passwordIterations 32\<rparr>"

definition users_live :: "User list" where
  "users_live = [\<lparr>uUsername = ''u'',
     uPasswordHash = ''pbkdf2-sha256$600000$'' @ b64Encode (phSalt hash_live) @ ''$'' @ b64Encode (phKey hash_live),
     uClientIDs = [''c''], uPublish = [''p/#''], uSubscribe = [''p/+'']\<rparr>]"

definition policy_live :: Local where
  "policy_live = \<lparr>lUsers = map userEntry users_live, lSlots = 0, lCapacity = 2,
     lDummy = \<lparr>phSalt = replicate 16 0, phKey = replicate 32 0\<rparr>\<rparr>"

lemma parse_users_live: "parsePasswordHash (uPasswordHash (users_live ! 0)) = Inr hash_live"
proof -
  have "length (phSalt hash_live) = 16" "length (phKey hash_live) = 32" by (simp_all add: hash_live_def length_pbkdf2Key)
  from parsePasswordHash_encoded [OF this] show ?thesis unfolding users_live_def nth_Cons_0 User.simps by simp
qed

lemma Auth_New_live: "Auth_New 2 users_live = Inr policy_live"
  using parse_users_live
  by (auto simp: Auth_New_iff policy_live_def users_ok_def user_ok_def users_live_def validName_def topic_run upt_rec)

lemma policy_live_user: "\<exists>u. map_of (lUsers policy_live) ''u'' = Some u \<and> kHash u = hash_live"
  using parse_users_live by (simp add: policy_live_def users_live_def userEntry_def)

lemma policy_live_client: "CanUseClientID ''u'' ''c'' policy_live"
  unfolding CanUseClientID_New [OF Auth_New_live] by (simp add: users_live_def)

lemma policy_live_subscribe: "CanSubscribe ''u'' ''p/a'' policy_live = Some True"
proof -
  have "ValidateTopicFilter ''p/a'' = None" "ValidateTopicFilter ''p/+'' = None" by (simp_all add: topic_run upt_rec)
  moreover have "CoversFilter ''p/+'' ''p/a'' = Some True" by (simp add: CoversFilter_def topic_run upt_rec)
  ultimately show ?thesis using CanSubscribe_New [OF Auth_New_live, of "''u''" "''p/a''"] CoversFilter_inclusion [of "''p/+''" "''p/a''"]
    by (simp add: users_live_def)
qed

section \<open>Start and handshake\<close>

definition broker_live :: "nat broker" where
  "broker_live = \<lparr>topics = NewTree, retained = [], limits = \<lparr>MaxMessages = 1, MaxBytes = 8\<rparr>,
     stats = \<lparr>RetainedMessages = 0, RetainedBytes = 0, RetainedRejections = 0\<rparr>\<rparr>"

definition start_live :: server where
  "start_live = configured (Some policy_live) True 1 1 \<lparr>MaxConnections = 2, MaxHandshakes = 1\<rparr> 1024 broker_live store0_ex"

lemma start_live_reachable: "server_reachable (Some policy_live) start_live"
proof (rule server_reachable.start [where tls = True and ht = 1 and wt = 1 and mp = 1024])
  show "NewWithLimits \<lparr>MaxMessages = 1, MaxBytes = 8\<rparr> = Inr broker_live"
    by (simp add: NewWithLimits_def RetainedLimits_Validate_def broker_live_def)
  show "Store_NewWithLimits limits_ex = Inr store0_ex"
    by (simp add: Store_NewWithLimits_def Limits_Validate_def limits_ex_def DefaultLimits_def second_def store0_ex_def)
  show "\<forall>l. Some policy_live = Some l \<longrightarrow> (\<exists>n users. Auth_New n users = Inr l)" using Auth_New_live by blast
  show "startChecks start_live = None"
    by (simp add: start_live_def startChecks_def configured_def WithMaxPacketSize_def WithConnectionLimits_def WithWriteTimeout_def
        WithHandshakeTimeout_def WithSecurity_def Server_New_def Let_def ConnectionLimits_Validate_def MaxPacketSize_def MaxRemainingLength_def)
qed (simp add: start_live_def)

definition connect_live :: connect_packet where
  "connect_live = \<lparr>cProtocolName = ''MQTT'', cProtocolLevel = 4, cCleanSession = False, cKeepAlive = 0, cClientID = ''c'', cWill = None,
     cUsername = Some ''u'', cPassword = Some ''x''\<rparr>"

definition reader_live :: reader where
  "reader_live = \<lparr>rbuf = [0x10, 19, 0, 4, 77, 81, 84, 84, 4, 0xC0, 0, 0, 0, 1, 99, 0, 1, 117, 0, 1, 120], rfin = EOF, rN = None\<rparr>"

lemmas connect_run = decoder_run mapP_def decodeConnect_def decodeConnectBody_def limitP_def readUTF8String_def readBinaryData_def
  readUint16_def be16_def checkP_def liftP_def remainingP_def optionalP_def decodeConnectFlags_def Let_def string_of_bytes_def
  validateUTF8String_def ValidString_def containsNUL_def remaining_def char_of_def bit_0

lemma decode_live: "\<exists>r. DecodeWithLimit 1024 reader_live = Inr (ConnectPacket connect_live, r)"
  by (simp add: reader_live_def connect_live_def connect_run)


definition named_live :: server where
  "named_live = (setClient 0 (Client_New ''c'') start_live)\<lparr>svNextClient := 1\<rparr>"

lemma start_live_fields:
  "svAuth start_live = Some policy_live" "svSessions start_live = store0_ex" "svClients start_live = []" "svNextOwner start_live = 0"
  "svNextClient start_live = 0" "svMaxPacketSize start_live = 1024" "svBroker start_live = broker_live"
  by (simp_all add: start_live_def configured_fields) (simp add: configured_def WithMaxPacketSize_def WithConnectionLimits_def WithWriteTimeout_def
        WithHandshakeTimeout_def WithSecurity_def Server_New_def Let_def)

lemma named_live_reachable: "server_reachable (Some policy_live) named_live"
proof -
  obtain r where "DecodeWithLimit 1024 reader_live = Inr (ConnectPacket connect_live, r)" using decode_live by blast
  then have "snd (handshake reader_live start_live) = named_live"
    by (simp add: handshake_def start_live_fields named_live_def Let_def connect_live_def)
  then show ?thesis using server_reachable.step [OF start_live_reachable server_step.handshake] by metis
qed

section \<open>Acquisition\<close>

lemma authenticate_live: "authenticateConnect None None None connect_live named_live = ((''u'', ConnAckAccepted), named_live)"
proof -
  have "verify ''x'' hash_live = None" by (simp add: verify_def hash_live_def)
  then have "Authenticate None None ''u'' ''x'' policy_live = (Inr ''u'', policy_live)"
    using policy_live_user by (auto simp: Authenticate_def acquireSlot_def releaseSlot_def Let_def policy_live_def)
  moreover have "svAuth named_live = Some policy_live" by (simp add: named_live_def setClient_def start_live_fields)
  ultimately show ?thesis using policy_live_client
    by (simp add: authenticateConnect_def connect_live_def Let_def)
qed

definition owner_live :: active_connection where
  "owner_live = \<lparr>acClient = 0, acSession = 0, acCleanSession = False, acClosing = False, acReady = False, acDisconnectedAt = 0, acDone = False\<rparr>"

definition connected_live :: server where
  "connected_live = snd (acquireStep None 0 connect_live 0 ''u'' named_live)"

lemma connected_live_fields:
  "svClients connected_live = [(''c'', 0)]" "svNextOwner connected_live = 1" "svOwners connected_live 0 = owner_live"
  "svAuth connected_live = Some policy_live" "svMaxPacketSize connected_live = 1024"
  "svSessions connected_live = MarkConnected 0 store_ex" "clID (svHeap connected_live 0) = ''c''"
  "fst (acquireStep None 0 connect_live 0 ''u'' named_live) = Acquired 0 False"
proof -
  have g: "GetOrCreateOwned 0 ''c'' ''u'' store0_ex = (Inr (0, False), store_ex)"
    by (simp add: store_ex_def store0_ex_def GetOrCreateOwned_def Let_def limits_ex_def DefaultLimits_def)
  have "openSession 0 connect_live ''u'' named_live = (Inr (0, False), named_live\<lparr>svSessions := store_ex\<rparr>)"
    using g by (simp add: openSession_def Let_def connect_live_def named_live_def setClient_def start_live_fields ExpireSession_def expireLocked_def)
       (simp add: store0_ex_def expireLocked_def)
  moreover have "SnapshotSubscriptions 0 (MarkConnected 0 store_ex) = []"
    by (simp add: SnapshotSubscriptions_def MarkConnected_def Let_def newState_def)
  ultimately have "acquireStep None 0 connect_live 0 ''u'' named_live = (Acquired 0 False,
      (setOwner 0 owner_live (named_live\<lparr>svSessions := MarkConnected 0 store_ex\<rparr>))\<lparr>svNextOwner := 1, svClients := [(''c'', 0)]\<rparr>)"
    by (simp add: acquireStep_def Let_def named_live_def setClient_def start_live_fields Store_Get_def store0_ex_def restoreSubscriptions_def
        owner_live_def connect_live_def Client_New_def)
  then show "svClients connected_live = [(''c'', 0)]" "svNextOwner connected_live = 1" "svOwners connected_live 0 = owner_live"
    "svAuth connected_live = Some policy_live" "svMaxPacketSize connected_live = 1024"
    "svSessions connected_live = MarkConnected 0 store_ex" "clID (svHeap connected_live 0) = ''c''"
    "fst (acquireStep None 0 connect_live 0 ''u'' named_live) = Acquired 0 False"
    by (simp_all add: connected_live_def setOwner_def named_live_def setClient_def start_live_fields)
qed

lemma connected_live_reachable: "server_reachable (Some policy_live) connected_live"
proof (rule server_reachable.step [OF named_live_reachable server_step.acquire [OF _ _ authenticate_live]])
  show "acquireStep None 0 connect_live 0 ''u'' named_live = (Acquired 0 False, connected_live)"
    using connected_live_fields(8) by (simp add: connected_live_def prod_eq_iff)
qed (simp_all add: named_live_def setClient_def connect_live_def)

section \<open>Subscription\<close>

definition subscribe_live :: subscribe_packet where
  "subscribe_live = \<lparr>spPacketID = 1, spSubscriptions = [\<lparr>sTopic = ''p/a'', sQoS = 1\<rparr>]\<rparr>"

definition subscribe_reader_live :: reader where
  "subscribe_reader_live = \<lparr>rbuf = [0x82, 8, 0, 1, 0, 3, 112, 47, 97, 1], rfin = EOF, rN = None\<rparr>"

lemma serving_live: "serving connected_live 0"
  by (simp add: serving_def connected_live_fields owner_live_def)

lemma subscribe_live_spec: "subscribeSpec connected_live 0 subscribe_live = ([1], [(''p/a'', 1)])"
proof -
  have st: "stStates (MarkConnected 0 store_ex) 0 = (newState 0 ''c'' ''u'')\<lparr>sConnected := True, sOfflineSince := None\<rparr>"
    "stData (MarkConnected 0 store_ex) = [(''c'', 0)]" "stLimits (MarkConnected 0 store_ex) = limits_ex"
    by (simp_all add: MarkConnected_def Let_def newState_def)
  have "mayFilter connected_live 0 ''p/a''"
    using policy_live_subscribe by (simp add: mayFilter_def connected_live_fields stateOwner_def st newState_def)
  then show ?thesis
    by (simp add: subscribeSpec_def Let_def connected_live_fields owner_live_def st newState_def subscribe_live_def grantable_def
        limits_ex_def DefaultLimits_def overFilterLimit_def)
qed

lemma decode_subscribe_live: "\<exists>r. DecodeWithLimit 1024 subscribe_reader_live = Inr (SubscribePacket subscribe_live, r)"
proof -
  let ?r = "\<lparr>rbuf = [0, 3, 112, 47, 97, 1], rfin = EOF, rN = Some 6\<rparr> :: reader"
  have v: "ValidateTopicFilter ''p/a'' = None" by (simp add: topic_run upt_rec)
  have u: "readUTF8String ?r = Inr (''p/a'', \<lparr>rbuf = [1], rfin = EOF, rN = Some 1\<rparr>)" by (simp add: connect_run)
  have "decodeSubscriptions [] ?r = Inr ([\<lparr>sTopic = ''p/a'', sQoS = 1\<rparr>], \<lparr>rbuf = [], rfin = EOF, rN = Some 0\<rparr>)"
    by (subst decodeSubscriptions.simps, subst decodeSubscriptions.simps)
       (simp add: u v remaining_def readFull_def avail_def advance_def)
  then show ?thesis
    by (simp add: subscribe_reader_live_def subscribe_live_def connect_run decodeSubscribe_def decodeSubscribeBody_def readPacketID_def)
qed

definition subscribed_live :: server where
  "subscribed_live = snd (the (serveStep False 0 (\<lambda>_. None) 0 0 subscribe_reader_live connected_live))"

lemma subscribed_live_facts:
  "server_reachable (Some policy_live) subscribed_live" "owns (Some policy_live) 0 0 0 subscribed_live"
  "Store_Get ''c'' (svSessions subscribed_live) = Some 0" "stateOwner subscribed_live 0 = ''u''"
  "sSubscriptions (stStates (svSessions subscribed_live) 0) = [(''p/a'', 1)]"
proof -
  let ?s = connected_live
  from server_reachable_ok [OF connected_live_reachable] have ok: "server_ok ?s" by simp
  have own: "acClient (svOwners ?s 0) = 0" "acSession (svOwners ?s 0) = 0" by (simp_all add: connected_live_fields owner_live_def)
  from subscribeLoop_spec [OF ok panicFree_reachable [OF connected_live_reachable] serving_live, of subscribe_live]
  obtain s1 where l: "subscribeLoop 0 (spSubscriptions subscribe_live) (pauseDelivery 0 ?s) = Some ([1], s1)"
    and s1: "sSubscriptions (stStates (svSessions s1) 0) = [(''p/a'', 1)]" by (auto simp: own subscribe_live_spec)
  have wf: "list_all subscription_wf (spSubscriptions subscribe_live)"
    by (simp add: subscribe_live_def subscription_wf_def topic_run upt_rec)
  have sp: "0 < stNext (svSessions ?s)" using servingD(3) [OF ok serving_live] by (simp add: own)
  from handleSubscribe_tail [OF ok sp wf l, of 0 "\<lambda>_. None" 0] obtain e s2
    where h: "handleSubscribe 0 (\<lambda>_. None) 0 0 subscribe_live ?s = Some (e, s2)" and q: "quiet s1 s2" by blast
  obtain x where st: "serveStep False 0 (\<lambda>_. None) 0 0 subscribe_reader_live ?s = Some (x, s2)"
    using decode_subscribe_live h by (cases e) (auto simp: serveStep_def connected_live_fields handlePacket_def)
  then have live: "subscribed_live = s2" by (simp add: subscribed_live_def)
  have o: "owns (Some policy_live) 0 0 0 ?s" using connected_live_reachable serving_live own by (simp add: owns_def)
  from owns_serveStep [OF o, of False 0 "\<lambda>_. None" subscribe_reader_live] st have o2: "owns (Some policy_live) 0 0 0 s2" by auto
  then show "server_reachable (Some policy_live) subscribed_live" "owns (Some policy_live) 0 0 0 subscribed_live"
    by (simp_all add: live owns_def)
  show "sSubscriptions (stStates (svSessions subscribed_live) 0) = [(''p/a'', 1)]" using s1 quiet_store(3) [OF q] by (simp add: live)
  have "same_sessions ?s s2" using serveStep_ok [OF ok serving_live, unfolded own, OF st] by simp
  then show "Store_Get ''c'' (svSessions subscribed_live) = Some 0" "stateOwner subscribed_live 0 = ''u''"
    by (auto simp: same_sessions_def live Store_Get_def stateOwner_def connected_live_fields MarkConnected_def Let_def newState_def)
qed

end
