(* ===== verification/ServerProperties.thy ===== *)
theory ServerProperties
  imports ServerPublish ServerExample
begin

text \<open>
  The properties of a running server: what holds in every reachable state, what a publication reaches,
  what a SUBSCRIBE packet grants, what a new connection inherits, and that the packet loop returns.
\<close>

section \<open>Reachable states\<close>

text \<open>
  C5: the broker routes exactly the subscriptions of the live sessions. In every reachable state the
  subscription tree has a filter for a client identifier exactly when the live session of that identifier
  has stored it, with that session as the subscriber and the stored QoS; a topic matches only live
  sessions, each once.
\<close>

theorem routing_follows_sessions:
  assumes "server_reachable policy s"
  shows "find (topics (svBroker s)) f i =
      (case Store_Get i (svSessions s) of
         None \<Rightarrow> None
       | Some p \<Rightarrow> map_option (\<lambda>q. \<lparr>tClientID = i, tSubscriber = p, tQoS = q\<rparr>) (map_of (sSubscriptions (stStates (svSessions s) p)) f))
    \<and> (validateTopicName t = None \<longrightarrow>
         distinct (map tClientID (Match (topics (svBroker s)) t))
         \<and> (b \<in> set (Match (topics (svBroker s)) t) \<longleftrightarrow>
              Store_Get (tClientID b) (svSessions s) = Some (tSubscriber b) \<and> granted s (tSubscriber b) t = Some (tQoS b)))"
proof -
  from server_reachable_ok [OF assms] have ok: "server_ok s" by simp
  have "find (topics (svBroker s)) f i = routing s f i" using server_okD(4) [OF ok] by simp
  then show ?thesis using Match_sessions [OF ok] trie.query_once [OF server_okD(8) [OF ok]] by (simp add: routing_def Store_Get_def)
qed

theorem routing_follows_sessions_witness:
  "find (topics (svBroker subscribed_live)) ''p/a'' ''c'' = Some \<lparr>tClientID = ''c'', tSubscriber = 0, tQoS = 1\<rparr>"
  using routing_follows_sessions [OF subscribed_live_facts(1), of "''p/a''" "''c''"] subscribed_live_facts(3,5) by simp

text \<open>
  C9: a client identifier has one owner. A registered connection is running, its client carries that
  identifier and its session is the live, connected session of the identifier; a live session is connected
  exactly when its identifier is registered; two connections that are not done never share an identifier.
\<close>

theorem one_owner_per_client:
  assumes "server_reachable policy s"
  shows "(map_of (svClients s) i = Some op \<longrightarrow>
        serving s op \<and> clID (svHeap s (acClient (svOwners s op))) = i
        \<and> Store_Get i (svSessions s) = Some (acSession (svOwners s op))
        \<and> sConnected (stStates (svSessions s) (acSession (svOwners s op))))
    \<and> (Store_Get i (svSessions s) = Some p \<longrightarrow> (sConnected (stStates (svSessions s) p) \<longleftrightarrow> map_of (svClients s) i \<noteq> None))
    \<and> (serving s op1 \<and> serving s op2
        \<and> clID (svHeap s (acClient (svOwners s op1))) = clID (svHeap s (acClient (svOwners s op2))) \<longrightarrow> op1 = op2)"
proof -
  from server_reachable_ok [OF assms] have ok: "server_ok s" by simp
  note D = server_okD [OF ok]
  have reg: "registered s i op" if "map_of (svClients s) i = Some op" for op
    using D(6) map_of_SomeD [OF that] by (auto simp: registry_ok_def)
  have wf: "wf_map (stData (svSessions s))" using D(7) by (simp add: directory_ok_def)
  have "sConnected (stStates (svSessions s) p) \<longleftrightarrow> map_of (svClients s) i \<noteq> None" if g: "Store_Get i (svSessions s) = Some p"
  proof
    assume "sConnected (stStates (svSessions s) p)"
    then show "map_of (svClients s) i \<noteq> None"
      using D(6) map_of_SomeD [OF g [unfolded Store_Get_def]] by (auto simp: registry_ok_def)
  next
    assume "map_of (svClients s) i \<noteq> None"
    then obtain op where "map_of (svClients s) i = Some op" by blast
    from reg [OF this] show "sConnected (stStates (svSessions s) p)" using g by (simp add: registered_def Store_Get_def)
  qed
  moreover have "op1 = op2" if "serving s op1" "serving s op2"
    "clID (svHeap s (acClient (svOwners s op1))) = clID (svHeap s (acClient (svOwners s op2)))"
    using servingD(1) [OF ok that(1)] servingD(1) [OF ok that(2)] that(3) by (metis option.inject)
  moreover have "serving s op \<and> clID (svHeap s (acClient (svOwners s op))) = i
      \<and> Store_Get i (svSessions s) = Some (acSession (svOwners s op)) \<and> sConnected (stStates (svSessions s) (acSession (svOwners s op)))"
    if "map_of (svClients s) i = Some op" using reg [OF that] by (simp add: registered_def serving_def Store_Get_def)
  ultimately show ?thesis by blast
qed

theorem one_owner_per_client_witness:
  "map_of (svClients connected_live) ''c'' = Some 0 \<and> sConnected (stStates (svSessions connected_live) 0)"
  using one_owner_per_client [OF connected_live_reachable, of "''c''" 0] by (simp add: connected_live_fields owner_live_def)

text \<open>
  C6: with a policy, every live session belongs to a configured user who may use its client identifier
  (and no other user may), and every subscription it holds is a valid filter of QoS at most 1 whose topics
  all lie within one of that user's subscribe filters.
\<close>

theorem sessions_authorized:
  assumes "server_reachable (Some l) s" and "Auth_New procs users = Inr l" and "Store_Get i (svSessions s) = Some p"
  shows "\<exists>u \<in> set users. uUsername u = stateOwner s p \<and> i \<in> set (uClientIDs u)
    \<and> (\<forall>v \<in> set users. i \<in> set (uClientIDs v) \<longrightarrow> v = u)
    \<and> (\<forall>(f, q) \<in> set (sSubscriptions (stStates (svSessions s) p)). ValidateTopicFilter f = None \<and> q \<le> 1
        \<and> (\<exists>a \<in> set (uSubscribe u). \<forall>t. validateTopicName t = None \<and> MatchFilter f t \<longrightarrow> MatchFilter a t))"
proof -
  note R = server_reachable_ok [OF assms(1)]
  have ok: "server_ok s" and a: "svAuth s = Some l" using R by auto
  note D = server_okD [OF ok]
  have m: "map_of (stData (svSessions s)) i = Some p" using assms(3) by (simp add: Store_Get_def)
  have "CanUseClientID (stateOwner s p) i l" using R map_of_SomeD [OF m] a by (auto simp: allowedID_def)
  then obtain u where u: "u \<in> set users" "uUsername u = stateOwner s p" "i \<in> set (uClientIDs u)"
    unfolding CanUseClientID_New [OF assms(2)] by blast
  have dist: "distinct (map uUsername users)" "distinct (concat (map uClientIDs users))"
    using assms(2) by (simp_all add: Auth_New_iff users_ok_def)
  have "v = u" if "v \<in> set users" "i \<in> set (uClientIDs v)" for v
    by (rule concat_distinct_owner [OF dist(2) that(1) u(1) that(2) u(3)])
  moreover have "ValidateTopicFilter f = None \<and> q \<le> 1
      \<and> (\<exists>a \<in> set (uSubscribe u). \<forall>t. validateTopicName t = None \<and> MatchFilter f t \<longrightarrow> MatchFilter a t)"
    if "(f, q) \<in> set (sSubscriptions (stStates (svSessions s) p))" for f q
  proof -
    have c: "ValidateTopicFilter f = None" "q \<le> 1" "CanSubscribe (stateOwner s p) f l = Some True"
      using D(5) directory_less [OF D(7) m] that a unfolding subs_ok_def by (auto simp: stateOwner_def)
    then obtain v where v: "v \<in> set users" "uUsername v = stateOwner s p"
      "\<exists>a \<in> set (uSubscribe v). \<forall>t. validateTopicName t = None \<and> MatchFilter f t \<longrightarrow> MatchFilter a t"
      using CanSubscribe_New [OF assms(2), of "stateOwner s p" f] by auto
    have "v = u" using dist(1) v(1,2) u(1,2) by (simp add: distinct_map inj_on_def)
    with v(3) c show ?thesis by simp
  qed
  ultimately show ?thesis using u by blast
qed

theorem sessions_authorized_witness:
  "\<exists>u \<in> set users_live. uUsername u = ''u'' \<and> ''c'' \<in> set (uClientIDs u) \<and> stateOwner subscribed_live 0 = ''u''"
  using sessions_authorized [OF subscribed_live_facts(1) Auth_New_live subscribed_live_facts(3)] subscribed_live_facts(4) by auto


section \<open>Publication\<close>

lemma publish_fanned:
  assumes ok: "server_ok s" and enc: "svEncode s = encodePublishPacket" and pub: "sendable pub"
    and ret: "pRetain pub \<longrightarrow> fst (updateRetained pub (svBroker s)) = None" and p: "publishMessage now pub s = (e, s')"
  shows "e = None \<and> fanned now pub (Match (topics (svBroker s)) (pTopic pub)) s s'"
proof (cases rule: publishMessage_cases [of now pub s])
  case (rejected x b)
  then show ?thesis using ret by simp
next
  case (delivered b cache pe s1)
  let ?M = "Match (topics (svBroker s)) (pTopic pub)"
  have t: "validateTopicName (pTopic pub) = None" using pub by (simp add: sendable_def)
  have "routed s x" if "x \<in> set ?M" for x
  proof -
    from that Match_sessions [OF ok t] have m: "map_of (stData (svSessions s)) (tClientID x) = Some (tSubscriber x)"
      and g: "granted s (tSubscriber x) (pTopic pub) = Some (tQoS x)" by auto
    from g obtain f where "(f, tQoS x) \<in> set (sSubscriptions (stStates (svSessions s) (tSubscriber x)))" by (auto simp: granted_Some_iff)
    then have "tQoS x \<le> 1"
      using server_okD(5) [OF ok] directory_less [OF server_okD(7) [OF ok] m] unfolding subs_ok_def by fastforce
    with m show ?thesis by (simp add: routed_def)
  qed
  then have "pe = None \<and> fanned now pub ?M s s1"
    using fanned_all [OF ok enc _ trie.query_once [OF server_okD(8) [OF ok]] pub cache_ok_empty delivered(4)] by blast
  moreover have "e = pe" "s' = s1\<lparr>svBroker := b\<rparr>" using p delivered(1) by auto
  ultimately show ?thesis by (simp add: fanned_def)
qed

lemma queuedFor_Match:
  assumes "server_ok s" "validateTopicName t = None"
  shows "queuedFor q (Match (topics (svBroker s)) t) p \<longleftrightarrow>
      (\<exists>i g. Store_Get i (svSessions s) = Some p \<and> granted s p t = Some g \<and> deliveryQoS q g \<noteq> 0)"
    and "enqueuedFor s q (Match (topics (svBroker s)) t) cp \<longleftrightarrow>
      (\<exists>i p g. liveClient s i = Some cp \<and> Store_Get i (svSessions s) = Some p \<and> granted s p t = Some g \<and> deliveryQoS q g = 0)"
proof -
  let ?M = "Match (topics (svBroker s)) t"
  have m: "\<lparr>tClientID = i, tSubscriber = p, tQoS = g\<rparr> \<in> set ?M \<longleftrightarrow> Store_Get i (svSessions s) = Some p \<and> granted s p t = Some g" for i p g
    by (simp add: Match_sessions [OF assms] Store_Get_def)
  have ex: "(\<exists>b \<in> set ?M. P b) \<longleftrightarrow> (\<exists>i p g. \<lparr>tClientID = i, tSubscriber = p, tQoS = g\<rparr> \<in> set ?M \<and> P \<lparr>tClientID = i, tSubscriber = p, tQoS = g\<rparr>)" for P
    by (metis (full_types) subscription.cases unit.exhaust)
  show "queuedFor q ?M p \<longleftrightarrow> (\<exists>i g. Store_Get i (svSessions s) = Some p \<and> granted s p t = Some g \<and> deliveryQoS q g \<noteq> 0)"
    unfolding queuedFor_def list_ex_iff ex m by auto
  show "enqueuedFor s q ?M cp \<longleftrightarrow>
      (\<exists>i p g. liveClient s i = Some cp \<and> Store_Get i (svSessions s) = Some p \<and> granted s p t = Some g \<and> deliveryQoS q g = 0)"
    unfolding enqueuedFor_def list_ex_iff ex m by auto
qed


definition publication_live :: publish_packet where
  "publication_live = \<lparr>pTopic = ''p/a'', pPayload = [7], pRetain = False, pDUP = False, pQoS = 1, pPacketID = 5\<rparr>"

lemma granted_live: "granted subscribed_live 0 ''p/a'' = Some 1"
  by (simp add: granted_def subscribed_live_facts Let_def MatchFilter_def startsDollar_def)



text \<open>What a grant means under a policy.\<close>

lemma granted_authorized:
  assumes "server_reachable (Some l) s" and "Auth_New procs users = Inr l" and "Store_Get i (svSessions s) = Some p"
    and "granted s p t = Some g" and "validateTopicName t = None"
  shows "\<exists>u \<in> set users. uUsername u = stateOwner s p \<and> (\<exists>a \<in> set (uSubscribe u). MatchFilter a t)"
proof -
  note R = server_reachable_ok [OF assms(1)]
  have ok: "server_ok s" and a: "svAuth s = Some l" using R by auto
  from assms(4) obtain f where f: "(f, g) \<in> set (sSubscriptions (stStates (svSessions s) p))" "MatchFilter f t"
    by (auto simp: granted_Some_iff)
  have "p < stNext (svSessions s)" using directory_less [OF server_okD(7) [OF ok]] assms(3) by (simp add: Store_Get_def)
  then have "CanSubscribe (stateOwner s p) f l = Some True"
    using server_okD(5) [OF ok] f(1) a unfolding subs_ok_def by (auto simp: stateOwner_def)
  then show ?thesis using CanSubscribe_New [OF assms(2), of "stateOwner s p" f] f(2) assms(5) by auto
qed

lemma sendPacket_others:
  "svSessions (snd (sendPacket net cp pkt s)) = svSessions s" "c \<noteq> cp \<Longrightarrow> svHeap (snd (sendPacket net cp pkt s)) c = svHeap s c"
  by (auto simp: sendPacket_def sendPacketWithDeadline_def setClient_def split: sum.split prod.split)

text \<open>
  C3: publications stay within the policy on both sides. When a client of a server with a policy sends a
  PUBLISH for a topic its user may not publish, the connection ends with an error and nothing but the
  rejection counter changes. When a session or another client is changed by a PUBLISH, then the publisher
  may publish the topic, and the user owning that session, or the live session of that client, has a
  subscribe filter that matches the topic.
\<close>

theorem publish_confidential:
  assumes "server_reachable (Some l) s" and "Auth_New procs users = Inr l" and "serving s op"
    and "sp = acSession (svOwners s op)" and "cp = acClient (svOwners s op)"
    and "validateTopicName (pTopic pub) = None" and "publishBodyLength pub \<le> MaxRemainingLength"
    and "handlePacket now net cp sp (PublishPacket pub) s = Some (e, s')"
  shows "(\<not> CanPublish (stateOwner s sp) (pTopic pub) l \<longrightarrow>
        e = Some (New ''publication not authorized'') \<and> s' = recordAuthorizationRejection s)
    \<and> (stStates (svSessions s') p \<noteq> stStates (svSessions s) p \<longrightarrow>
        CanPublish (stateOwner s sp) (pTopic pub) l
        \<and> (\<exists>u \<in> set users. uUsername u = stateOwner s p \<and> (\<exists>a \<in> set (uSubscribe u). MatchFilter a (pTopic pub))))
    \<and> (c \<noteq> cp \<and> svHeap s' c \<noteq> svHeap s c \<longrightarrow>
        CanPublish (stateOwner s sp) (pTopic pub) l
        \<and> (\<exists>p. Store_Get (clID (svHeap s c)) (svSessions s) = Some p
             \<and> (\<exists>u \<in> set users. uUsername u = stateOwner s p \<and> (\<exists>a \<in> set (uSubscribe u). MatchFilter a (pTopic pub)))))"
proof (cases "CanPublish (stateOwner s sp) (pTopic pub) l")
  case False
  have "svAuth s = Some l" using server_reachable_ok [OF assms(1)] by simp
  with False assms(8) have "e = Some (New ''publication not authorized'')" "s' = recordAuthorizationRejection s"
    by (auto simp: handlePacket_def canPublish_def)
  then show ?thesis using False by (simp add: recordAuthorizationRejection_def)
next
  case True
  have auth: "svAuth s = Some l" and ok: "server_ok s" and enc: "svEncode s = encodePublishPacket"
    using server_reachable_ok [OF assms(1)] by auto
  obtain pe s1 where p: "publishMessage now pub s = (pe, s1)" by fastforce
  have "handlePublish now net cp pub s = (e, s')" using True assms(8) auth by (simp add: handlePacket_def canPublish_def)
  then have s': "s' = s1 \<or> (\<exists>pkt. s' = snd (sendPacket net cp pkt s1))"
    by (cases pe) (auto simp: handlePublish_def p split: if_splits intro: exI [of _ "PubAckPacket (pPacketID pub)"])
  have keep: "svSessions s' = svSessions s1" "c \<noteq> cp \<Longrightarrow> svHeap s' c = svHeap s1 c" using s' sendPacket_others by auto
  have pub: "sendable pub" using assms(6,7) by (simp add: sendable_def)
  have reach: "(stStates (svSessions s1) p \<noteq> stStates (svSessions s) p \<longrightarrow> queuedFor (pQoS pub) (Match (topics (svBroker s)) (pTopic pub)) p)
      \<and> (svHeap s1 c \<noteq> svHeap s c \<longrightarrow> enqueuedFor s (pQoS pub) (Match (topics (svBroker s)) (pTopic pub)) c)"
  proof (cases "pRetain pub \<longrightarrow> fst (updateRetained pub (svBroker s)) = None")
    case True
    from publish_fanned [OF ok enc pub True p] show ?thesis unfolding fanned_def by metis
  next
    case False
    then show ?thesis using p by (cases rule: publishMessage_cases [of now pub s]) auto
  qed
  have subs: "\<exists>u \<in> set users. uUsername u = stateOwner s q \<and> (\<exists>a \<in> set (uSubscribe u). MatchFilter a (pTopic pub))"
    if "Store_Get i (svSessions s) = Some q" "granted s q (pTopic pub) = Some g" for i q g
    using granted_authorized [OF assms(1,2) that assms(6)] .
  have "\<exists>u \<in> set users. uUsername u = stateOwner s p \<and> (\<exists>a \<in> set (uSubscribe u). MatchFilter a (pTopic pub))"
    if "stStates (svSessions s') p \<noteq> stStates (svSessions s) p"
    using that reach subs unfolding keep queuedFor_Match [OF ok assms(6)] by blast
  moreover have "\<exists>p. Store_Get (clID (svHeap s c)) (svSessions s) = Some p
      \<and> (\<exists>u \<in> set users. uUsername u = stateOwner s p \<and> (\<exists>a \<in> set (uSubscribe u). MatchFilter a (pTopic pub)))"
    if "c \<noteq> cp" "svHeap s' c \<noteq> svHeap s c"
  proof -
    from that reach keep(2) have "enqueuedFor s (pQoS pub) (Match (topics (svBroker s)) (pTopic pub)) c" by simp
    then obtain i q g where i: "liveClient s i = Some c" "Store_Get i (svSessions s) = Some q" "granted s q (pTopic pub) = Some g"
      unfolding queuedFor_Match [OF ok assms(6)] by blast
    with liveClientD(1) [OF ok i(1)] subs [OF i(2,3)] show ?thesis by blast
  qed
  ultimately show ?thesis using True by blast
qed

theorem publish_confidential_witness:
  "\<exists>e s'. handlePacket 0 (\<lambda>_. None) 0 0 (PublishPacket (publication_live\<lparr>pTopic := ''q''\<rparr>)) subscribed_live = Some (e, s')
     \<and> e = Some (New ''publication not authorized'')"
proof -
  let ?pub = "publication_live\<lparr>pTopic := ''q''\<rparr>"
  have o: "serving subscribed_live 0" "0 = acSession (svOwners subscribed_live 0)" "0 = acClient (svOwners subscribed_live 0)"
    using subscribed_live_facts(2) by (auto simp: owns_def)
  have v: "validateTopicName (pTopic ?pub) = None" "publishBodyLength ?pub \<le> MaxRemainingLength"
    by (simp_all add: publication_live_def topic_run publishBodyLength_def MaxRemainingLength_def)
  have "packet_wf (PublishPacket ?pub)" by (simp add: publication_live_def publish_wf_def topic_run)
  from handlePacket_total [OF _ panicFree_reachable [OF subscribed_live_facts(1)] o(1) this, of 0 "\<lambda>_. None"]
  obtain e s' where h: "handlePacket 0 (\<lambda>_. None) 0 0 (PublishPacket ?pub) subscribed_live = Some (e, s')"
    using server_reachable_ok [OF subscribed_live_facts(1)] o(2,3) by auto
  have "\<not> MatchFilter ''p/#'' ''q''" by (simp add: MatchFilter_def startsDollar_def)
  then have "\<not> CanPublish (stateOwner subscribed_live 0) (pTopic ?pub) policy_live"
    unfolding CanPublish_New [OF Auth_New_live] by (auto simp: users_live_def publication_live_def)
  with publish_confidential [OF subscribed_live_facts(1) Auth_New_live o v h] h show ?thesis by blast
qed


section \<open>Subscription\<close>

text \<open>
  C11: SUBSCRIBE grants what the reference grants. The return codes sent in the SUBACK and the
  subscriptions of the session afterwards are those of a loop over a plain list of subscriptions: a filter
  gets the code 0x80 exactly when the policy does not allow it, it breaks a limit on filters, or it is new
  and the session's or the global limit on subscriptions is reached, counting the filters before it in the
  same packet; otherwise it is stored with QoS at most 1, which is its code. No other session's
  subscriptions change, and the handler does not panic.
\<close>

theorem subscribe_exact:
  assumes "server_reachable policy s" and "serving s op" and "packet_wf (SubscribePacket pk)"
    and "sp = acSession (svOwners s op)" and "cp = acClient (svOwners s op)"
  shows "\<exists>s1 e s'. subscribeLoop sp (spSubscriptions pk) (pauseDelivery sp s) = Some (fst (subscribeSpec s op pk), s1)
    \<and> handleSubscribe now net cp sp pk s = Some (e, s')
    \<and> sSubscriptions (stStates (svSessions s') sp) = snd (subscribeSpec s op pk)
    \<and> (\<forall>p. p \<noteq> sp \<longrightarrow> sSubscriptions (stStates (svSessions s') p) = sSubscriptions (stStates (svSessions s) p))"
proof -
  from server_reachable_ok [OF assms(1)] have ok: "server_ok s" by simp
  from subscribeLoop_spec [OF ok panicFree_reachable [OF assms(1)] assms(2), of pk, folded assms(4)] obtain s1 where
    l: "subscribeLoop sp (spSubscriptions pk) (pauseDelivery sp s) = Some (fst (subscribeSpec s op pk), s1)"
    and s1: "sSubscriptions (stStates (svSessions s1) sp) = snd (subscribeSpec s op pk)"
      "\<forall>p. p \<noteq> sp \<longrightarrow> stStates (svSessions s1) p = stStates (svSessions s) p" by blast
  have sp: "sp < stNext (svSessions s)" using servingD(3) [OF ok assms(2)] by (simp add: assms(4))
  have wf: "list_all subscription_wf (spSubscriptions pk)" using assms(3) by simp
  from handleSubscribe_tail [OF ok sp wf l, of now net cp] obtain e s'
    where h: "handleSubscribe now net cp sp pk s = Some (e, s')" and q: "quiet s1 s'" by blast
  show ?thesis using l h s1 quiet_store(3) [OF q] by auto
qed

theorem subscribe_exact_witness:
  "\<exists>e s'. handleSubscribe 0 (\<lambda>_. None) 0 0 subscribe_live connected_live = Some (e, s')
     \<and> sSubscriptions (stStates (svSessions s') 0) = [(''p/a'', 1)]"
proof -
  have "packet_wf (SubscribePacket subscribe_live)" by (simp add: subscribe_live_def subscription_wf_def topic_run upt_rec)
  from subscribe_exact [OF connected_live_reachable serving_live this, of 0 0 0 "\<lambda>_. None"] show ?thesis
    by (auto simp: connected_live_fields owner_live_def subscribe_live_spec)
qed

section \<open>Serving\<close>




section \<open>Connecting\<close>

text \<open>The store as the lookup of a CONNECT finds it: the session of the identifier is gone if it has expired or is to be clean.\<close>

lemma prepared_store:
  fixes now :: int
  assumes ok: "server_ok s" and free: "map_of (svClients s) (cClientID connect) = None"
  defines "st \<equiv> svSessions s" and "st' \<equiv> svSessions (preparedFor now connect s)" and "i \<equiv> cClientID connect"
  defines "gone \<equiv> cCleanSession connect \<or> (\<exists>p. map_of (stData st) i = Some p \<and> expired (stLimits st) now (stStates st p))"
  shows "map_of (stData st') = (if gone then (map_of (stData st))(i := None) else map_of (stData st))"
    and "\<And>q. map_of (stData st) i \<noteq> Some q \<Longrightarrow> stStates st' q = stStates st q" and "\<not> gone \<Longrightarrow> st' = st"
    and "stNext st' = stNext st"
proof -
  note D = server_okD [OF ok]
  obtain b st1 where e: "ExpireSession i now st = (b, st1)" by fastforce
  note w1 = without_ExpireSession [OF D(2) e [unfolded st_def], folded st_def]
  have st': "st' = (if cCleanSession connect then deleteLocked i st1 else st1)"
    using e by (simp add: st'_def st_def i_def preparedFor_def Let_def unsubscribeClient_def Store_Delete_def)
  have b: "b \<longleftrightarrow> (\<exists>p. map_of (stData st) i = Some p \<and> expired (stLimits st) now (stStates st p))"
    using e by (cases "map_of (stData st) i") (auto simp: ExpireSession_def expireLocked_def Let_def split: if_splits)
  have ok1: "store_ok st1" using w1 D(2) by (cases b) (simp_all add: without_def st_def)
  note w2 = without_deleteLocked [OF ok1, of i]
  have m1: "map_of (stData st1) = (if b then (map_of (stData st))(i := None) else map_of (stData st))"
    using w1 by (cases b) (simp_all add: without_def delete_conv')
  have m2: "map_of (stData (deleteLocked i st1)) = (map_of (stData st1))(i := None)" using w2 by (simp add: without_def delete_conv')
  show "map_of (stData st') = (if gone then (map_of (stData st))(i := None) else map_of (stData st))"
    using m1 m2 b by (auto simp: st' gone_def)
  have s1: "stStates st1 q = stStates st q" if "map_of (stData st) i \<noteq> Some q" for q using w1 that by (cases b) (simp_all add: without_def)
  show "stStates st' q = stStates st q" if "map_of (stData st) i \<noteq> Some q" for q
  proof -
    have "map_of (stData st1) i \<noteq> Some q" using m1 that by (simp split: if_splits)
    then show ?thesis using w2 s1 [OF that] by (simp add: st' without_def)
  qed
  show "st' = st" if "\<not> gone" using that w1 b by (auto simp: st' gone_def)
  show "stNext st' = stNext st" using w1 w2 by (cases b) (simp_all add: st' without_def)
qed

text \<open>
  C10: what an accepted connection gets. It is registered under its identifier with a connected session
  of its own identity. The session present flag is set exactly when the connection does not ask for a clean session and
  a session of the identifier exists that has not expired; then the connection takes over that very session
  with its subscriptions and pending messages. Otherwise the session is new, without
  subscriptions and messages, and an old session of the identifier is gone. Sessions of other identifiers are untouched.
\<close>

theorem acquire_session:
  assumes "server_reachable policy s" and "cp < svNextClient s" and "clID (svHeap s cp) = i" and "cClientID connect = i"
    and "acquireStep None now connect cp who s = (Acquired op present, s')"
  shows "\<exists>sp. map_of (svClients s') i = Some op \<and> acSession (svOwners s' op) = sp \<and> acClient (svOwners s' op) = cp
    \<and> Store_Get i (svSessions s') = Some sp \<and> stateOwner s' sp = who \<and> map_of (svClients s) i = None
    \<and> (present \<longleftrightarrow> \<not> cCleanSession connect
         \<and> (\<exists>p. Store_Get i (svSessions s) = Some p \<and> \<not> expired (stLimits (svSessions s)) now (stStates (svSessions s) p)))
    \<and> (if present then Store_Get i (svSessions s) = Some sp
         \<and> stStates (svSessions s') sp = (stStates (svSessions s) sp)\<lparr>sConnected := True, sOfflineSince := None\<rparr>
       else sp = stNext (svSessions s)
         \<and> stStates (svSessions s') sp = (newState now i who)\<lparr>sConnected := True, sOfflineSince := None\<rparr>)
    \<and> (\<forall>j p. j \<noteq> i \<longrightarrow> Store_Get j (svSessions s') = Store_Get j (svSessions s)
         \<and> (Store_Get j (svSessions s) = Some p \<longrightarrow> stStates (svSessions s') p = stStates (svSessions s) p))"
proof -
  from server_reachable_ok [OF assms(1)] have ok: "server_ok s" by simp
  note D = server_okD [OF ok]
  let ?st = "svSessions s" and ?pre = "svSessions (preparedFor now connect s)"
  have c: "clID (svHeap s cp) = cClientID connect" using assms(3,4) by simp
  from assms(5) c have "\<exists>sp s1. map_of (svClients s) i = None \<and> openSession now connect who s = (Inr (sp, present), s1)
      \<and> svSessions s' = MarkConnected sp (svSessions s1) \<and> map_of (svClients s') i = Some op
      \<and> acSession (svOwners s' op) = sp \<and> acClient (svOwners s' op) = cp"
    by (cases rule: acquireStep_cases) (auto simp: assms(4) map_of_update_iff)
  then obtain sp s1 where free: "map_of (svClients s) i = None" and o: "openSession now connect who s = (Inr (sp, present), s1)"
    and s': "svSessions s' = MarkConnected sp (svSessions s1)" and reg: "map_of (svClients s') i = Some op"
      "acSession (svOwners s' op) = sp" "acClient (svOwners s' op) = cp" by blast
  note P = prepared_store [where now = now, OF ok free [folded assms(4)], unfolded assms(4)]
  have live1: "map_of (stData (svSessions s1)) i = Some sp" "stateOwner s1 sp = who"
    using openSession_ok [OF ok free [folded assms(4)] o] by (simp_all add: assms(4))
  from openSession_ok [OF ok free [folded assms(4)] o] have "directory_ok (svSessions s1)" using server_okD(7) by blast
  then have "\<not> sDeleted (stStates (svSessions s1) sp)" using map_of_SomeD [OF live1(1)] by (auto simp: directory_ok_def)
  then have mark: "stData (svSessions s') = stData (svSessions s1)"
    "stStates (svSessions s') = (stStates (svSessions s1))(sp := (stStates (svSessions s1) sp)\<lparr>sConnected := True, sOfflineSince := None\<rparr>)"
    by (simp_all add: s' MarkConnected_def Let_def)
  let ?gone = "cCleanSession connect \<or> (\<exists>p. map_of (stData ?st) i = Some p \<and> expired (stLimits ?st) now (stStates ?st p))"
  have other: "q \<noteq> p" if "map_of (stData ?st) i = Some q" "map_of (stData ?st) j = Some p" "j \<noteq> i" for j p q
    using map_of_SomeD [OF that(1)] map_of_SomeD [OF that(2)] that(3) D(7) by (auto simp: directory_ok_def)
  have g: "GetOrCreateOwned now i who ?pre = (Inr (sp, present), svSessions s1)"
    using o by (auto simp: openSession_prepared assms(4) split: prod.splits)
  show ?thesis
  proof (cases rule: GetOrCreateOwned_cases [of ?pre i who now])
    case (found p)
    then have p: "p = sp" "present" "svSessions s1 = ?pre" using g by auto
    then have ng: "\<not> ?gone" and m: "map_of (stData ?st) i = Some sp" using P(1) found(1) by (auto split: if_splits)
    have eq: "svSessions s1 = ?st" using P(3) [OF ng] p(3) by simp
    have "stStates (svSessions s') q = stStates ?st q" if "map_of (stData ?st) j = Some q" "j \<noteq> i" for j q
      using other [OF m that] by (simp add: mark eq)
    then show ?thesis using reg free live1(2) p(2) ng m by (auto simp: Store_Get_def mark eq stateOwner_def)
  next
    case (created st')
    then have p: "sp = stNext ?pre" "\<not> present" "svSessions s1 = (setState sp (newState now i who) ?pre)\<lparr>stNext := sp + 1, stData := AList.update i sp (stData ?pre)\<rparr>"
      using g by (auto simp: GetOrCreateOwned_def Let_def split: if_splits)
    have "?gone" if "map_of (stData ?st) i \<noteq> None" using created(1) P(1) that by (auto split: if_splits)
    then have ng: "\<not> (\<not> cCleanSession connect \<and> (\<exists>p. map_of (stData ?st) i = Some p \<and> \<not> expired (stLimits ?st) now (stStates ?st p)))" by auto
    have data: "map_of (stData (svSessions s')) j = map_of (stData ?st) j" if "j \<noteq> i" for j
      using that P(1) by (auto simp: mark p(3) map_of_update_iff)
    have "stStates (svSessions s') q = stStates ?st q" if q: "map_of (stData ?st) j = Some q" "j \<noteq> i" for j q
    proof -
      have "q \<noteq> sp" using directory_less [OF D(7) q(1)] by (simp add: p(1) P(4))
      moreover have "map_of (stData ?st) i \<noteq> Some q" using other q by blast
      ultimately show ?thesis using P(2) by (simp add: mark p(3))
    qed
    moreover have "stStates (svSessions s') sp = (newState now i who)\<lparr>sConnected := True, sOfflineSince := None\<rparr>" by (simp add: mark p(3))
    ultimately show ?thesis using reg free live1 p(1,2) ng data P(4) by (auto simp: Store_Get_def mark(1) stateOwner_def newState_def)
  qed (use g in auto)
qed

theorem acquire_session_witness:
  "\<exists>sp. map_of (svClients connected_live) ''c'' = Some 0 \<and> sp = stNext (svSessions named_live)
     \<and> stStates (svSessions connected_live) sp = (newState 0 ''c'' ''u'')\<lparr>sConnected := True, sOfflineSince := None\<rparr>"
proof -
  have a: "acquireStep None 0 connect_live 0 ''u'' named_live = (Acquired 0 False, connected_live)"
    using connected_live_fields(8) by (simp add: connected_live_def prod_eq_iff)
  have "0 < svNextClient named_live" "clID (svHeap named_live 0) = ''c''" "cClientID connect_live = ''c''"
    by (simp_all add: named_live_def setClient_def connect_live_def)
  from acquire_session [OF named_live_reachable this a] show ?thesis by auto
qed

end
