(* ===== verification/Spec2Isabelle.thy ===== *)
theory Spec2Isabelle
  imports Encoder TopicTree ServerProperties
begin

text \<open>
  OrbMQ is an MQTT 3.1.1 broker written in Go.  This development models its packet codec, topic
  filters, subscription tree, broker core, sessions, authentication, connections and server, and proves
  them correct.  Paths below are relative to \<^verbatim>\<open>src/internal\<close>.

  \<^bold>\<open>The program.\<close>  A connection is accepted and counted (\<^verbatim>\<open>server.connectionGroup\<close>), its first packet is
  decoded and must be CONNECT, the client is authenticated against a fixed policy (\<^verbatim>\<open>auth\<close>) and acquires
  its client identifier, after the previous connection of that identifier has been closed.  A session
  (\<^verbatim>\<open>session\<close>) holds the subscriptions of the client and the QoS 1 messages it has not acknowledged; the
  subscriptions are also in the tree of the broker (\<^verbatim>\<open>topic\<close>, \<^verbatim>\<open>broker\<close>), which routes publications and
  keeps retained messages.  A publication is encoded once per QoS as a template, admitted to the queue of
  every matching session, and sent by a delivery loop through the bounded write queue of the connection
  (\<^verbatim>\<open>client\<close>).

  \<^bold>\<open>Theories.\<close>
  \<^item> \<open>Prelude\<close>: bytes, strings, big-endian integers, errors as values, association lists for Go maps.
  \<^item> \<open>Packet\<close>, \<open>Wire\<close>, \<open>Decoder\<close>, \<open>Encoder\<close>: \<^verbatim>\<open>protocol/packet.go\<close>, \<^verbatim>\<open>wire.go\<close>, \<^verbatim>\<open>decoder.go\<close>, \<^verbatim>\<open>encoder.go\<close>.  A
    reader is the list of bytes still to come, the error at its end and the remaining budget of a
    \<^verbatim>\<open>LimitedReader\<close>; a decoder is a function on readers.  The locales \<open>wire_reader\<close> and \<open>stream_reader\<close> are
    the contract of every decoder: it consumes a prefix and does not look behind it.  Shown: framing,
    well-formedness of decoded packets, limits, and round trips of PUBLISH and PUBACK.
  \<^item> \<open>TopicParse\<close>, \<open>TopicTree\<close>: \<^verbatim>\<open>topic/parse.go\<close>, \<^verbatim>\<open>topic/tree.go\<close>.  Shown: filter validation, matching,
    coverage as inclusion of topic sets, and that the trie implements a map (locale \<open>subscription_index\<close>).
  \<^item> \<open>Broker\<close>: \<^verbatim>\<open>broker/broker.go\<close>.  Shown: exact routing, retained messages as a bounded store (locale
    \<open>retained_store\<close>) and exact accounting in every reachable state.
  \<^item> \<open>SessionQueue\<close>, \<open>SessionDelivery\<close>, \<open>SessionStore\<close>: \<^verbatim>\<open>session/queue.go\<close>, \<^verbatim>\<open>session/store.go\<close>.  Entries and
    states are objects with addresses.  Shown: the queue refines an abstract at-least-once queue (locale
    \<open>delivery_queue\<close>), \<^verbatim>\<open>Next\<close> returns, a reconnecting client gets everything, accounting, expiry, ownership.
  \<^item> \<open>Outbound\<close>: the end of \<^verbatim>\<open>server/server.go\<close>, templates and the delivery cache.
  \<^item> \<open>Password\<close>, \<open>Auth\<close>: \<^verbatim>\<open>auth/password.go\<close>, \<^verbatim>\<open>auth/local.go\<close>.  SHA-256, HMAC, PBKDF2 and base64 are defined.
  \<^item> \<open>Client\<close>: \<^verbatim>\<open>client/client.go\<close>, with the writer as a step relation.
  \<^item> \<open>Connections\<close>: connection admission of \<^verbatim>\<open>server/server.go\<close>.
  \<^item> \<open>Server\<close>, \<open>ServerConn\<close>: the packet handlers and the life of a connection, \<^verbatim>\<open>server/server.go\<close> and
    \<^verbatim>\<open>server/security.go\<close>.
  \<^item> \<open>ServerInv\<close>: the invariant that ties broker, sessions and registry together.
  \<^item> \<open>ServerStep\<close>, \<open>ServerAcquire\<close>, \<open>ServerSystem\<close>: every handler, session acquisition, closing and expiry keep
    it.
  \<^item> \<open>ServerReach\<close>: the steps of all goroutines as one relation, started as in \<^verbatim>\<open>cmd/orbmq/main.go\<close>, and the
    invariant of every reachable state.
  \<^item> \<open>ServerPublish\<close>, \<open>ServerSubscribe\<close>, \<open>ServerExample\<close>, \<open>ServerProperties\<close>: what a publication reaches, what a
    SUBSCRIBE grants, a concrete run, and the properties of a running server.

  \<^bold>\<open>Conventions.\<close>  A Go map is an association list with distinct keys whose order is the unspecified
  iteration order.  A method that holds a mutex is one state transition.  Pointers that the source
  compares or shares are addresses into explicit heaps.  The clock, the random source, the network and
  the context's errors are arguments.  Machine integers keep their width where the code lets them wrap
  (packet identifiers, epochs, rejection counters); sizes and counts that the invariants keep within
  configured limits are unbounded integers.  A panic is \<open>None\<close> where one is possible.

  \<^bold>\<open>Termination.\<close>  Loops over data are structural or have a measure.  The search for a free packet
  identifier is a \<open>partial_function\<close>, proved to return.  The delivery loop \<open>drain\<close> takes the number of
  messages as fuel, which is proved to be enough.

  \<^bold>\<open>Not modelled.\<close>  Listener, TCP and TLS input and output, logging, the slice and buffer pools (they only
  recycle memory), configuration files, the observer and the commands under \<^verbatim>\<open>cmd\<close>.  Interleavings inside one packet handler are not modelled: a handler is one
  transition, and what other goroutines do happens between transitions.
\<close>

end
